(* ===== verification/Chsm_Prelude.thy ===== *)
theory Chsm_Prelude
  imports Main "HOL-Library.Word"
begin

text \<open>
  Shared vocabulary of the development.  The code under verification is C++ that may
  dereference a null pointer, fail an \<^verbatim>\<open>assert\<close>, or recurse without end; every
  operation that can do so returns a value of type \<open>err + 'a\<close>, with \<open>Inl\<close> for the
  failure.  This theory holds the sequencing operator \<open>rbind\<close>, the loop \<open>iter_res\<close>,
  the two predicate transformers \<open>wlp\<close> (nothing is claimed about a failing run) and
  \<open>wp\<close> (the run succeeds) together with the rules the component proofs share, and a few
  facts about lists.
\<close>

named_theorems triple_intro "rules that establish wlp and wp facts of an operation"

section \<open>Failing computations\<close>

datatype err =
    OutOfFuel     \<comment> \<open>the model's recursion bound was reached\<close>
  | BadAccess     \<comment> \<open>null or out-of-range pointer dereference: undefined behaviour\<close>
  | AssertFail    \<comment> \<open>an \<^verbatim>\<open>assert\<close> does not hold\<close>

definition rbind :: "'e + 'a \<Rightarrow> ('a \<Rightarrow> 'e + 'b) \<Rightarrow> 'e + 'b" where
  "rbind r f = (case r of Inl e \<Rightarrow> Inl e | Inr a \<Rightarrow> f a)"

lemma rbind_simps [simp]:
  "rbind (Inl e) f = Inl e"
  "rbind (Inr a) f = f a"
  by (simp_all add: rbind_def)

lemma rbind_Inr_iff [simp]: "rbind r f = Inr b \<longleftrightarrow> (\<exists>a. r = Inr a \<and> f a = Inr b)"
  by (cases r) auto

lemma rbind_assoc: "rbind (rbind r f) g = rbind r (\<lambda>a. rbind (f a) g)"
  by (cases r) auto

lemma rbind_cong [fundef_cong, cong]:
  "r = r' \<Longrightarrow> (\<And>a. r' = Inr a \<Longrightarrow> f a = f' a) \<Longrightarrow> rbind r f = rbind r' f'"
  by (cases r') auto

text \<open>A \<^verbatim>\<open>for\<close> loop over a list, the state threaded through the body.\<close>

primrec iter_res :: "('a \<Rightarrow> 's \<Rightarrow> 'e + 's) \<Rightarrow> 'a list \<Rightarrow> 's \<Rightarrow> 'e + 's" where
  "iter_res f [] s = Inr s"
| "iter_res f (x # xs) s = rbind (f x s) (iter_res f xs)"

lemma iter_res_append [simp]:
  "iter_res f (xs @ ys) s = rbind (iter_res f xs s) (iter_res f ys)"
  by (induction xs arbitrary: s) (simp_all add: rbind_assoc)

section \<open>Predicate transformers\<close>

definition wlp :: "'e + 'a \<Rightarrow> ('a \<Rightarrow> bool) \<Rightarrow> bool" where
  "wlp r Q = (case r of Inl e \<Rightarrow> True | Inr a \<Rightarrow> Q a)"

definition wp :: "'e + 'a \<Rightarrow> ('a \<Rightarrow> bool) \<Rightarrow> bool" where
  "wp r Q = (case r of Inl e \<Rightarrow> False | Inr a \<Rightarrow> Q a)"

lemma wlp_simps [simp]:
  "wlp (Inl e) Q"
  "wlp (Inr a) Q = Q a"
  "wlp (rbind r f) Q = wlp r (\<lambda>a. wlp (f a) Q)"
  by (auto simp: wlp_def rbind_def split: sum.splits)

lemma wp_simps [simp]:
  "\<not> wp (Inl e) Q"
  "wp (Inr a) Q = Q a"
  "wp (rbind r f) Q = wp r (\<lambda>a. wp (f a) Q)"
  by (auto simp: wp_def rbind_def split: sum.splits)

lemma wlp_iff: "wlp r Q \<longleftrightarrow> (\<forall>a. r = Inr a \<longrightarrow> Q a)"
  by (cases r) auto

lemma wp_iff: "wp r Q \<longleftrightarrow> (\<exists>a. r = Inr a \<and> Q a)"
  by (cases r) auto

lemma wlpI: "(\<And>a. r = Inr a \<Longrightarrow> Q a) \<Longrightarrow> wlp r Q"
  by (simp add: wlp_iff)

lemma wlpD: "wlp r Q \<Longrightarrow> r = Inr a \<Longrightarrow> Q a"
  by (simp add: wlp_iff)

lemma wpE: "wp r Q \<Longrightarrow> (\<And>a. r = Inr a \<Longrightarrow> Q a \<Longrightarrow> thesis) \<Longrightarrow> thesis"
  by (auto simp: wp_iff)

lemma wlp_mono: "wlp r Q \<Longrightarrow> (\<And>a. r = Inr a \<Longrightarrow> Q a \<Longrightarrow> R a) \<Longrightarrow> wlp r R"
  by (auto simp: wlp_iff)

lemma wp_mono: "wp r Q \<Longrightarrow> (\<And>a. r = Inr a \<Longrightarrow> Q a \<Longrightarrow> R a) \<Longrightarrow> wp r R"
  by (auto simp: wp_iff)

lemma wp_wlp: "wp r Q \<Longrightarrow> wlp r Q"
  by (auto simp: wlp_iff wp_iff)

lemma wlp_conj: "wlp r (\<lambda>a. P a \<and> Q a) \<longleftrightarrow> wlp r P \<and> wlp r Q"
  by (auto simp: wlp_iff)

lemma wp_conjI: "wp r P \<Longrightarrow> wlp r Q \<Longrightarrow> wp r (\<lambda>a. P a \<and> Q a)"
  by (auto simp: wp_iff wlp_iff)

lemma wlp_True [simp]: "wlp r (\<lambda>_. True)"
  by (simp add: wlp_iff)

text \<open>The loop rules: an invariant indexed by the part of the list done so far.\<close>

lemma wlp_iter_res:
  assumes "\<And>x s. x \<in> set xs \<Longrightarrow> P s \<Longrightarrow> wlp (f x s) P" and "P s"
  shows "wlp (iter_res f xs s) P"
  using assms
proof (induction xs arbitrary: s)
  case (Cons x xs)
  have "wlp (f x s) P" using Cons.prems by simp
  then show ?case using Cons.IH Cons.prems(1) by (auto elim!: wlp_mono)
qed simp

lemma wlp_iter_res_split:
  assumes "\<And>ys x zs s. xs = ys @ x # zs \<Longrightarrow> P ys s \<Longrightarrow> wlp (f x s) (P (ys @ [x]))"
    and "P [] s"
  shows "wlp (iter_res f xs s) (P xs)"
proof -
  have "wlp (iter_res f zs s) (P xs)" if "xs = ys @ zs" "P ys s" for ys zs s
    using that
  proof (induction zs arbitrary: ys s)
    case (Cons z zs)
    have "wlp (f z s) (P (ys @ [z]))" using assms(1) Cons.prems by blast
    then show ?case using Cons.IH [of "ys @ [z]"] Cons.prems(1) by (auto elim!: wlp_mono)
  qed simp
  then show ?thesis using assms(2) by (metis append_Nil)
qed

lemma wp_iter_res_split:
  assumes "\<And>ys x zs s. xs = ys @ x # zs \<Longrightarrow> P ys s \<Longrightarrow> wp (f x s) (P (ys @ [x]))"
    and "P [] s"
  shows "wp (iter_res f xs s) (P xs)"
proof -
  have "wp (iter_res f zs s) (P xs)" if "xs = ys @ zs" "P ys s" for ys zs s
    using that
  proof (induction zs arbitrary: ys s)
    case (Cons z zs)
    have "wp (f z s) (P (ys @ [z]))" using assms(1) Cons.prems by blast
    then show ?case using Cons.IH [of "ys @ [z]"] Cons.prems(1) by (auto elim!: wp_mono)
  qed simp
  then show ?thesis using assms(2) by (metis append_Nil)
qed

section \<open>More defined than\<close>

text \<open>
  \<open>res_le r r'\<close>: \<open>r'\<close> is \<open>r\<close>, or \<open>r\<close> only ran out of fuel.  The order is used to show
  that a result never depends on how much fuel was given.
\<close>

definition res_le :: "err + 'a \<Rightarrow> err + 'a \<Rightarrow> bool" where
  "res_le r r' \<longleftrightarrow> r = Inl OutOfFuel \<or> r = r'"

lemma res_le_refl [simp, intro!]: "res_le r r"
  by (simp add: res_le_def)

lemma res_le_OutOfFuel [simp]: "res_le (Inl OutOfFuel) r"
  by (simp add: res_le_def)

lemma res_le_trans: "res_le r r' \<Longrightarrow> res_le r' r'' \<Longrightarrow> res_le r r''"
  by (auto simp: res_le_def)

lemma res_le_Inr: "res_le (Inr a) r \<longleftrightarrow> r = Inr a"
  by (auto simp: res_le_def)

lemma res_le_rbind:
  "res_le r r' \<Longrightarrow> (\<And>a. res_le (f a) (f' a)) \<Longrightarrow> res_le (rbind r f) (rbind r' f')"
  by (auto simp: res_le_def rbind_def split: sum.splits)

lemma res_le_iter_res:
  "(\<And>x s. res_le (f x s) (f' x s)) \<Longrightarrow> res_le (iter_res f xs s) (iter_res f' xs s)"
  by (induction xs arbitrary: s) (auto intro: res_le_rbind)

section \<open>Numbers and lists\<close>

lemma ge2E:
  assumes "(2::nat) \<le> n" obtains k where "n = Suc (Suc k)"
  using assms that [of "n - 2"] by simp

lemma take_while_append_last:
  "takeWhile P (xs @ [y]) = xs" if "\<forall>x\<in>set xs. P x" "\<not> P y"
  using that by (induction xs) auto

lemma takeWhile_True [simp]: "takeWhile (\<lambda>_. True) xs = xs"
  by (induction xs) auto

lemma count_list_tl:
  "xs \<noteq> [] \<Longrightarrow> count_list xs y = (if hd xs = y then 1 else 0) + count_list (tl xs) y"
  by (cases xs) auto

end
