(* ===== verification/Chsm_Types.thy ===== *)
theory Chsm_Types
  imports Chsm_Prelude
begin

text \<open>
  The data model of the run-time library (\<^verbatim>\<open>src/c++/libchsm/chsm.h\<close>): the tables a
  generated machine is built from (states, transitions, events) and the mutable members
  of its objects, gathered in one record.  A \<^verbatim>\<open>state*\<close> is a value of \<open>sptr\<close>: the
  root cluster is an object of its own, every other state is an element of the machine's
  \<^verbatim>\<open>state_\<close> array.  A null pointer is \<open>None\<close>.  Arrays that the code ends with the
  sentinel \<^verbatim>\<open>-1\<close> are lists holding the elements before the sentinel.
\<close>

unbundle bit_operations_syntax

section \<open>Pointers\<close>

type_synonym state_id = nat
type_synonym transition_id = nat
type_synonym event_id = nat

datatype sptr = Root | St state_id

text \<open>The \<^verbatim>\<open>trigger\<close> argument: the static prime event or an event of the machine.\<close>

datatype eptr = Prime | Ev event_id

section \<open>User code\<close>

text \<open>
  Conditions, targets, preconditions and actions are supplied by the user of the
  library; they are parameters of the model.  An evaluation may throw.  An action is a
  tree of interactions with the library: it leaves the user's data changed and returns,
  throws, or calls the library and continues with the machine it then sees.
\<close>

datatype 'a outcome = Threw | Returned 'a

datatype 'p ucall =
    Call_broadcast event_id "'p option"  \<comment> \<open>\<^verbatim>\<open>e()\<close> or \<^verbatim>\<open>e( args )\<close>\<close>
  | Call_enter                           \<comment> \<open>\<^verbatim>\<open>machine.enter()\<close>\<close>
  | Call_exit                            \<comment> \<open>\<^verbatim>\<open>machine.exit()\<close>\<close>
  | Call_clear sptr                      \<comment> \<open>\<^verbatim>\<open>cluster.clear()\<close>\<close>
  | Call_deep_clear sptr                 \<comment> \<open>\<^verbatim>\<open>state.deep_clear()\<close>\<close>

datatype (dead 's, dead 'u, dead 'p) ucode =
    UReturn 'u
  | URaise 'u
  | UCall 'u "'p ucall" "'s \<Rightarrow> ('s, 'u, 'p) ucode"

section \<open>The mutable state of a machine\<close>

text \<open>
  \<open>st_state\<close>, \<open>active_child\<close> and \<open>last_child\<close> are the members of the state and
  cluster objects, \<open>ev_in_progress\<close> and \<open>ev_param\<close> those of the event objects (the
  counter is an \<^verbatim>\<open>unsigned\<close> that never exceeds the number of queued events), the rest
  are members of the machine.  \<open>udata\<close> is whatever the user's derived classes add.
\<close>

record ('u, 'p) mstate =
  st_state :: "sptr \<Rightarrow> 32 word"
  active_child :: "sptr \<Rightarrow> sptr option"
  last_child :: "sptr \<Rightarrow> sptr option"
  ev_in_progress :: "event_id \<Rightarrow> nat"
  ev_param :: "event_id \<Rightarrow> 'p option"
  taken :: "transition_id \<Rightarrow> event_id option"
  target :: "transition_id \<Rightarrow> sptr option"
  in_progress :: bool
  event_queue :: "event_id list"
  udata :: 'u

type_synonym ('u, 'p) code = "(('u, 'p) mstate, 'u, 'p) ucode"

section \<open>The tables of a machine\<close>

datatype kind = Plain | Cluster bool "state_id list" | Set "state_id list"

record ('u, 'p) state_desc =
  sd_name :: string
  sd_parent :: "sptr option"
  sd_kind :: kind
  sd_enter_action :: "(sptr \<Rightarrow> eptr \<Rightarrow> ('u, 'p) mstate \<Rightarrow> ('u, 'p) code) option"
  sd_exit_action :: "(sptr \<Rightarrow> eptr \<Rightarrow> ('u, 'p) mstate \<Rightarrow> ('u, 'p) code) option"
  sd_enter_event :: "event_id option"
  sd_exit_event :: "event_id option"

text \<open>
  Conditions, target functions and preconditions are functions of the state: they see the
  machine and return a value or throw.  The code's are member functions of the user's, which
  could also change data or call back into the library while \<^verbatim>\<open>find_transition\<close> runs; that is
  not modelled.
\<close>

record ('u, 'p) transition =
  tr_condition :: "(event_id \<Rightarrow> ('u, 'p) mstate \<Rightarrow> bool outcome) option"
  tr_from :: state_id
  tr_to :: "state_id option"
  tr_target :: "(event_id \<Rightarrow> ('u, 'p) mstate \<Rightarrow> (sptr option) outcome) option"
  tr_action :: "(event_id \<Rightarrow> ('u, 'p) mstate \<Rightarrow> ('u, 'p) code) option"

record ('u, 'p) event_desc =
  ed_name :: string
  ed_base :: "event_id option"
  ed_transitions :: "transition_id list"
  ed_precondition :: "'p \<Rightarrow> ('u, 'p) mstate \<Rightarrow> bool outcome"

record ('u, 'p) program =
  p_root :: "('u, 'p) state_desc"
  p_states :: "('u, 'p) state_desc list"
  p_transitions :: "('u, 'p) transition list"
  p_events :: "('u, 'p) event_desc list"

definition state_of :: "('u, 'p) program \<Rightarrow> sptr \<Rightarrow> ('u, 'p) state_desc" where
  "state_of p s = (case s of Root \<Rightarrow> p_root p | St i \<Rightarrow> p_states p ! i)"

lemma state_of_simps [simp]:
  "state_of p Root = p_root p"
  "state_of p (St i) = p_states p ! i"
  by (simp_all add: state_of_def)

definition transition_of :: "('u, 'p) program \<Rightarrow> transition_id \<Rightarrow> ('u, 'p) transition" where
  "transition_of p t = p_transitions p ! t"

definition event_of :: "('u, 'p) program \<Rightarrow> event_id \<Rightarrow> ('u, 'p) event_desc" where
  "event_of p e = p_events p ! e"

abbreviation parent_of :: "('u, 'p) program \<Rightarrow> sptr \<Rightarrow> sptr option" where
  "parent_of p s \<equiv> sd_parent (state_of p s)"

abbreviation kind_of :: "('u, 'p) program \<Rightarrow> sptr \<Rightarrow> kind" where
  "kind_of p s \<equiv> sd_kind (state_of p s)"

fun is_cluster :: "kind \<Rightarrow> bool" where
  "is_cluster (Cluster _ _) = True"
| "is_cluster _ = False"

fun is_set :: "kind \<Rightarrow> bool" where
  "is_set (Set _) = True"
| "is_set _ = False"

fun history :: "kind \<Rightarrow> bool" where
  "history (Cluster h _) = h"
| "history _ = False"

fun child_list :: "kind \<Rightarrow> state_id list" where
  "child_list Plain = []"
| "child_list (Cluster _ cs) = cs"
| "child_list (Set cs) = cs"

abbreviation children :: "('u, 'p) program \<Rightarrow> sptr \<Rightarrow> sptr list" where
  "children p s \<equiv> map St (child_list (kind_of p s))"

section \<open>The activity flag of a state\<close>

definition STATE_INACTIVE :: "32 word" where "STATE_INACTIVE = 0"
definition STATE_ACTIVE :: "32 word" where "STATE_ACTIVE = 1"
definition STATE_ACTIVE_DISABLED :: "32 word" where
  "STATE_ACTIVE_DISABLED = 2 OR STATE_ACTIVE"

definition active :: "('u, 'p) mstate \<Rightarrow> sptr \<Rightarrow> bool" where
  "active m s \<longleftrightarrow> (st_state m s AND STATE_ACTIVE) \<noteq> 0"

definition active_flag :: "32 word \<Rightarrow> bool" where
  "active_flag w \<longleftrightarrow> (w AND STATE_ACTIVE) \<noteq> 0"

lemma active_flag_simps [simp]:
  "\<not> active_flag STATE_INACTIVE"
  "active_flag STATE_ACTIVE"
  "active_flag STATE_ACTIVE_DISABLED"
  by (simp_all add: active_flag_def STATE_INACTIVE_def STATE_ACTIVE_def STATE_ACTIVE_DISABLED_def)

lemma active_flag: "active m s = active_flag (st_state m s)"
  by (simp add: active_def active_flag_def)

lemma state_flags_distinct [simp]:
  "STATE_INACTIVE \<noteq> STATE_ACTIVE" "STATE_ACTIVE \<noteq> STATE_INACTIVE"
  "STATE_ACTIVE_DISABLED \<noteq> STATE_ACTIVE" "STATE_ACTIVE \<noteq> STATE_ACTIVE_DISABLED"
  "STATE_ACTIVE_DISABLED \<noteq> STATE_INACTIVE" "STATE_INACTIVE \<noteq> STATE_ACTIVE_DISABLED"
  by (simp_all add: STATE_INACTIVE_def STATE_ACTIVE_def STATE_ACTIVE_DISABLED_def)

definition set_state :: "sptr \<Rightarrow> 32 word \<Rightarrow> ('u, 'p) mstate \<Rightarrow> ('u, 'p) mstate" where
  "set_state s w m = m\<lparr>st_state := (st_state m)(s := w)\<rparr>"

lemma active_set_state [simp]:
  "active (set_state s w m) s' = (if s' = s then active_flag w else active m s')"
  by (simp add: set_state_def active_flag)

section \<open>Construction\<close>

text \<open>
  The members as the constructors of the objects leave them: a state is inactive, a cluster
  has neither an active nor a last child, an event is not in progress and has no parameter
  block, and the machine's constructor clears its two arrays in a loop.
\<close>

definition state_ctor :: "32 word" where
  "state_ctor = STATE_INACTIVE"

definition cluster_ctor :: "sptr option \<times> sptr option" where
  "cluster_ctor = (let last_child = None; active_child = last_child in (active_child, last_child))"

definition event_ctor :: "nat \<times> 'p option" where
  "event_ctor = (0, None)"

primrec clear_array :: "nat \<Rightarrow> (nat \<Rightarrow> 'a option) \<Rightarrow> nat \<Rightarrow> 'a option" where
  "clear_array 0 a = a"
| "clear_array (Suc i) a = (clear_array i a)(i := None)"

definition machine_ctor ::
  "nat \<Rightarrow> (transition_id \<Rightarrow> event_id option) \<Rightarrow> (transition_id \<Rightarrow> sptr option) \<Rightarrow> ('u, 'p) mstate \<Rightarrow>
     ('u, 'p) mstate" where
  "machine_ctor transitions_in_machine chsm_taken chsm_target m = m\<lparr>
     taken := clear_array transitions_in_machine chsm_taken,
     target := clear_array transitions_in_machine chsm_target,
     in_progress := False, event_queue := []\<rparr>"

definition init_mstate :: "'u \<Rightarrow> ('u, 'p) mstate" where
  "init_mstate u = \<lparr>
     st_state = (\<lambda>_. STATE_INACTIVE),
     active_child = (\<lambda>_. None),
     last_child = (\<lambda>_. None),
     ev_in_progress = (\<lambda>_. 0),
     ev_param = (\<lambda>_. None),
     taken = (\<lambda>_. None),
     target = (\<lambda>_. None),
     in_progress = False,
     event_queue = [],
     udata = u\<rparr>"

text \<open>
  A freshly constructed machine, whatever the arrays held before: the code declares them
  with one element per transition, so no other index is ever read.
\<close>

lemma clear_array_eq: "clear_array n a i = (if i < n then None else a i)"
  by (induction n) auto

lemma constructors_init:
  assumes "\<And>t. n \<le> t \<Longrightarrow> taken0 t = None" "\<And>t. n \<le> t \<Longrightarrow> target0 t = None"
  shows "machine_ctor n taken0 target0 \<lparr>st_state = (\<lambda>_. state_ctor),
      active_child = (\<lambda>_. fst cluster_ctor), last_child = (\<lambda>_. snd cluster_ctor),
      ev_in_progress = (\<lambda>_. fst (event_ctor :: nat \<times> 'p option)), ev_param = (\<lambda>_. snd event_ctor),
      taken = t0, target = g0, in_progress = b0, event_queue = q0, udata = u\<rparr> = init_mstate u"
proof -
  have "clear_array n taken0 = (\<lambda>_. None)" "clear_array n target0 = (\<lambda>_. None)"
    using assms by (auto simp: clear_array_eq fun_eq_iff not_less)
  then show ?thesis
    by (simp add: machine_ctor_def init_mstate_def state_ctor_def cluster_ctor_def event_ctor_def)
qed

lemma active_init [simp]: "\<not> active (init_mstate u) s"
  by (simp add: active_flag init_mstate_def)

end
