(* ===== verification/Chsm_Hierarchy.thy ===== *)
theory Chsm_Hierarchy
  imports Chsm_Types "HOL-Library.Sublist"
begin

text \<open>
  The static side of a machine: well-formedness of the generated tables, the chain of
  ancestors of a state, the parent's accessors, \<^verbatim>\<open>transition::is_internal\<close> and
  \<^verbatim>\<open>transition::is_legal\<close> (\<^verbatim>\<open>src/c++/libchsm/transition.cpp\<close>), and the loop of
  \<^verbatim>\<open>state::exit\<close> that looks for an ancestor of the target state.
\<close>

section \<open>Well-formed tables\<close>

text \<open>
  The compiler declares a parent before its children, so the serial number of a parent is
  smaller; the root has no number.  \<open>rank\<close> is that order.
\<close>

fun rank :: "sptr \<Rightarrow> nat" where
  "rank Root = 0"
| "rank (St i) = Suc i"

fun valid_sptr :: "('u, 'p) program \<Rightarrow> sptr \<Rightarrow> bool" where
  "valid_sptr p Root = True"
| "valid_sptr p (St i) = (i < length (p_states p))"

lemma rank_less_iff: "valid_sptr p s \<longleftrightarrow> rank s \<le> length (p_states p)"
  by (cases s) auto

lemma rank_0_iff [simp]: "rank s = 0 \<longleftrightarrow> s = Root"
  by (cases s) auto

abbreviation all_states :: "('u, 'p) program \<Rightarrow> sptr list" where
  "all_states p \<equiv> Root # map St [0..<length (p_states p)]"

lemma set_all_states [simp]: "set (all_states p) = {s. valid_sptr p s}"
proof -
  have "s \<in> set (all_states p) \<longleftrightarrow> valid_sptr p s" for s by (cases s) auto
  then show ?thesis by blast
qed

text \<open>The child lists and the parent pointers describe the same tree.\<close>

definition wf_children :: "('u, 'p) program \<Rightarrow> sptr \<Rightarrow> bool" where
  "wf_children p q \<longleftrightarrow>
     distinct (child_list (kind_of p q)) \<and>
     (\<forall>c \<in> set (children p q). valid_sptr p c \<and> rank q < rank c \<and> parent_of p c = Some q)"

definition wf_parent :: "('u, 'p) program \<Rightarrow> sptr \<Rightarrow> bool" where
  "wf_parent p s \<longleftrightarrow>
     (case parent_of p s of
        None \<Rightarrow> s = Root
      | Some q \<Rightarrow> valid_sptr p q \<and> s \<in> set (children p q))"

definition wf_states :: "('u, 'p) program \<Rightarrow> bool" where
  "wf_states p \<longleftrightarrow>
     is_cluster (kind_of p Root) \<and>
     (\<forall>s \<in> set (all_states p). wf_children p s \<and> wf_parent p s)"

text \<open>No cluster or set without children (a source of null dereferences, see below).\<close>

definition no_empty_parents :: "('u, 'p) program \<Rightarrow> bool" where
  "no_empty_parents p \<longleftrightarrow>
     (\<forall>s \<in> set (all_states p). kind_of p s \<noteq> Plain \<longrightarrow> child_list (kind_of p s) \<noteq> [])"

lemma wf_children:
  assumes "wf_states p" "valid_sptr p q" "c \<in> set (child_list (kind_of p q))"
  shows "valid_sptr p (St c)" "rank q < rank (St c)" "parent_of p (St c) = Some q"
  using assms set_all_states [of p] unfolding wf_states_def wf_children_def by force+

lemma wf_distinct_children:
  "wf_states p \<Longrightarrow> valid_sptr p q \<Longrightarrow> distinct (child_list (kind_of p q))"
  using set_all_states [of p] unfolding wf_states_def wf_children_def by blast

lemma wf_parent:
  assumes "wf_states p" "valid_sptr p s" "parent_of p s = Some q"
  shows "valid_sptr p q" "rank q < rank s" "s \<in> set (children p q)"
proof -
  have "wf_parent p s" using assms set_all_states [of p] unfolding wf_states_def by blast
  then show q: "valid_sptr p q" and s: "s \<in> set (children p q)"
    using assms by (auto simp: wf_parent_def)
  then show "rank q < rank s" using wf_children [OF assms(1) q] by auto
qed

lemma wf_parent_None:
  assumes "wf_states p" "valid_sptr p s"
  shows "parent_of p s = None \<longleftrightarrow> s = Root"
proof
  assume "parent_of p s = None"
  moreover have "wf_parent p s" using assms set_all_states [of p] unfolding wf_states_def by blast
  ultimately show "s = Root" by (simp add: wf_parent_def)
next
  assume "s = Root"
  then show "parent_of p s = None"
    using wf_parent(2) [OF assms] by (cases "parent_of p s") auto
qed

lemma wf_parent_Root [simp]: "wf_states p \<Longrightarrow> sd_parent (p_root p) = None"
  using wf_parent_None [of p Root] by simp

lemma wf_child_iff:
  assumes "wf_states p" "valid_sptr p q" "valid_sptr p s"
  shows "s \<in> set (children p q) \<longleftrightarrow> parent_of p s = Some q"
  using wf_parent(3) [OF assms(1,3)] wf_children [OF assms(1,2)] by auto

lemma wf_parent_not_Plain:
  assumes "wf_states p" "valid_sptr p s" "parent_of p s = Some q"
  shows "is_cluster (kind_of p q) \<or> is_set (kind_of p q)"
  using wf_parent(3) [OF assms] by (cases "kind_of p q") auto

section \<open>Ancestors\<close>

text \<open>
  The loop \<^verbatim>\<open>for ( s = si; s != nullptr; s = s->parent_of() )\<close>, bounded by the number
  of states; \<open>ancestors_unfold\<close> shows that the bound is enough for well-formed tables.
\<close>

primrec parent_chain :: "nat \<Rightarrow> ('u, 'p) program \<Rightarrow> sptr option \<Rightarrow> sptr list" where
  "parent_chain 0 p s = []"
| "parent_chain (Suc n) p s =
     (case s of None \<Rightarrow> [] | Some a \<Rightarrow> a # parent_chain n p (parent_of p a))"

definition ancestors :: "('u, 'p) program \<Rightarrow> sptr option \<Rightarrow> sptr list" where
  "ancestors p s = parent_chain (Suc (length (p_states p))) p s"

lemma ancestors_None [simp]: "ancestors p None = []"
  by (simp add: ancestors_def)

lemma parent_chain_enough:
  assumes "wf_states p" "valid_sptr p a" "rank a < n"
  shows "parent_chain n p (Some a) = parent_chain (Suc (rank a)) p (Some a)"
  using assms(2,3)
proof (induction "rank a" arbitrary: a n rule: less_induct)
  case less
  then obtain n' where n: "n = Suc n'" by (cases n) auto
  show ?case
  proof (cases "parent_of p a")
    case None
    then show ?thesis using n by (cases n'; cases "rank a") simp_all
  next
    case (Some q)
    note q = wf_parent [OF assms(1) less.prems(1) Some]
    obtain k where k: "rank a = Suc k" using q(2) by (cases "rank a") auto
    have "parent_chain n' p (Some q) = parent_chain (Suc (rank q)) p (Some q)"
      "parent_chain (Suc k) p (Some q) = parent_chain (Suc (rank q)) p (Some q)"
      using less.hyps [OF q(2,1), of n'] less.hyps [OF q(2,1), of "Suc k"] q(2) less.prems(2) n k
      by (simp_all del: parent_chain.simps)
    then show ?thesis using n k Some by simp
  qed
qed

lemma ancestors_unfold:
  assumes "wf_states p" "valid_sptr p a"
  shows "ancestors p (Some a) = a # ancestors p (parent_of p a)"
proof (cases "parent_of p a")
  case None
  then show ?thesis by (cases "length (p_states p)") (simp_all add: ancestors_def)
next
  case (Some q)
  note q = wf_parent [OF assms Some]
  have n: "rank q < length (p_states p)" "rank a \<le> length (p_states p)"
    using assms(2) q(2) by (simp_all add: rank_less_iff)
  then show ?thesis
    using parent_chain_enough [OF assms(1) q(1), of "length (p_states p)"]
      parent_chain_enough [OF assms(1) q(1), of "Suc (length (p_states p))"] Some
    by (simp add: ancestors_def)
qed

lemma ancestors_induct [consumes 2, case_names step]:
  assumes "wf_states p" "valid_sptr p a"
    and "\<And>a. valid_sptr p a \<Longrightarrow>
      (\<And>q. parent_of p a = Some q \<Longrightarrow> valid_sptr p q \<Longrightarrow> P q) \<Longrightarrow> P a"
  shows "P a"
  using assms(2)
proof (induction "rank a" arbitrary: a rule: less_induct)
  case less
  then show ?case using assms(3) wf_parent [OF assms(1)] by metis
qed

lemma ancestors_Root [simp]: "wf_states p \<Longrightarrow> ancestors p (Some Root) = [Root]"
  using ancestors_unfold [of p Root] by simp

lemma ancestors_valid:
  assumes "wf_states p" "valid_sptr p a"
  shows "b \<in> set (ancestors p (Some a)) \<Longrightarrow> valid_sptr p b \<and> rank b \<le> rank a"
  using assms
proof (induction rule: ancestors_induct)
  case (step a)
  then show ?case
    using wf_parent [OF assms(1) step.hyps]
    by (cases "parent_of p a") (fastforce simp: ancestors_unfold [OF assms(1)])+
qed

lemma ancestors_trans:
  assumes "wf_states p" "valid_sptr p a"
  shows "b \<in> set (ancestors p (Some a)) \<Longrightarrow> c \<in> set (ancestors p (Some b)) \<Longrightarrow>
    c \<in> set (ancestors p (Some a))"
  using assms
proof (induction rule: ancestors_induct)
  case (step a)
  then show ?case
    by (cases "parent_of p a") (auto simp: ancestors_unfold [OF assms(1)] wf_parent [OF assms(1)])
qed

lemma ancestors_self [simp]:
  "wf_states p \<Longrightarrow> valid_sptr p a \<Longrightarrow> a \<in> set (ancestors p (Some a))"
  by (simp add: ancestors_unfold)

lemma ancestors_parent:
  "wf_states p \<Longrightarrow> valid_sptr p a \<Longrightarrow> parent_of p a = Some q \<Longrightarrow>
    q \<in> set (ancestors p (Some a))"
  by (simp add: ancestors_unfold wf_parent)

lemma ancestors_last:
  assumes "wf_states p" "valid_sptr p a"
  shows "last (ancestors p (Some a)) = Root \<and> ancestors p (Some a) \<noteq> []"
  using assms
proof (induction rule: ancestors_induct)
  case (step a)
  then show ?case
    by (cases "parent_of p a")
      (auto simp: ancestors_unfold [OF assms(1)] wf_parent [OF assms(1)] wf_parent_None [OF assms(1)]
        wf_parent_Root [OF assms(1)])
qed

lemma ancestors_distinct:
  assumes "wf_states p" "valid_sptr p a"
  shows "distinct (ancestors p (Some a))"
  using assms
proof (induction rule: ancestors_induct)
  case (step a)
  show ?case
  proof (cases "parent_of p a")
    case (Some q)
    note q = wf_parent [OF assms(1) step.hyps Some]
    then have "a \<notin> set (ancestors p (Some q))"
      using ancestors_valid [OF assms(1) q(1), of a] by auto
    then show ?thesis using step q Some by (simp add: ancestors_unfold [OF assms(1)])
  qed (simp add: ancestors_unfold [OF assms(1) step.hyps])
qed

text \<open>Two ancestors of one state are related.\<close>

lemma ancestors_linear:
  assumes "wf_states p" "valid_sptr p a"
  shows "b \<in> set (ancestors p (Some a)) \<Longrightarrow> c \<in> set (ancestors p (Some a)) \<Longrightarrow>
    b \<in> set (ancestors p (Some c)) \<or> c \<in> set (ancestors p (Some b))"
  using assms
proof (induction rule: ancestors_induct)
  case (step a)
  show ?case
  proof (cases "b = a \<or> c = a")
    case True
    then show ?thesis using step.prems by blast
  next
    case False
    then show ?thesis
      using step by (cases "parent_of p a") (auto simp: ancestors_unfold [OF assms(1)] wf_parent [OF assms(1)])
  qed
qed

lemma ancestors_antisym:
  assumes "wf_states p" "valid_sptr p a" "b \<in> set (ancestors p (Some a))"
    "a \<in> set (ancestors p (Some b))"
  shows "a = b"
proof (rule ccontr)
  assume "a \<noteq> b"
  moreover have b: "valid_sptr p b" using ancestors_valid [OF assms(1-3)] by blast
  ultimately obtain q where q: "parent_of p b = Some q" "a \<in> set (ancestors p (Some q))"
    using assms(4) by (cases "parent_of p b") (auto simp: ancestors_unfold [OF assms(1) b])
  have "rank q < rank b" "valid_sptr p q" using wf_parent [OF assms(1) b q(1)] by auto
  then show False
    using ancestors_valid [OF assms(1) _ q(2)] ancestors_valid [OF assms(1-3)] by auto
qed

lemma ancestors_split:
  assumes "wf_states p" "valid_sptr p a"
  shows "c \<in> set (ancestors p (Some a)) \<Longrightarrow> suffix (ancestors p (Some c)) (ancestors p (Some a))"
  using assms
proof (induction rule: ancestors_induct)
  case (step a)
  show ?case
  proof (cases "c = a")
    case False
    then obtain q where q: "parent_of p a = Some q" "c \<in> set (ancestors p (Some q))"
      using step by (cases "parent_of p a") (auto simp: ancestors_unfold [OF assms(1)])
    then show ?thesis
      using step wf_parent [OF assms(1) step.hyps q(1)] ancestors_unfold [OF assms(1) step.hyps]
      by (metis suffix_ConsI)
  qed simp
qed

section \<open>Parent accessors\<close>

text \<open>
  \<^verbatim>\<open>parent::empty()\<close> compares the first element of the child array with the sentinel;
  \<^verbatim>\<open>parent::front()\<close> indexes the machine's state array with it.  With no children the
  index is \<^verbatim>\<open>-1\<close>, an out-of-range access.
\<close>

definition parent_empty :: "('u, 'p) program \<Rightarrow> sptr \<Rightarrow> bool" where
  "parent_empty p s \<longleftrightarrow> child_list (kind_of p s) = []"

definition parent_front :: "('u, 'p) program \<Rightarrow> sptr \<Rightarrow> err + sptr" where
  "parent_front p s =
     (case child_list (kind_of p s) of [] \<Rightarrow> Inl BadAccess | c # _ \<Rightarrow> Inr (St c))"

lemma parent_front_eq:
  "\<not> parent_empty p s \<Longrightarrow> parent_front p s = Inr (hd (children p s))"
  by (cases "child_list (kind_of p s)") (auto simp: parent_empty_def parent_front_def)

section \<open>Transitions\<close>

definition is_internal :: "('u, 'p) transition \<Rightarrow> bool" where
  "is_internal t \<longleftrightarrow> tr_to t = None \<and> tr_target t = None"

text \<open>
  \<^verbatim>\<open>transition::is_legal\<close>: two deques of ancestors, outermost first, walked in step.
\<close>

fun nca_loop :: "sptr option \<Rightarrow> sptr list \<Rightarrow> sptr list \<Rightarrow> sptr option" where
  "nca_loop nearest (i # is) (j # js) = (if i = j then nca_loop (Some i) is js else nearest)"
| "nca_loop nearest _ _ = nearest"

definition is_legal :: "('u, 'p) program \<Rightarrow> sptr option \<Rightarrow> sptr option \<Rightarrow> bool" where
  "is_legal p si sj =
     (let si_list = rev (ancestors p si); sj_list = rev (ancestors p sj)
      in case nca_loop None si_list sj_list of
           None \<Rightarrow> True
         | Some nearest_common_ancestor \<Rightarrow> \<not> is_set (kind_of p nearest_common_ancestor))"

text \<open>The specification: the common ancestor below all other common ancestors.\<close>

definition nearest_common :: "('u, 'p) program \<Rightarrow> sptr \<Rightarrow> sptr \<Rightarrow> sptr \<Rightarrow> bool" where
  "nearest_common p a b c \<longleftrightarrow>
     c \<in> set (ancestors p (Some a)) \<inter> set (ancestors p (Some b)) \<and>
     (\<forall>d \<in> set (ancestors p (Some a)) \<inter> set (ancestors p (Some b)). d \<in> set (ancestors p (Some c)))"

lemma nca_loop_eq:
  "nca_loop acc xs ys =
     (if longest_common_prefix xs ys = [] then acc else Some (last (longest_common_prefix xs ys)))"
  by (induction acc xs ys rule: nca_loop.induct) auto

lemma nearest_common_unique:
  assumes "wf_states p" "valid_sptr p a" "nearest_common p a b c" "nearest_common p a b d"
  shows "c = d"
proof -
  have "valid_sptr p c" "d \<in> set (ancestors p (Some c))" "c \<in> set (ancestors p (Some d))"
    using assms(3,4) ancestors_valid [OF assms(1,2), of c] unfolding nearest_common_def by blast+
  then show ?thesis using ancestors_antisym [OF assms(1), of c d] by blast
qed

lemma nca_loop_nearest:
  assumes p: "wf_states p" and a: "valid_sptr p a" and b: "valid_sptr p b"
  shows "\<exists>c. nca_loop None (rev (ancestors p (Some a))) (rev (ancestors p (Some b))) = Some c \<and>
    nearest_common p a b c"
proof -
  let ?xs = "rev (ancestors p (Some a))" and ?ys = "rev (ancestors p (Some b))"
  let ?l = "longest_common_prefix ?xs ?ys"
  have common: "prefix (rev (ancestors p (Some d))) ?l"
    if "d \<in> set (ancestors p (Some a))" "d \<in> set (ancestors p (Some b))" for d
    using ancestors_split [OF p a that(1)] ancestors_split [OF p b that(2)]
    by (simp add: longest_common_prefix_max_prefix suffix_to_prefix)
  have "Root \<in> set (ancestors p (Some a))"
    using ancestors_last [OF p a] last_in_set [of "ancestors p (Some a)"] by simp
  moreover have "Root \<in> set (ancestors p (Some b))"
    using ancestors_last [OF p b] last_in_set [of "ancestors p (Some b)"] by simp
  ultimately have "prefix [Root] ?l" using common [of Root] p by simp
  then have ne: "?l \<noteq> []" by auto
  define c where "c = last ?l"
  have sub: "prefix ?l ?xs" "prefix ?l ?ys"
    by (simp_all add: longest_common_prefix_prefix1 longest_common_prefix_prefix2)
  have c: "c \<in> set (ancestors p (Some a))" "c \<in> set (ancestors p (Some b))"
    using sub ne set_mono_prefix by (metis c_def last_in_set set_rev subsetD)+
  have "d \<in> set (ancestors p (Some c))"
    if d: "d \<in> set (ancestors p (Some a))" "d \<in> set (ancestors p (Some b))" for d
  proof -
    have cv: "valid_sptr p c" using ancestors_valid [OF p a c(1)] by simp
    consider "d \<in> set (ancestors p (Some c))" | "c \<in> set (ancestors p (Some d))" "c \<noteq> d"
      using ancestors_linear [OF p a d(1) c(1)] by blast
    then show ?thesis
    proof cases
      case 2
      have dv: "valid_sptr p d" using ancestors_valid [OF p a d(1)] by simp
      obtain vs where l: "?l = rev (ancestors p (parent_of p d)) @ [d] @ vs"
        using common [OF d] by (auto simp: ancestors_unfold [OF p dv] prefix_def)
      have "distinct ?l"
        using sub(1) ancestors_distinct [OF p a] by (metis distinct_rev prefixE distinct_append)
      moreover have "c \<in> set (ancestors p (parent_of p d))"
        using 2 by (simp add: ancestors_unfold [OF p dv])
      moreover have "vs = [] \<Longrightarrow> c = d" "vs \<noteq> [] \<Longrightarrow> c \<in> set vs"
        using l by (simp_all add: c_def)
      ultimately have False using 2(2) l by (cases "vs = []") auto
      then show ?thesis ..
    qed
  qed
  then show ?thesis using c ne by (auto simp: nca_loop_eq c_def nearest_common_def)
qed

lemma is_legal_iff:
  assumes "wf_states p" "valid_sptr p a" "valid_sptr p b"
  shows "is_legal p (Some a) (Some b) \<longleftrightarrow>
    (\<forall>c. nearest_common p a b c \<longrightarrow> \<not> is_set (kind_of p c))"
proof -
  obtain c where c: "nca_loop None (rev (ancestors p (Some a))) (rev (ancestors p (Some b))) = Some c"
    "nearest_common p a b c"
    using nca_loop_nearest [OF assms] by blast
  have "is_legal p (Some a) (Some b) \<longleftrightarrow> \<not> is_set (kind_of p c)"
    by (simp add: is_legal_def c(1))
  moreover have "d = c" if "nearest_common p a b d" for d
    using nearest_common_unique [OF assms(1,2) that c(2)] .
  ultimately show ?thesis using c(2) by metis
qed

section \<open>The ancestor search of \<^verbatim>\<open>state::exit\<close>\<close>

text \<open>\<^verbatim>\<open>while ( ancestor != nullptr && ancestor != parent_of() ) ancestor = ancestor->parent_of();\<close>\<close>

fun ancestor_loop ::
  "nat \<Rightarrow> ('u, 'p) program \<Rightarrow> sptr option \<Rightarrow> sptr option \<Rightarrow> err + sptr option" where
  "ancestor_loop 0 p par ancestor = Inl OutOfFuel"
| "ancestor_loop (Suc n) p par ancestor =
     (case ancestor of
        None \<Rightarrow> Inr None
      | Some a \<Rightarrow> if ancestor \<noteq> par then ancestor_loop n p par (parent_of p a) else Inr ancestor)"

definition find_ancestor ::
  "('u, 'p) program \<Rightarrow> sptr option \<Rightarrow> sptr option \<Rightarrow> err + sptr option" where
  "find_ancestor p par ancestor = ancestor_loop (length (p_states p) + 2) p par ancestor"

lemma ancestor_loop_Suc:
  "ancestor_loop (Suc n) p (Some q) (Some a) =
     (if a = q then Inr (Some q) else ancestor_loop n p (Some q) (parent_of p a))"
  by simp

lemma ancestor_loop_None: "0 < n \<Longrightarrow> ancestor_loop n p par None = Inr None"
  by (cases n) simp_all

lemmas ancestor_loop_steps = ancestor_loop_Suc ancestor_loop_None

declare ancestor_loop.simps(2) [simp del]

lemma ancestor_loop_enough:
  assumes "wf_states p" "valid_sptr p a"
  shows "rank a + 2 \<le> n \<Longrightarrow> ancestor_loop n p (Some q) (Some a) =
    Inr (if q \<in> set (ancestors p (Some a)) then Some q else None)"
  using assms
proof (induction arbitrary: n rule: ancestors_induct)
  case (step a)
  obtain k where n: "n = Suc k" "rank a + 1 \<le> k" using step.prems by (cases n) auto
  have a: "ancestors p (Some a) = a # ancestors p (parent_of p a)"
    by (rule ancestors_unfold [OF assms(1) step.hyps])
  show ?case
  proof (cases "parent_of p a")
    case None
    then show ?thesis using n a by (auto simp: ancestor_loop_steps)
  next
    case (Some r)
    note r = wf_parent [OF assms(1) step.hyps Some]
    have "rank r + 2 \<le> k" using r(2) n by simp
    from step.IH [OF Some r(1) this] show ?thesis
      using Some n a by (simp add: ancestor_loop_steps)
  qed
qed

lemma find_ancestor_eq:
  assumes "wf_states p" "\<And>a. start = Some a \<Longrightarrow> valid_sptr p a"
  shows "find_ancestor p (Some q) start =
    Inr (if q \<in> set (ancestors p start) then Some q else None)"
proof (cases start)
  case None
  then show ?thesis by (simp add: find_ancestor_def ancestor_loop_None)
next
  case (Some a)
  then have "valid_sptr p a" "rank a + 2 \<le> length (p_states p) + 2"
    using assms(2) rank_less_iff [of p a] by auto
  from ancestor_loop_enough [OF assms(1) this] show ?thesis
    by (simp only: find_ancestor_def Some)
qed

end
