(* ===== verification/Chsm_Events.thy ===== *)
theory Chsm_Events
  imports Chsm_Hierarchy
begin

text \<open>
  Event objects (\<^verbatim>\<open>src/c++/libchsm/event.cpp\<close>): the chain of base events, the iterator
  over the transitions an event may trigger, the in-progress counters, and
  \<^verbatim>\<open>event::find_transition\<close>, which marks the transitions a broadcast takes.
\<close>

section \<open>Base events\<close>

text \<open>The loop \<^verbatim>\<open>for ( e = this; e != nullptr; e = e->base_event_ )\<close>.\<close>

primrec event_chain_from :: "nat \<Rightarrow> ('u, 'p) program \<Rightarrow> event_id option \<Rightarrow> event_id list" where
  "event_chain_from 0 p e = []"
| "event_chain_from (Suc n) p e =
     (case e of None \<Rightarrow> [] | Some x \<Rightarrow> x # event_chain_from n p (ed_base (event_of p x)))"

lemma event_chain_from_None [simp]: "event_chain_from n p None = []"
  by (cases n) simp_all

definition event_chain :: "('u, 'p) program \<Rightarrow> event_id option \<Rightarrow> event_id list" where
  "event_chain p e = event_chain_from (length (p_events p)) p e"

text \<open>A base event is declared before the events derived from it.\<close>

definition wf_bases :: "('u, 'p) program \<Rightarrow> bool" where
  "wf_bases p \<longleftrightarrow> (\<forall>e \<in> {0..<length (p_events p)}.
     case ed_base (event_of p e) of None \<Rightarrow> True | Some b \<Rightarrow> b < e)"

lemma wf_base_less:
  "wf_bases p \<Longrightarrow> e < length (p_events p) \<Longrightarrow> ed_base (event_of p e) = Some b \<Longrightarrow> b < e"
  unfolding wf_bases_def by (metis atLeastLessThan_iff le0 option.simps(5))

lemma event_chain_enough:
  assumes "wf_bases p" "e < length (p_events p)" "e < n"
  shows "event_chain_from n p (Some e) = event_chain_from (Suc e) p (Some e)"
  using assms(2,3)
proof (induction e arbitrary: n rule: less_induct)
  case (less e)
  then obtain n' where n: "n = Suc n'" by (cases n) auto
  show ?case
  proof (cases "ed_base (event_of p e)")
    case None
    then show ?thesis using n by (cases n'; cases e) simp_all
  next
    case (Some b)
    then have b: "b < e" using wf_base_less [OF assms(1) less.prems(1)] by simp
    obtain k where k: "e = Suc k" using b by (cases e) auto
    have "event_chain_from n' p (Some b) = event_chain_from (Suc b) p (Some b)"
      "event_chain_from (Suc k) p (Some b) = event_chain_from (Suc b) p (Some b)"
      using less.IH [OF b, of n'] less.IH [OF b, of "Suc k"] b less.prems n k
      by (simp_all del: event_chain_from.simps)
    then show ?thesis using n k Some by simp
  qed
qed

lemma event_chain_None [simp]: "event_chain p None = []"
  by (simp add: event_chain_def)

lemma event_chain_unfold:
  assumes "wf_bases p" "e < length (p_events p)"
  shows "event_chain p (Some e) = e # event_chain p (ed_base (event_of p e))"
proof (cases "ed_base (event_of p e)")
  case None
  then show ?thesis using assms(2) by (cases "length (p_events p)") (simp_all add: event_chain_def)
next
  case (Some b)
  then have "b < e" using wf_base_less [OF assms] by simp
  moreover obtain n where "length (p_events p) = Suc n" using assms(2) by (cases "length (p_events p)") auto
  ultimately show ?thesis
    using Some event_chain_enough [OF assms(1), of b n] event_chain_enough [OF assms(1), of b "Suc n"] assms(2)
    by (simp add: event_chain_def)
qed

lemma event_chain_induct [consumes 2, case_names step]:
  assumes "wf_bases p" "e < length (p_events p)"
    and "\<And>e. e < length (p_events p) \<Longrightarrow>
      (\<And>b. ed_base (event_of p e) = Some b \<Longrightarrow> b < length (p_events p) \<Longrightarrow> b < e \<Longrightarrow> P b) \<Longrightarrow> P e"
  shows "P e"
  using assms(2)
proof (induction e rule: less_induct)
  case (less e)
  then show ?case using assms(3) wf_base_less [OF assms(1)] by (meson less_trans)
qed

lemma event_chain_bound:
  assumes "wf_bases p" "e < length (p_events p)"
  shows "x \<in> set (event_chain p (Some e)) \<Longrightarrow> x \<le> e"
  using assms
proof (induction rule: event_chain_induct)
  case (step e)
  show ?case
  proof (cases "ed_base (event_of p e)")
    case None
    then show ?thesis using step by (simp add: event_chain_unfold [OF assms(1)])
  next
    case (Some b)
    then have "b < e" using wf_base_less [OF assms(1) step.hyps] by simp
    then show ?thesis using step Some by (force simp: event_chain_unfold [OF assms(1) step.hyps])
  qed
qed

lemma event_chain_distinct:
  assumes "wf_bases p" "e < length (p_events p)"
  shows "distinct (event_chain p (Some e))"
  using assms
proof (induction rule: event_chain_induct)
  case (step e)
  show ?case
  proof (cases "ed_base (event_of p e)")
    case (Some b)
    then have b: "b < e" using wf_base_less [OF assms(1) step.hyps] by simp
    then have "e \<notin> set (event_chain p (Some b))"
      using event_chain_bound [OF assms(1), of b e] step.hyps by auto
    then show ?thesis using step.IH [OF Some] b Some step.hyps
      by (simp add: event_chain_unfold [OF assms(1)])
  qed (simp add: event_chain_unfold [OF assms(1) step.hyps])
qed

lemma event_chain_self:
  "wf_bases p \<Longrightarrow> e < length (p_events p) \<Longrightarrow> e \<in> set (event_chain p (Some e))"
  by (simp add: event_chain_unfold)

section \<open>The transition iterator\<close>

text \<open>
  \<^verbatim>\<open>event::const_iterator\<close>: the rest of the current event's transition array (empty when
  the iterator points at the sentinel) and the next base event.  Two iterators are equal
  when they point at the same transition id, so an iterator is at the end when it points
  at a sentinel.
\<close>

type_synonym transition_iter = "transition_id list \<times> event_id option"

fun iter_bump :: "nat \<Rightarrow> ('u, 'p) program \<Rightarrow> transition_iter \<Rightarrow> transition_iter" where
  "iter_bump 0 p it = it"
| "iter_bump (Suc n) p (t_id, base_event) =
     (case (t_id, base_event) of
        ([], Some b) \<Rightarrow> iter_bump n p (ed_transitions (event_of p b), ed_base (event_of p b))
      | _ \<Rightarrow> (t_id, base_event))"

definition iter_make :: "('u, 'p) program \<Rightarrow> transition_iter \<Rightarrow> transition_iter" where
  "iter_make p it = iter_bump (length (p_events p)) p it"

definition iter_begin :: "('u, 'p) program \<Rightarrow> event_id \<Rightarrow> transition_iter" where
  "iter_begin p e = iter_make p (ed_transitions (event_of p e), ed_base (event_of p e))"

definition iter_end :: transition_iter where
  "iter_end = ([], None)"

definition iter_next :: "('u, 'p) program \<Rightarrow> transition_iter \<Rightarrow> transition_iter" where
  "iter_next p it = iter_make p (tl (fst it), snd it)"

definition iter_equal :: "transition_iter \<Rightarrow> transition_iter \<Rightarrow> bool" where
  "iter_equal i j \<longleftrightarrow>
     (case (fst i, fst j) of ([], []) \<Rightarrow> True | (x # _, y # _) \<Rightarrow> x = y | _ \<Rightarrow> False)"

text \<open>The ids seen by \<^verbatim>\<open>for ( t = begin(); t != end(); ++t )\<close>.\<close>

primrec iter_run :: "nat \<Rightarrow> ('u, 'p) program \<Rightarrow> transition_iter \<Rightarrow> transition_id list" where
  "iter_run 0 p it = []"
| "iter_run (Suc n) p it =
     (if iter_equal it iter_end then [] else hd (fst it) # iter_run n p (iter_next p it))"

text \<open>
  What that loop is meant to see, and what the machine below iterates over: the event's
  own transitions, then those of its base events, nearest first.
\<close>

definition transition_ids :: "('u, 'p) program \<Rightarrow> event_id \<Rightarrow> transition_id list" where
  "transition_ids p e =
     concat (map (\<lambda>x. ed_transitions (event_of p x)) (event_chain p (Some e)))"

definition iter_rest :: "('u, 'p) program \<Rightarrow> transition_iter \<Rightarrow> transition_id list" where
  "iter_rest p it =
     fst it @ concat (map (\<lambda>x. ed_transitions (event_of p x)) (event_chain p (snd it)))"

definition iter_valid :: "('u, 'p) program \<Rightarrow> transition_iter \<Rightarrow> bool" where
  "iter_valid p it \<longleftrightarrow> (case snd it of None \<Rightarrow> True | Some b \<Rightarrow> b < length (p_events p))"

lemma iter_bump_props:
  "wf_bases p \<Longrightarrow> iter_valid p it \<Longrightarrow> (\<And>b. snd it = Some b \<Longrightarrow> b < n) \<Longrightarrow>
    iter_rest p (iter_bump n p it) = iter_rest p it \<and>
    iter_valid p (iter_bump n p it) \<and>
    (fst (iter_bump n p it) = [] \<longrightarrow> snd (iter_bump n p it) = None)"
proof (induction n p it rule: iter_bump.induct)
  case (1 p it)
  then show ?case by (cases "snd it") auto
next
  case (2 n p ts base)
  note p = \<open>wf_bases p\<close>
  show ?case
  proof (cases "ts = [] \<and> base \<noteq> None")
    case True
    then obtain b where b: "base = Some b" "b < length (p_events p)" "b < Suc n"
      using 2(3,4) by (auto simp: iter_valid_def)
    have less: "c < b" if "ed_base (event_of p b) = Some c" for c
      using wf_base_less [OF p b(2) that] .
    have v: "iter_valid p (ed_transitions (event_of p b), ed_base (event_of p b))"
      using less b(2) by (auto simp: iter_valid_def split: option.split)
    from 2(1) [OF refl _ _ p v] True b less show ?thesis
      by (force simp: iter_rest_def event_chain_unfold [OF p b(2)])
  next
    case False
    then show ?thesis using 2(3) by (auto split: list.split option.split)
  qed
qed

lemma iter_make_props:
  assumes "wf_bases p" "iter_valid p it"
  shows "iter_rest p (iter_make p it) = iter_rest p it"
    "iter_valid p (iter_make p it)"
    "fst (iter_make p it) = [] \<Longrightarrow> snd (iter_make p it) = None"
proof -
  have "b < length (p_events p)" if "snd it = Some b" for b
    using assms(2) that by (simp add: iter_valid_def)
  note bump = iter_bump_props [OF assms this]
  show "iter_rest p (iter_make p it) = iter_rest p it" "iter_valid p (iter_make p it)"
    "fst (iter_make p it) = [] \<Longrightarrow> snd (iter_make p it) = None"
    using bump by (simp_all add: iter_make_def)
qed

lemma iter_run_rest:
  assumes p: "wf_bases p"
  shows "iter_valid p it \<Longrightarrow> (fst it = [] \<longrightarrow> snd it = None) \<Longrightarrow>
    length (iter_rest p it) \<le> n \<Longrightarrow> iter_run n p it = iter_rest p it"
proof (induction n arbitrary: it)
  case 0
  then show ?case by simp
next
  case (Suc n)
  show ?case
  proof (cases "fst it")
    case Nil
    then show ?thesis using Suc.prems by (simp add: iter_equal_def iter_end_def iter_rest_def)
  next
    case (Cons t ts)
    have v: "iter_valid p (ts, snd it)" using Suc.prems(1) by (simp add: iter_valid_def)
    note nxt = iter_make_props [OF p v]
    have "length (iter_rest p (iter_make p (ts, snd it))) \<le> n"
      using nxt(1) Suc.prems(3) Cons by (simp add: iter_rest_def)
    then show ?thesis
      using Suc.IH [OF nxt(2)] nxt Cons by (simp add: iter_equal_def iter_end_def iter_next_def iter_rest_def)
  qed
qed

lemma iter_run_transition_ids:
  assumes p: "wf_bases p" and e: "e < length (p_events p)"
    and n: "length (transition_ids p e) \<le> n"
  shows "iter_run n p (iter_begin p e) = transition_ids p e"
proof -
  let ?it = "(ed_transitions (event_of p e), ed_base (event_of p e))"
  have v: "iter_valid p ?it"
    using wf_base_less [OF p e] e by (fastforce simp: iter_valid_def split: option.split)
  have rest: "iter_rest p ?it = transition_ids p e"
    by (simp add: iter_rest_def transition_ids_def event_chain_unfold [OF p e])
  then show ?thesis
    using iter_run_rest [OF p iter_make_props(2) [OF p v], of n] iter_make_props [OF p v] n
    by (simp add: iter_begin_def)
qed

lemma transition_ids_derived:
  assumes "wf_bases p" "e < length (p_events p)" "ed_base (event_of p e) = Some b"
  shows "transition_ids p e = ed_transitions (event_of p e) @ transition_ids p b"
  using assms by (simp add: transition_ids_def event_chain_unfold)

section \<open>Well-formed events and transitions\<close>

definition wf_events :: "('u, 'p) program \<Rightarrow> bool" where
  "wf_events p \<longleftrightarrow> wf_bases p \<and>
     (\<forall>e \<in> {0..<length (p_events p)}.
        distinct (transition_ids p e) \<and>
        (\<forall>t \<in> set (transition_ids p e). t < length (p_transitions p)))"

definition wf_transition :: "('u, 'p) program \<Rightarrow> ('u, 'p) transition \<Rightarrow> bool" where
  "wf_transition p td \<longleftrightarrow> valid_sptr p (St (tr_from td)) \<and>
     (case tr_to td of None \<Rightarrow> True | Some i \<Rightarrow> valid_sptr p (St i))"

text \<open>The enter and exit events of the states exist.\<close>

definition wf_state_events :: "('u, 'p) program \<Rightarrow> bool" where
  "wf_state_events p \<longleftrightarrow> (\<forall>s \<in> set (all_states p).
     (case sd_enter_event (state_of p s) of None \<Rightarrow> True | Some e \<Rightarrow> e < length (p_events p)) \<and>
     (case sd_exit_event (state_of p s) of None \<Rightarrow> True | Some e \<Rightarrow> e < length (p_events p)))"

definition wf_program :: "('u, 'p) program \<Rightarrow> bool" where
  "wf_program p \<longleftrightarrow> wf_states p \<and> wf_events p \<and> wf_state_events p \<and>
     (\<forall>td \<in> set (p_transitions p). wf_transition p td)"

lemma wf_programD:
  assumes "wf_program p"
  shows "wf_states p" "wf_events p" "wf_bases p"
    and "t < length (p_transitions p) \<Longrightarrow> wf_transition p (transition_of p t)"
    and "e < length (p_events p) \<Longrightarrow> distinct (transition_ids p e)"
    and "e < length (p_events p) \<Longrightarrow> t \<in> set (transition_ids p e) \<Longrightarrow> t < length (p_transitions p)"
  using assms by (auto simp: wf_program_def wf_events_def transition_of_def)

section \<open>In-progress counters\<close>

text \<open>The two loops over the base events in \<^verbatim>\<open>event::broadcast\<close> and \<^verbatim>\<open>event::broadcasted\<close>.\<close>

definition mark_in_progress ::
  "('u, 'p) program \<Rightarrow> event_id \<Rightarrow> ('u, 'p) mstate \<Rightarrow> ('u, 'p) mstate" where
  "mark_in_progress p e m =
     fold (\<lambda>x m. m\<lparr>ev_in_progress := (ev_in_progress m)(x := ev_in_progress m x + 1)\<rparr>)
       (event_chain p (Some e)) m"

definition broadcasted ::
  "('u, 'p) program \<Rightarrow> event_id \<Rightarrow> ('u, 'p) mstate \<Rightarrow> ('u, 'p) mstate" where
  "broadcasted p e m =
     (if ev_in_progress m e > 0 then
        fold (\<lambda>x m. if ev_in_progress m x > 0
                     then m\<lparr>ev_in_progress := (ev_in_progress m)(x := ev_in_progress m x - 1)\<rparr>
                     else m)
          (event_chain p (Some e)) m
      else m)"

lemma mark_in_progress_eq:
  assumes "distinct (event_chain p (Some e))"
  shows "mark_in_progress p e m = m\<lparr>ev_in_progress :=
    (\<lambda>x. ev_in_progress m x + (if x \<in> set (event_chain p (Some e)) then 1 else 0))\<rparr>"
proof -
  have "fold (\<lambda>x m. m\<lparr>ev_in_progress := (ev_in_progress m)(x := ev_in_progress m x + 1)\<rparr>) xs m =
      m\<lparr>ev_in_progress := (\<lambda>x. ev_in_progress m x + (if x \<in> set xs then 1 else 0))\<rparr>"
    if "distinct xs" for xs and m :: "('a, 'b) mstate"
    using that
  proof (induction xs arbitrary: m)
    case (Cons x xs)
    then show ?case by (auto simp: fun_eq_iff intro!: arg_cong2 [of _ _ _ _ ev_in_progress_update])
  qed simp
  then show ?thesis using assms by (simp add: mark_in_progress_def)
qed

lemma broadcasted_eq:
  assumes "distinct (event_chain p (Some e))" "ev_in_progress m e > 0"
  shows "broadcasted p e m = m\<lparr>ev_in_progress :=
    (\<lambda>x. ev_in_progress m x - (if x \<in> set (event_chain p (Some e)) then 1 else 0))\<rparr>"
proof -
  have "fold (\<lambda>x m. if ev_in_progress m x > 0
          then m\<lparr>ev_in_progress := (ev_in_progress m)(x := ev_in_progress m x - 1)\<rparr> else m) xs m =
      m\<lparr>ev_in_progress := (\<lambda>x. ev_in_progress m x - (if x \<in> set xs then 1 else 0))\<rparr>"
    if "distinct xs" for xs and m :: "('a, 'b) mstate"
    using that
  proof (induction xs arbitrary: m)
    case (Cons x xs)
    show ?case
    proof (cases "ev_in_progress m x > 0")
      case True
      then show ?thesis using Cons by (auto simp: fun_eq_iff)
    next
      case False
      then show ?thesis using Cons by (auto simp: fun_eq_iff)
    qed
  qed simp
  then show ?thesis using assms by (simp add: broadcasted_def)
qed

section \<open>Finding the transitions of an event\<close>

text \<open>
  One iteration of the loop of \<^verbatim>\<open>event::find_transition\<close>; the loop threads \<open>found\<close>
  and the machine.  The \<^verbatim>\<open>continue\<close>s and the \<^verbatim>\<open>catch\<close> clause are the branches that
  return \<open>found\<close> unchanged.  A target function that returns a pointer to anything but a
  state of the machine is a bad access.
\<close>

definition condition_holds ::
  "('u, 'p) transition \<Rightarrow> event_id \<Rightarrow> ('u, 'p) mstate \<Rightarrow> bool outcome" where
  "condition_holds td e m = (case tr_condition td of None \<Rightarrow> Returned True | Some c \<Rightarrow> c e m)"

definition mark_taken ::
  "event_id \<Rightarrow> transition_id \<Rightarrow> ('u, 'p) mstate \<Rightarrow> ('u, 'p) mstate" where
  "mark_taken e t m =
     (if taken m t = None then m\<lparr>taken := (taken m)(t := Some e)\<rparr> else m)"

definition choose_target ::
  "transition_id \<Rightarrow> sptr \<Rightarrow> sptr \<Rightarrow> ('u, 'p) mstate \<Rightarrow> ('u, 'p) mstate" where
  "choose_target t from to m =
     set_state from STATE_ACTIVE_DISABLED (m\<lparr>target := (target m)(t := Some to)\<rparr>)"

definition try_transition ::
  "('u, 'p) program \<Rightarrow> event_id \<Rightarrow> transition_id \<Rightarrow> bool \<times> ('u, 'p) mstate \<Rightarrow>
     err + bool \<times> ('u, 'p) mstate" where
  "try_transition p e t st =
     (let (found, m) = st; td = transition_of p t; from = St (tr_from td) in
      if st_state m from \<noteq> STATE_ACTIVE then Inr (found, m)
      else case condition_holds td e m of
        Threw \<Rightarrow> Inr (found, m)
      | Returned False \<Rightarrow> Inr (found, m)
      | Returned True \<Rightarrow>
          (let m = mark_taken e t m in
           if is_internal td then Inr (True, m)
           else case tr_target td of
             Some f \<Rightarrow>
               (case f e m of
                  Threw \<Rightarrow> Inr (found, m)
                | Returned None \<Rightarrow> Inr (found, m)
                | Returned (Some to) \<Rightarrow>
                    if \<not> valid_sptr p to then Inl BadAccess
                    else if is_legal p (Some from) (Some to)
                    then Inr (True, choose_target t from to m)
                    else Inl AssertFail)
           | None \<Rightarrow>
               (case tr_to td of
                  None \<Rightarrow> Inl BadAccess
                | Some i \<Rightarrow> Inr (True, choose_target t from (St i) m))))"

definition find_transition ::
  "('u, 'p) program \<Rightarrow> event_id \<Rightarrow> ('u, 'p) mstate \<Rightarrow> err + bool \<times> ('u, 'p) mstate" where
  "find_transition p e m = iter_res (try_transition p e) (transition_ids p e) (False, m)"

end
