(* ===== verification/Chsm_Run.thy ===== *)
theory Chsm_Run
  imports Chsm_Events
begin

text \<open>
  The dynamic side of the library: entering and exiting states, clusters and sets
  (\<^verbatim>\<open>state.cpp\<close>, \<^verbatim>\<open>cluster.cpp\<close>, \<^verbatim>\<open>set.cpp\<close>, \<^verbatim>\<open>parent.cpp\<close>), broadcasting
  (\<^verbatim>\<open>event.cpp\<close>) and the transition algorithm (\<^verbatim>\<open>machine.cpp\<close>).

  These functions call each other without a fixed order: entering a state may enter its
  parent and its children, broadcasts its enter event, and runs user code that may
  broadcast, enter or exit again; a broadcast runs the algorithm, which enters and exits
  states.  Each function below takes the calls that close this circle from a record
  \<open>ops\<close>, as the code takes them from a virtual function table; \<open>ops_at n\<close> ties the knot
  for runs whose calls nest at most \<open>n\<close> deep.  \<open>Chsm_Fuel\<close> shows that a result does not
  depend on \<open>n\<close>.
\<close>

record ('u, 'p) ops =
  op_enter :: "sptr \<Rightarrow> eptr \<Rightarrow> sptr option \<Rightarrow> ('u, 'p) mstate \<Rightarrow> err + bool \<times> ('u, 'p) mstate"
  op_exit :: "sptr \<Rightarrow> eptr \<Rightarrow> sptr option \<Rightarrow> ('u, 'p) mstate \<Rightarrow> err + bool \<times> ('u, 'p) mstate"
  op_broadcast :: "event_id \<Rightarrow> 'p option \<Rightarrow> ('u, 'p) mstate \<Rightarrow> err + ('u, 'p) mstate"
  op_loop :: "('u, 'p) mstate \<Rightarrow> err + ('u, 'p) mstate"

section \<open>Clearing a cluster's history\<close>

definition cluster_clear ::
  "('u, 'p) program \<Rightarrow> sptr \<Rightarrow> ('u, 'p) mstate \<Rightarrow> err + ('u, 'p) mstate" where
  "cluster_clear p s m =
     rbind (parent_front p s) (\<lambda>c. Inr (m\<lparr>last_child := (last_child m)(s := Some c)\<rparr>))"

primrec deep_clear ::
  "nat \<Rightarrow> ('u, 'p) program \<Rightarrow> sptr \<Rightarrow> ('u, 'p) mstate \<Rightarrow> err + ('u, 'p) mstate" where
  "deep_clear 0 p s m = Inl OutOfFuel"
| "deep_clear (Suc n) p s m =
     (case kind_of p s of
        Plain \<Rightarrow> Inr m
      | Set cs \<Rightarrow> iter_res (deep_clear n p) (map St cs) m
      | Cluster h cs \<Rightarrow>
          rbind (cluster_clear p s m) (\<lambda>m. iter_res (deep_clear n p) (map St cs) m))"

section \<open>User code\<close>

text \<open>
  What a library call of user code does.  A generated \<^verbatim>\<open>operator()\<close> with parameters tests
  \<^verbatim>\<open>in_progress_\<close> before it builds the parameter block, as \<^verbatim>\<open>event::broadcast\<close> does
  again.  A call on an object that is not part of the machine is a bad access.
\<close>

definition user_call ::
  "('u, 'p) program \<Rightarrow> ('u, 'p) ops \<Rightarrow> 'p ucall \<Rightarrow> ('u, 'p) mstate \<Rightarrow> err + ('u, 'p) mstate" where
  "user_call p ops c m =
     (case c of
        Call_broadcast e pb \<Rightarrow>
          if e < length (p_events p) then op_broadcast ops e pb m else Inl BadAccess
      | Call_enter \<Rightarrow> rbind (op_enter ops Root Prime None m) (\<lambda>(_, m). Inr m)
      | Call_exit \<Rightarrow> rbind (op_exit ops Root Prime None m) (\<lambda>(_, m). Inr m)
      | Call_clear s \<Rightarrow>
          if valid_sptr p s \<and> is_cluster (kind_of p s) then cluster_clear p s m else Inl BadAccess
      | Call_deep_clear s \<Rightarrow>
          if valid_sptr p s then deep_clear (length (p_states p) + 2) p s m else Inl BadAccess)"

text \<open>
  An action's call, wrapped in \<^verbatim>\<open>try { ... } catch ( ... ) { }\<close>: an exception ends the
  action and is ignored.
\<close>

primrec run_action ::
  "('u, 'p) program \<Rightarrow> ('u, 'p) ops \<Rightarrow> ('u, 'p) code \<Rightarrow> ('u, 'p) mstate \<Rightarrow>
     err + ('u, 'p) mstate" where
  "run_action p ops (UReturn u) m = Inr (m\<lparr>udata := u\<rparr>)"
| "run_action p ops (URaise u) m = Inr (m\<lparr>udata := u\<rparr>)"
| "run_action p ops (UCall u c k) m =
     rbind (user_call p ops c (m\<lparr>udata := u\<rparr>)) (\<lambda>m. run_action p ops (k m) m)"

definition lock_broadcast ::
  "('u, 'p) ops \<Rightarrow> event_id option \<Rightarrow> ('u, 'p) mstate \<Rightarrow> err + ('u, 'p) mstate" where
  "lock_broadcast ops ev m = (case ev of None \<Rightarrow> Inr m | Some e \<Rightarrow> op_broadcast ops e None m)"

definition enex_action ::
  "('u, 'p) program \<Rightarrow> ('u, 'p) ops \<Rightarrow>
     (sptr \<Rightarrow> eptr \<Rightarrow> ('u, 'p) mstate \<Rightarrow> ('u, 'p) code) option \<Rightarrow>
     sptr \<Rightarrow> eptr \<Rightarrow> ('u, 'p) mstate \<Rightarrow> err + ('u, 'p) mstate" where
  "enex_action p ops act s trigger m =
     (case act of None \<Rightarrow> Inr m | Some a \<Rightarrow> run_action p ops (a s trigger m) m)"

section \<open>Entering\<close>

definition switch_active_child_to ::
  "('u, 'p) program \<Rightarrow> sptr \<Rightarrow> sptr \<Rightarrow> ('u, 'p) mstate \<Rightarrow> err + bool \<times> ('u, 'p) mstate" where
  "switch_active_child_to p q child m =
     (case kind_of p q of
        Cluster _ _ \<Rightarrow>
          (case active_child m q of
             None \<Rightarrow> Inl BadAccess
           | Some c \<Rightarrow>
               if active m c then Inr (False, m)
               else Inr (True, m\<lparr>active_child := (active_child m)(q := Some child),
                                 last_child := (last_child m)(q := Some child)\<rparr>))
      | _ \<Rightarrow> Inr (True, m))"

text \<open>
  The first half of \<^verbatim>\<open>state::enter\<close>: enter the parent, or ask it for permission.  The
  result tells whether to go on.
\<close>

definition enter_parent ::
  "('u, 'p) program \<Rightarrow> ('u, 'p) ops \<Rightarrow> sptr \<Rightarrow> eptr \<Rightarrow> ('u, 'p) mstate \<Rightarrow>
     err + bool \<times> ('u, 'p) mstate" where
  "enter_parent p ops s trigger m =
     (case parent_of p s of
        None \<Rightarrow> Inr (True, m)
      | Some q \<Rightarrow>
          if \<not> active m q
          then rbind (op_enter ops q trigger (Some s) m) (\<lambda>(_, m). Inr (\<not> active m s, m))
          else switch_active_child_to p q s m)"

definition state_enter ::
  "('u, 'p) program \<Rightarrow> ('u, 'p) ops \<Rightarrow> sptr \<Rightarrow> eptr \<Rightarrow> ('u, 'p) mstate \<Rightarrow>
     err + bool \<times> ('u, 'p) mstate" where
  "state_enter p ops s trigger m =
     (if active m s then Inr (False, m)
      else rbind (enter_parent p ops s trigger m) (\<lambda>(go, m).
        if \<not> go then Inr (False, m)
        else
          rbind (lock_broadcast ops (sd_enter_event (state_of p s)) (set_state s STATE_ACTIVE m))
            (\<lambda>m. rbind (enex_action p ops (sd_enter_action (state_of p s)) s trigger m)
              (\<lambda>m. Inr (True, m)))))"

text \<open>The second half of \<^verbatim>\<open>cluster::enter\<close>: choose the active child and enter it.\<close>

definition cluster_enter_child ::
  "('u, 'p) program \<Rightarrow> ('u, 'p) ops \<Rightarrow> sptr \<Rightarrow> eptr \<Rightarrow> sptr option \<Rightarrow> ('u, 'p) mstate \<Rightarrow>
     err + bool \<times> ('u, 'p) mstate" where
  "cluster_enter_child p ops s trigger from_child m =
     (case from_child of
        Some c \<Rightarrow> Inr (True, m\<lparr>active_child := (active_child m)(s := Some c),
                              last_child := (last_child m)(s := Some c)\<rparr>)
      | None \<Rightarrow>
          rbind (if last_child m s = None \<or> \<not> history (kind_of p s)
                 then cluster_clear p s m else Inr m)
            (\<lambda>m. case last_child m s of
                None \<Rightarrow> Inl BadAccess
              | Some c \<Rightarrow>
                  rbind (op_enter ops c trigger None
                           (m\<lparr>active_child := (active_child m)(s := Some c)\<rparr>))
                    (\<lambda>(_, m). Inr (True, m))))"

definition cluster_enter ::
  "('u, 'p) program \<Rightarrow> ('u, 'p) ops \<Rightarrow> sptr \<Rightarrow> eptr \<Rightarrow> sptr option \<Rightarrow> ('u, 'p) mstate \<Rightarrow>
     err + bool \<times> ('u, 'p) mstate" where
  "cluster_enter p ops s trigger from_child m =
     rbind (state_enter p ops s trigger m) (\<lambda>(entered, m).
       if \<not> entered then Inr (False, m)
       else if parent_empty p s then Inr (True, m)
       else cluster_enter_child p ops s trigger from_child m)"

definition set_enter ::
  "('u, 'p) program \<Rightarrow> ('u, 'p) ops \<Rightarrow> sptr \<Rightarrow> eptr \<Rightarrow> ('u, 'p) mstate \<Rightarrow>
     err + bool \<times> ('u, 'p) mstate" where
  "set_enter p ops s trigger m =
     rbind (state_enter p ops s trigger m) (\<lambda>(entered, m).
       if \<not> entered then Inr (False, m)
       else rbind
         (iter_res (\<lambda>c m. rbind (op_enter ops c trigger None m) (\<lambda>(_, m). Inr m))
            (children p s) m)
         (\<lambda>m. Inr (True, m)))"

text \<open>Virtual dispatch of \<^verbatim>\<open>enter\<close>.\<close>

definition enter_body ::
  "('u, 'p) program \<Rightarrow> ('u, 'p) ops \<Rightarrow> sptr \<Rightarrow> eptr \<Rightarrow> sptr option \<Rightarrow> ('u, 'p) mstate \<Rightarrow>
     err + bool \<times> ('u, 'p) mstate" where
  "enter_body p ops s trigger from_child m =
     (case kind_of p s of
        Plain \<Rightarrow> state_enter p ops s trigger m
      | Cluster _ _ \<Rightarrow> cluster_enter p ops s trigger from_child m
      | Set _ \<Rightarrow> set_enter p ops s trigger m)"

section \<open>Exiting\<close>

text \<open>
  The last part of \<^verbatim>\<open>state::exit\<close>: when the target of the transition is not below our
  parent, the parent exits as well.
\<close>

definition exit_parent ::
  "('u, 'p) program \<Rightarrow> ('u, 'p) ops \<Rightarrow> sptr \<Rightarrow> eptr \<Rightarrow> sptr option \<Rightarrow> ('u, 'p) mstate \<Rightarrow>
     err + ('u, 'p) mstate" where
  "exit_parent p ops s trigger to m =
     (case (to, parent_of p s) of
        (Some t, Some q) \<Rightarrow>
          rbind (find_ancestor p (Some q) (parent_of p t)) (\<lambda>ancestor.
            if ancestor = None
            then rbind (op_exit ops q trigger to m) (\<lambda>(_, m). Inr m)
            else Inr m)
      | _ \<Rightarrow> Inr m)"

definition state_exit ::
  "('u, 'p) program \<Rightarrow> ('u, 'p) ops \<Rightarrow> sptr \<Rightarrow> eptr \<Rightarrow> sptr option \<Rightarrow> ('u, 'p) mstate \<Rightarrow>
     err + bool \<times> ('u, 'p) mstate" where
  "state_exit p ops s trigger to m =
     (if \<not> active m s then Inr (False, m)
      else
        rbind (lock_broadcast ops (sd_exit_event (state_of p s)) (set_state s STATE_INACTIVE m))
          (\<lambda>m. rbind (enex_action p ops (sd_exit_action (state_of p s)) s trigger m)
            (\<lambda>m. rbind (exit_parent p ops s trigger to m)
              (\<lambda>m. Inr (True, m)))))"

definition cluster_exit ::
  "('u, 'p) program \<Rightarrow> ('u, 'p) ops \<Rightarrow> sptr \<Rightarrow> eptr \<Rightarrow> sptr option \<Rightarrow> ('u, 'p) mstate \<Rightarrow>
     err + bool \<times> ('u, 'p) mstate" where
  "cluster_exit p ops s trigger to m =
     (if \<not> active m s then Inr (False, m)
      else case active_child m s of
        None \<Rightarrow> Inl BadAccess
      | Some c \<Rightarrow>
          rbind (op_exit ops c trigger None m) (\<lambda>(_, m). state_exit p ops s trigger to m))"

definition set_exit ::
  "('u, 'p) program \<Rightarrow> ('u, 'p) ops \<Rightarrow> sptr \<Rightarrow> eptr \<Rightarrow> sptr option \<Rightarrow> ('u, 'p) mstate \<Rightarrow>
     err + bool \<times> ('u, 'p) mstate" where
  "set_exit p ops s trigger to m =
     (if \<not> active m s then Inr (False, m)
      else rbind
        (iter_res (\<lambda>c m. rbind (op_exit ops c trigger None m) (\<lambda>(_, m). Inr m))
           (children p s) m)
        (\<lambda>m. state_exit p ops s trigger to m))"

text \<open>Virtual dispatch of \<^verbatim>\<open>exit\<close>.\<close>

definition exit_body ::
  "('u, 'p) program \<Rightarrow> ('u, 'p) ops \<Rightarrow> sptr \<Rightarrow> eptr \<Rightarrow> sptr option \<Rightarrow> ('u, 'p) mstate \<Rightarrow>
     err + bool \<times> ('u, 'p) mstate" where
  "exit_body p ops s trigger to m =
     (case kind_of p s of
        Plain \<Rightarrow> state_exit p ops s trigger to m
      | Cluster _ _ \<Rightarrow> cluster_exit p ops s trigger to m
      | Set _ \<Rightarrow> set_exit p ops s trigger to m)"

section \<open>The transition algorithm\<close>

text \<open>Phase I: a loop over the events of the micro-step, read by position (see \<open>micro_step\<close>
  below for the iterators of the code), and their transitions.\<close>

definition share_params :: "('u, 'p) program \<Rightarrow> event_id \<Rightarrow> ('u, 'p) mstate \<Rightarrow> ('u, 'p) mstate" where
  "share_params p e m =
     fold (\<lambda>base m. m\<lparr>ev_param := (ev_param m)(base := ev_param m e)\<rparr>)
       (event_chain p (ed_base (event_of p e))) m"

definition exit_from ::
  "('u, 'p) program \<Rightarrow> ('u, 'p) ops \<Rightarrow> event_id \<Rightarrow> transition_id \<Rightarrow> ('u, 'p) mstate \<Rightarrow>
     err + ('u, 'p) mstate" where
  "exit_from p ops e t m =
     (let td = transition_of p t; from = St (tr_from td) in
      if taken m t \<noteq> Some e then Inr m
      else if \<not> active m from then Inr (m\<lparr>taken := (taken m)(t := None)\<rparr>)
      else
        rbind (if is_internal td then Inr (True, m) else op_exit ops from (Ev e) (target m t) m)
          (\<lambda>(exited, m).
            case tr_action td of
              Some a \<Rightarrow> if exited then run_action p ops (a e m) m else Inr m
            | None \<Rightarrow> Inr m))"

definition phase_exit ::
  "('u, 'p) program \<Rightarrow> ('u, 'p) ops \<Rightarrow> event_id list \<Rightarrow> ('u, 'p) mstate \<Rightarrow>
     err + ('u, 'p) mstate" where
  "phase_exit p ops evs m =
     iter_res (\<lambda>e m. iter_res (exit_from p ops e) (transition_ids p e) (share_params p e m)) evs m"

text \<open>Phase II: enter the targets and unmark the transitions, the queue again read by position.\<close>

definition enter_to ::
  "('u, 'p) program \<Rightarrow> ('u, 'p) ops \<Rightarrow> event_id \<Rightarrow> transition_id \<Rightarrow> ('u, 'p) mstate \<Rightarrow>
     err + ('u, 'p) mstate" where
  "enter_to p ops e t m =
     (if taken m t \<noteq> Some e then Inr m
      else
        rbind (if is_internal (transition_of p t) then Inr m
               else case target m t of
                 None \<Rightarrow> Inl BadAccess
               | Some s \<Rightarrow> rbind (op_enter ops s (Ev e) None m) (\<lambda>(_, m). Inr m))
          (\<lambda>m. Inr (m\<lparr>taken := (taken m)(t := None)\<rparr>)))"

definition phase_enter ::
  "('u, 'p) program \<Rightarrow> ('u, 'p) ops \<Rightarrow> event_id list \<Rightarrow> ('u, 'p) mstate \<Rightarrow>
     err + ('u, 'p) mstate" where
  "phase_enter p ops evs m =
     iter_res (\<lambda>e m. iter_res (enter_to p ops e) (transition_ids p e) m) evs m"

text \<open>Phase III: dequeue as many events as the micro-step began with.\<close>

primrec phase_dequeue ::
  "nat \<Rightarrow> ('u, 'p) program \<Rightarrow> ('u, 'p) mstate \<Rightarrow> err + ('u, 'p) mstate" where
  "phase_dequeue 0 p m = Inr m"
| "phase_dequeue (Suc i) p m =
     (case event_queue m of
        [] \<Rightarrow> Inl BadAccess
      | e # _ \<Rightarrow>
          (let m = broadcasted p e m
           in phase_dequeue i p (m\<lparr>event_queue := tl (event_queue m)\<rparr>)))"

text \<open>
  One turn of the outer \<^verbatim>\<open>while\<close> loop.  The queue is read by position: the events of the
  micro-step are those queued at its start, and the phases only append to the queue (lemmas
  \<open>phase_exit_kept\<close> and \<open>phase_enter_kept\<close> of \<open>Chsm_Accounting\<close>).  The code walks the queue, a
  \<^verbatim>\<open>std::deque\<close>, with iterators, which the standard lets a \<^verbatim>\<open>push_back\<close> invalidate;
  \<open>Chsm_Iterators\<close> has the turn with such iterators, and shows that it agrees with this one
  exactly if no event is queued during the phases.
\<close>

definition micro_step ::
  "('u, 'p) program \<Rightarrow> ('u, 'p) ops \<Rightarrow> ('u, 'p) mstate \<Rightarrow> err + ('u, 'p) mstate" where
  "micro_step p ops m =
     (let evs = event_queue m; events_in_step = length evs in
      rbind (phase_exit p ops evs m) (\<lambda>m.
      rbind (phase_enter p ops evs m) (\<lambda>m.
      phase_dequeue events_in_step p m)))"

definition loop_body ::
  "('u, 'p) program \<Rightarrow> ('u, 'p) ops \<Rightarrow> ('u, 'p) mstate \<Rightarrow> err + ('u, 'p) mstate" where
  "loop_body p ops m =
     (if event_queue m = [] then Inr m else rbind (micro_step p ops m) (op_loop ops))"

definition algorithm ::
  "('u, 'p) ops \<Rightarrow> ('u, 'p) mstate \<Rightarrow> err + ('u, 'p) mstate" where
  "algorithm ops m =
     (if in_progress m then Inr m
      else rbind (op_loop ops (m\<lparr>in_progress := True\<rparr>)) (\<lambda>m. Inr (m\<lparr>in_progress := False\<rparr>)))"

section \<open>Broadcasting\<close>

definition precondition_true ::
  "('u, 'p) program \<Rightarrow> event_id \<Rightarrow> 'p option \<Rightarrow> ('u, 'p) mstate \<Rightarrow> bool" where
  "precondition_true p e pb m =
     (case pb of
        None \<Rightarrow> True
      | Some b \<Rightarrow> (case ed_precondition (event_of p e) b m of Threw \<Rightarrow> False | Returned v \<Rightarrow> v))"

definition broadcast_body ::
  "('u, 'p) program \<Rightarrow> ('u, 'p) ops \<Rightarrow> event_id \<Rightarrow> 'p option \<Rightarrow> ('u, 'p) mstate \<Rightarrow>
     err + ('u, 'p) mstate" where
  "broadcast_body p ops e pb m =
     (if ev_in_progress m e > 0 then Inr m
      else
        let m = mark_in_progress p e m;
            m = m\<lparr>ev_param := (ev_param m)(e := pb)\<rparr>
        in rbind (if precondition_true p e pb m then find_transition p e m else Inr (False, m))
             (\<lambda>(found, m).
               if found then algorithm ops (m\<lparr>event_queue := event_queue m @ [e]\<rparr>)
               else Inr (broadcasted p e m)))"

section \<open>Tying the knot\<close>

primrec ops_at :: "nat \<Rightarrow> ('u, 'p) program \<Rightarrow> ('u, 'p) ops" where
  "ops_at 0 p = \<lparr>
     op_enter = (\<lambda>_ _ _ _. Inl OutOfFuel),
     op_exit = (\<lambda>_ _ _ _. Inl OutOfFuel),
     op_broadcast = (\<lambda>_ _ _. Inl OutOfFuel),
     op_loop = (\<lambda>_. Inl OutOfFuel)\<rparr>"
| "ops_at (Suc n) p = \<lparr>
     op_enter = enter_body p (ops_at n p),
     op_exit = exit_body p (ops_at n p),
     op_broadcast = broadcast_body p (ops_at n p),
     op_loop = loop_body p (ops_at n p)\<rparr>"

lemma ops_at_sel [simp]:
  "op_enter (ops_at (Suc n) p) = enter_body p (ops_at n p)"
  "op_exit (ops_at (Suc n) p) = exit_body p (ops_at n p)"
  "op_broadcast (ops_at (Suc n) p) = broadcast_body p (ops_at n p)"
  "op_loop (ops_at (Suc n) p) = loop_body p (ops_at n p)"
  by simp_all

declare ops_at.simps(2) [simp del]

definition enter ::
  "nat \<Rightarrow> ('u, 'p) program \<Rightarrow> sptr \<Rightarrow> eptr \<Rightarrow> sptr option \<Rightarrow> ('u, 'p) mstate \<Rightarrow>
     err + bool \<times> ('u, 'p) mstate" where
  "enter n p = op_enter (ops_at n p)"

definition exit ::
  "nat \<Rightarrow> ('u, 'p) program \<Rightarrow> sptr \<Rightarrow> eptr \<Rightarrow> sptr option \<Rightarrow> ('u, 'p) mstate \<Rightarrow>
     err + bool \<times> ('u, 'p) mstate" where
  "exit n p = op_exit (ops_at n p)"

definition broadcast ::
  "nat \<Rightarrow> ('u, 'p) program \<Rightarrow> event_id \<Rightarrow> 'p option \<Rightarrow> ('u, 'p) mstate \<Rightarrow>
     err + ('u, 'p) mstate" where
  "broadcast n p = op_broadcast (ops_at n p)"

definition algorithm_loop ::
  "nat \<Rightarrow> ('u, 'p) program \<Rightarrow> ('u, 'p) mstate \<Rightarrow> err + ('u, 'p) mstate" where
  "algorithm_loop n p = op_loop (ops_at n p)"

text \<open>
  The equations of the recursive functions, for evaluation: a call unfolds only when it
  has all its arguments.
\<close>

lemma ops_at_eta [code]:
  "ops_at n p = \<lparr>
     op_enter = \<lambda>s t f m. enter n p s t f m,
     op_exit = \<lambda>s t f m. exit n p s t f m,
     op_broadcast = \<lambda>e b m. broadcast n p e b m,
     op_loop = \<lambda>m. algorithm_loop n p m\<rparr>"
  by (cases n) (simp_all add: ops_at.simps enter_def exit_def broadcast_def algorithm_loop_def)

lemma run_equations [code]:
  "enter 0 p s t f m = Inl OutOfFuel"
  "enter (Suc n) p s t f m = enter_body p (ops_at n p) s t f m"
  "exit 0 p s t f m = Inl OutOfFuel"
  "exit (Suc n) p s t f m = exit_body p (ops_at n p) s t f m"
  "broadcast 0 p e b m = Inl OutOfFuel"
  "broadcast (Suc n) p e b m = broadcast_body p (ops_at n p) e b m"
  "algorithm_loop 0 p m = Inl OutOfFuel"
  "algorithm_loop (Suc n) p m = loop_body p (ops_at n p) m"
  by (simp_all add: enter_def exit_def broadcast_def algorithm_loop_def)

definition machine_enter ::
  "nat \<Rightarrow> ('u, 'p) program \<Rightarrow> eptr \<Rightarrow> ('u, 'p) mstate \<Rightarrow> err + bool \<times> ('u, 'p) mstate" where
  "machine_enter n p trigger m = enter n p Root trigger None m"

definition machine_exit ::
  "nat \<Rightarrow> ('u, 'p) program \<Rightarrow> eptr \<Rightarrow> ('u, 'p) mstate \<Rightarrow> err + bool \<times> ('u, 'p) mstate" where
  "machine_exit n p trigger m = exit n p Root trigger None m"

definition machine_active :: "('u, 'p) mstate \<Rightarrow> bool" where
  "machine_active m \<longleftrightarrow> active m Root"

end
