(* ===== verification/Chsm_Fuel.thy ===== *)
theory Chsm_Fuel
  imports Chsm_Run
begin

text \<open>
  The recursion bound of \<open>Chsm_Run\<close> only cuts runs off: a run that ends (normally or with
  a crash) with some bound gives the same result with every larger bound.  The locale
  states what the functions rely on when the operations they call become more defined.
\<close>

locale ops_refine =
  fixes p :: "('u, 'p) program" and ops ops' :: "('u, 'p) ops"
  assumes enter_le: "res_le (op_enter ops s t f m) (op_enter ops' s t f m)"
    and exit_le: "res_le (op_exit ops s t f m) (op_exit ops' s t f m)"
    and broadcast_le: "res_le (op_broadcast ops e b m) (op_broadcast ops' e b m)"
    and loop_le: "res_le (op_loop ops m) (op_loop ops' m)"
begin

lemmas calls_le = enter_le exit_le broadcast_le loop_le

lemma user_call_le: "res_le (user_call p ops c m) (user_call p ops' c m)"
  by (cases c) (auto simp: user_call_def intro!: res_le_rbind calls_le)

lemma run_action_le: "res_le (run_action p ops a m) (run_action p ops' a m)"
  by (induction a arbitrary: m) (auto intro!: res_le_rbind user_call_le)

lemma lock_broadcast_le: "res_le (lock_broadcast ops ev m) (lock_broadcast ops' ev m)"
  by (auto simp: lock_broadcast_def intro: broadcast_le split: option.split)

lemma enex_action_le: "res_le (enex_action p ops a s t m) (enex_action p ops' a s t m)"
  by (auto simp: enex_action_def intro: run_action_le split: option.split)

lemma enter_parent_le: "res_le (enter_parent p ops s t m) (enter_parent p ops' s t m)"
  by (auto simp: enter_parent_def intro!: res_le_rbind enter_le split: option.split)

lemma state_enter_le: "res_le (state_enter p ops s t m) (state_enter p ops' s t m)"
  by (auto simp: state_enter_def
      intro!: res_le_rbind enter_parent_le lock_broadcast_le enex_action_le)

lemma cluster_enter_child_le:
  "res_le (cluster_enter_child p ops s t f m) (cluster_enter_child p ops' s t f m)"
  by (auto simp: cluster_enter_child_def intro!: res_le_rbind enter_le split: option.split)

lemma enter_body_le: "res_le (enter_body p ops s t f m) (enter_body p ops' s t f m)"
  by (cases "kind_of p s")
    (auto simp: enter_body_def cluster_enter_def set_enter_def
      intro!: res_le_rbind state_enter_le cluster_enter_child_le res_le_iter_res enter_le)

lemma exit_parent_le: "res_le (exit_parent p ops s t f m) (exit_parent p ops' s t f m)"
  by (auto simp: exit_parent_def intro!: res_le_rbind exit_le split: option.split)

lemma state_exit_le: "res_le (state_exit p ops s t f m) (state_exit p ops' s t f m)"
  by (auto simp: state_exit_def
      intro!: res_le_rbind exit_parent_le lock_broadcast_le enex_action_le)

lemma exit_body_le: "res_le (exit_body p ops s t f m) (exit_body p ops' s t f m)"
  by (cases "kind_of p s")
    (auto simp: exit_body_def cluster_exit_def set_exit_def
      intro!: res_le_rbind state_exit_le res_le_iter_res exit_le split: option.split)

lemma exit_from_le: "res_le (exit_from p ops e t m) (exit_from p ops' e t m)"
  by (auto simp: exit_from_def Let_def intro!: res_le_rbind exit_le run_action_le split: option.split)

lemma enter_to_le: "res_le (enter_to p ops e t m) (enter_to p ops' e t m)"
  by (auto simp: enter_to_def intro!: res_le_rbind enter_le split: option.split)

lemma micro_step_le: "res_le (micro_step p ops m) (micro_step p ops' m)"
  by (auto simp: micro_step_def phase_exit_def phase_enter_def Let_def
      intro!: res_le_rbind res_le_iter_res exit_from_le enter_to_le)

lemma loop_body_le: "res_le (loop_body p ops m) (loop_body p ops' m)"
  by (auto simp: loop_body_def intro!: res_le_rbind micro_step_le loop_le)

lemma algorithm_le: "res_le (algorithm ops m) (algorithm ops' m)"
  by (auto simp: algorithm_def intro!: res_le_rbind loop_le)

lemma broadcast_body_le:
  "res_le (broadcast_body p ops e b m) (broadcast_body p ops' e b m)"
  by (auto simp: broadcast_body_def Let_def intro!: res_le_rbind algorithm_le)

end

lemma ops_refine_step: "ops_refine (ops_at n p) (ops_at (Suc n) p)"
proof (induction n)
  case 0
  show ?case by unfold_locales simp_all
next
  case (Suc n)
  show ?case
    by unfold_locales
      (simp_all add: ops_refine.enter_body_le [OF Suc] ops_refine.exit_body_le [OF Suc]
        ops_refine.broadcast_body_le [OF Suc] ops_refine.loop_body_le [OF Suc])
qed

interpretation knot: ops_refine p "ops_at n p" "ops_at (Suc n) p"
  for n :: nat and p :: "('u, 'p) program"
  by (rule ops_refine_step)

lemma ops_refine_trans:
  "ops_refine a b \<Longrightarrow> ops_refine b c \<Longrightarrow> ops_refine a c"
  unfolding ops_refine_def by (meson res_le_trans)

lemma ops_refine_le: "n \<le> n' \<Longrightarrow> ops_refine (ops_at n p) (ops_at n' p)"
proof (induction rule: dec_induct)
  case base
  show ?case by unfold_locales simp_all
next
  case (step k)
  then show ?case using ops_refine_step ops_refine_trans by blast
qed

lemma more_fuel:
  assumes "n \<le> n'"
  shows "res_le (enter n p s t f m) (enter n' p s t f m)"
    "res_le (exit n p s t f m) (exit n' p s t f m)"
    "res_le (broadcast n p e b m) (broadcast n' p e b m)"
    "res_le (algorithm_loop n p m) (algorithm_loop n' p m)"
  using ops_refine_le [OF assms, of p]
  by (simp_all add: enter_def exit_def broadcast_def algorithm_loop_def ops_refine_def)

end
