(* ===== verification/Chsm_Accounting.thy ===== *)
theory Chsm_Accounting
  imports Chsm_Fuel
begin

text \<open>
  Invariants that hold whatever the user's code does, including code that broadcasts,
  enters and exits from inside actions: the pointers stored in the machine point where
  they should (\<open>typed\<close>); the in-progress counter of an event is exactly the number of
  queued events derived from it (\<open>accounted\<close>); outside the algorithm the queue is empty;
  during it the queue only grows at its end.
\<close>

section \<open>The invariants\<close>

definition typed_child ::
  "('u, 'p) program \<Rightarrow> (sptr \<Rightarrow> sptr option) \<Rightarrow> bool" where
  "typed_child p f \<longleftrightarrow> (\<forall>s c. f s = Some c \<longrightarrow> valid_sptr p c \<and> parent_of p c = Some s)"

definition typed :: "('u, 'p) program \<Rightarrow> ('u, 'p) mstate \<Rightarrow> bool" where
  "typed p m \<longleftrightarrow>
     typed_child p (active_child m) \<and> typed_child p (last_child m) \<and>
     (\<forall>t s. target m t = Some s \<longrightarrow> valid_sptr p s) \<and>
     (\<forall>t e. taken m t = Some e \<longrightarrow> e < length (p_events p) \<and> t \<in> set (transition_ids p e)) \<and>
     (\<forall>s. st_state m s \<in> {STATE_INACTIVE, STATE_ACTIVE, STATE_ACTIVE_DISABLED})"

definition derived_in :: "('u, 'p) program \<Rightarrow> event_id \<Rightarrow> event_id list \<Rightarrow> nat" where
  "derived_in p x q = length (filter (\<lambda>e. x \<in> set (event_chain p (Some e))) q)"

definition accounted :: "('u, 'p) program \<Rightarrow> ('u, 'p) mstate \<Rightarrow> bool" where
  "accounted p m \<longleftrightarrow>
     distinct (event_queue m) \<and> (\<forall>e \<in> set (event_queue m). e < length (p_events p)) \<and>
     (\<forall>x. ev_in_progress m x = derived_in p x (event_queue m))"

definition at_rest :: "('u, 'p) mstate \<Rightarrow> bool" where
  "at_rest m \<longleftrightarrow> \<not> in_progress m \<and> event_queue m = []"

definition sound :: "('u, 'p) program \<Rightarrow> ('u, 'p) mstate \<Rightarrow> bool" where
  "sound p m \<longleftrightarrow> wf_program p \<and> typed p m \<and> accounted p m \<and> (in_progress m \<or> at_rest m)"

definition keeps :: "('u, 'p) program \<Rightarrow> ('u, 'p) mstate \<Rightarrow> ('u, 'p) mstate \<Rightarrow> bool" where
  "keeps p m m' \<longleftrightarrow> sound p m' \<and> in_progress m' = in_progress m \<and>
     (in_progress m \<longrightarrow> prefix (event_queue m) (event_queue m'))"

lemma keeps_refl: "sound p m \<Longrightarrow> keeps p m m"
  by (simp add: keeps_def)

lemma keeps_trans: "keeps p m m' \<Longrightarrow> keeps p m' m'' \<Longrightarrow> keeps p m m''"
  unfolding keeps_def using prefix_order.trans by metis

lemma keeps_again: "keeps p m m' \<Longrightarrow> keeps p m' m'"
  by (simp add: keeps_def)

lemma keeps_sound: "keeps p m m' \<Longrightarrow> sound p m'"
  by (simp add: keeps_def)

lemma sound_typed: "sound p m \<Longrightarrow> typed p m"
  by (simp add: sound_def)

lemma sound_wf: "sound p m \<Longrightarrow> wf_program p"
  by (simp add: sound_def)

lemmas wf_parts = wf_programD [OF sound_wf]

text \<open>Updates that keep everything.\<close>

lemma typed_updates [simp]:
  "typed p (m\<lparr>udata := u\<rparr>) = typed p m"
  "typed p (m\<lparr>ev_param := v\<rparr>) = typed p m"
  "typed p (m\<lparr>ev_in_progress := n\<rparr>) = typed p m"
  "typed p (m\<lparr>in_progress := b\<rparr>) = typed p m"
  "typed p (m\<lparr>event_queue := q\<rparr>) = typed p m"
  by (simp_all add: typed_def)

lemma accounted_updates [simp]:
  "accounted p (m\<lparr>udata := u\<rparr>) = accounted p m"
  "accounted p (m\<lparr>ev_param := v\<rparr>) = accounted p m"
  "accounted p (m\<lparr>in_progress := b\<rparr>) = accounted p m"
  "accounted p (m\<lparr>st_state := f\<rparr>) = accounted p m"
  "accounted p (m\<lparr>active_child := c\<rparr>) = accounted p m"
  "accounted p (m\<lparr>last_child := c\<rparr>) = accounted p m"
  "accounted p (m\<lparr>taken := g\<rparr>) = accounted p m"
  "accounted p (m\<lparr>target := h\<rparr>) = accounted p m"
  by (simp_all add: accounted_def)

lemma keeps_updates:
  assumes "sound p m"
  shows "keeps p m (m\<lparr>udata := u\<rparr>)" "keeps p m (m\<lparr>ev_param := v\<rparr>)"
  using assms by (simp_all add: keeps_def sound_def at_rest_def)

lemma keeps_typed:
  assumes "sound p m" "typed p m'"
    "event_queue m' = event_queue m" "in_progress m' = in_progress m"
    "ev_in_progress m' = ev_in_progress m"
  shows "keeps p m m'"
  using assms by (simp add: keeps_def sound_def at_rest_def accounted_def)

lemma keeps_set_state:
  "sound p m \<Longrightarrow> w \<in> {STATE_INACTIVE, STATE_ACTIVE, STATE_ACTIVE_DISABLED} \<Longrightarrow>
    keeps p m (set_state s w m)"
  by (rule keeps_typed) (auto simp: sound_def typed_def set_state_def)

lemma keeps_untake: "sound p m \<Longrightarrow> keeps p m (m\<lparr>taken := (taken m)(t := None)\<rparr>)"
  by (rule keeps_typed) (auto simp: sound_def typed_def)

lemma typed_child_upd:
  "typed_child p f \<Longrightarrow> valid_sptr p c \<Longrightarrow> parent_of p c = Some s \<Longrightarrow>
    typed_child p (f(s := Some c))"
  by (auto simp: typed_child_def)

lemma typed_childD:
  "typed_child p f \<Longrightarrow> f s = Some c \<Longrightarrow> valid_sptr p c \<and> parent_of p c = Some s"
  by (auto simp: typed_child_def)

lemma keeps_set_child:
  assumes "sound p m" "valid_sptr p c" "parent_of p c = Some s"
  shows "keeps p m (m\<lparr>active_child := (active_child m)(s := Some c)\<rparr>)"
    "keeps p m (m\<lparr>last_child := (last_child m)(s := Some c)\<rparr>)"
    "keeps p m (m\<lparr>active_child := (active_child m)(s := Some c),
                  last_child := (last_child m)(s := Some c)\<rparr>)"
  using assms by (auto intro!: keeps_typed simp: sound_def typed_def typed_child_upd)

section \<open>The counters\<close>

lemma derived_in_append [simp]: "derived_in p x (q @ r) = derived_in p x q + derived_in p x r"
  by (simp add: derived_in_def)

lemma derived_in_Cons [simp]:
  "derived_in p x (e # q) =
     (if x \<in> set (event_chain p (Some e)) then 1 else 0) + derived_in p x q"
  by (simp add: derived_in_def)

lemma derived_in_Nil [simp]: "derived_in p x [] = 0"
  by (simp add: derived_in_def)

lemma not_queued:
  assumes "wf_bases p" "accounted p m" "ev_in_progress m e = 0"
  shows "e \<notin> set (event_queue m)"
proof
  assume e: "e \<in> set (event_queue m)"
  then have "e \<in> set (event_chain p (Some e))"
    using assms event_chain_self by (auto simp: accounted_def)
  then have "derived_in p e (event_queue m) \<noteq> 0"
    using e by (auto simp: derived_in_def filter_empty_conv)
  then show False using assms by (auto simp: accounted_def)
qed

lemma accounted_enqueue:
  assumes "wf_bases p" "accounted p m" "e < length (p_events p)" "ev_in_progress m e = 0"
    "event_queue m' = event_queue m @ [e]"
    "ev_in_progress m' = ev_in_progress (mark_in_progress p e m)"
  shows "accounted p m'"
  using assms not_queued [OF assms(1,2,4)] mark_in_progress_eq [OF event_chain_distinct [OF assms(1,3)], of m]
  by (auto simp: accounted_def)

lemma accounted_dequeue:
  assumes "wf_bases p" "accounted p m" "event_queue m = e # q"
  shows "accounted p ((broadcasted p e m)\<lparr>event_queue := q\<rparr>)"
    and "event_queue (broadcasted p e m) = e # q"
proof -
  have e: "e < length (p_events p)" using assms by (simp add: accounted_def)
  have "ev_in_progress m e > 0"
    using assms event_chain_self [OF assms(1) e] by (simp add: accounted_def)
  note eq = broadcasted_eq [OF event_chain_distinct [OF assms(1) e] this]
  show "accounted p ((broadcasted p e m)\<lparr>event_queue := q\<rparr>)"
    and "event_queue (broadcasted p e m) = e # q"
    using assms by (auto simp: eq accounted_def)
qed

lemma broadcasted_mark:
  assumes "wf_bases p" "e < length (p_events p)"
    "ev_in_progress m' = ev_in_progress (mark_in_progress p e m)"
  shows "broadcasted p e m' = m'\<lparr>ev_in_progress := ev_in_progress m\<rparr>"
  using assms mark_in_progress_eq [OF event_chain_distinct [OF assms(1,2)], of m]
    broadcasted_eq [OF event_chain_distinct [OF assms(1,2)], of m'] event_chain_self [OF assms(1,2)]
  by (auto simp: fun_eq_iff)

lemma broadcasted_only: "\<exists>n. broadcasted p e m = m\<lparr>ev_in_progress := n\<rparr>"
proof -
  define step where "step = (\<lambda>x (m :: ('a, 'b) mstate). if ev_in_progress m x > 0
    then m\<lparr>ev_in_progress := (ev_in_progress m)(x := ev_in_progress m x - 1)\<rparr> else m)"
  have "\<exists>n. fold step xs (m\<lparr>ev_in_progress := n0\<rparr>) = m\<lparr>ev_in_progress := n\<rparr>" for xs n0 m
  proof (induction xs arbitrary: n0)
    case (Cons x xs)
    have "\<exists>n1. step x (m\<lparr>ev_in_progress := n0\<rparr>) = m\<lparr>ev_in_progress := n1\<rparr>"
      by (auto simp: step_def)
    then show ?case using Cons by (metis fold_simps(2))
  qed auto
  from this [of _ "ev_in_progress m" m] have "\<exists>n. fold step xs m = m\<lparr>ev_in_progress := n\<rparr>" for xs
    by simp
  moreover have "\<exists>n. m = m\<lparr>ev_in_progress := n\<rparr>" by (rule exI [of _ "ev_in_progress m"]) simp
  ultimately show ?thesis by (simp add: broadcasted_def step_def)
qed

lemma broadcasted_frame [simp]:
  "in_progress (broadcasted p e m) = in_progress m"
  "event_queue (broadcasted p e m) = event_queue m"
  "st_state (broadcasted p e m) = st_state m"
  "active_child (broadcasted p e m) = active_child m"
  "last_child (broadcasted p e m) = last_child m"
  "taken (broadcasted p e m) = taken m"
  "target (broadcasted p e m) = target m"
  "typed p' (broadcasted p e m) = typed p' m"
proof -
  obtain n where "broadcasted p e m = m\<lparr>ev_in_progress := n\<rparr>"
    using broadcasted_only by blast
  then show "in_progress (broadcasted p e m) = in_progress m"
    "event_queue (broadcasted p e m) = event_queue m"
    "st_state (broadcasted p e m) = st_state m"
    "active_child (broadcasted p e m) = active_child m"
    "last_child (broadcasted p e m) = last_child m"
    "taken (broadcasted p e m) = taken m"
    "target (broadcasted p e m) = target m"
    "typed p' (broadcasted p e m) = typed p' m"
    by simp_all
qed

section \<open>Finding transitions\<close>

text \<open>\<open>find_transition\<close> touches only the marks, the targets and the disabled flags.\<close>

definition marks_only :: "('u, 'p) mstate \<Rightarrow> ('u, 'p) mstate \<Rightarrow> bool" where
  "marks_only m m' \<longleftrightarrow>
     active_child m' = active_child m \<and> last_child m' = last_child m \<and>
     ev_in_progress m' = ev_in_progress m \<and> ev_param m' = ev_param m \<and>
     in_progress m' = in_progress m \<and> event_queue m' = event_queue m \<and> udata m' = udata m \<and>
     (\<forall>s. active m' s = active m s)"

lemma marks_only_refl [simp]: "marks_only m m"
  by (simp add: marks_only_def)

lemma marks_only_trans: "marks_only m m' \<Longrightarrow> marks_only m' m'' \<Longrightarrow> marks_only m m''"
  by (simp add: marks_only_def)

lemma mark_taken_frame: "marks_only m (mark_taken e t m)"
  by (simp add: marks_only_def mark_taken_def active_def)

lemma choose_target_frame:
  "active m from \<Longrightarrow> marks_only m (choose_target t from to m)"
  by (simp add: marks_only_def choose_target_def) (simp add: set_state_def active_flag)

lemma mark_taken_sel [simp]:
  "st_state (mark_taken e t m) = st_state m"
  by (simp add: mark_taken_def)

lemma typed_mark_taken:
  "typed p m \<Longrightarrow> e < length (p_events p) \<Longrightarrow> t \<in> set (transition_ids p e) \<Longrightarrow>
    typed p (mark_taken e t m)"
  by (auto simp: typed_def mark_taken_def)

lemma typed_choose_target:
  "typed p m \<Longrightarrow> valid_sptr p to \<Longrightarrow> typed p (choose_target t from to m)"
  by (auto simp: typed_def choose_target_def set_state_def)

lemma try_transition_keeps:
  assumes p: "wf_program p" and e: "e < length (p_events p)" "t \<in> set (transition_ids p e)"
    and m: "typed p m"
  shows "wlp (try_transition p e t (found, m)) (\<lambda>(_, m'). marks_only m m' \<and> typed p m')"
proof (cases "st_state m (St (tr_from (transition_of p t))) = STATE_ACTIVE")
  case True
  let ?from = "St (tr_from (transition_of p t))" and ?m = "mark_taken e t m"
  have f: "marks_only m ?m" "typed p ?m" "active ?m ?from"
    using m e mark_taken_frame typed_mark_taken True by (auto simp: active_flag)
  have c: "marks_only m (choose_target t ?from to ?m)" for to
    using f choose_target_frame marks_only_trans by metis
  have tr: "wf_transition p (transition_of p t)" using wf_programD [OF p] e by blast
  show ?thesis
    using True f c m tr
    by (auto simp: try_transition_def Let_def wf_transition_def intro!: typed_choose_target
        simp del: valid_sptr.simps split: outcome.split bool.split option.split)
qed (use m in \<open>simp add: try_transition_def Let_def\<close>)

lemma find_transition_keeps:
  assumes p: "wf_program p" and e: "e < length (p_events p)" and m: "typed p m"
  shows "wlp (find_transition p e m) (\<lambda>(_, m'). marks_only m m' \<and> typed p m')"
proof -
  have "wlp (iter_res (try_transition p e) (transition_ids p e) (False, m))
      (\<lambda>st. marks_only m (snd st) \<and> typed p (snd st))"
  proof (rule wlp_iter_res)
    fix t and st :: "bool \<times> ('a, 'b) mstate"
    assume t: "t \<in> set (transition_ids p e)" and "marks_only m (snd st) \<and> typed p (snd st)"
    then show "wlp (try_transition p e t st) (\<lambda>st. marks_only m (snd st) \<and> typed p (snd st))"
      using try_transition_keeps [OF p e t, of "snd st" "fst st"] marks_only_trans
      by (auto elim!: wlp_mono)
  qed (use m in simp)
  then show ?thesis by (simp add: find_transition_def case_prod_unfold)
qed

section \<open>Runs that keep the invariants\<close>

definition kept :: "('u, 'p) program \<Rightarrow> ('u, 'p) mstate \<Rightarrow> err + ('u, 'p) mstate \<Rightarrow> bool" where
  "kept p m r \<longleftrightarrow> wlp r (keeps p m)"

definition kept2 ::
  "('u, 'p) program \<Rightarrow> ('u, 'p) mstate \<Rightarrow> err + 'b \<times> ('u, 'p) mstate \<Rightarrow> bool" where
  "kept2 p m r \<longleftrightarrow> wlp r (\<lambda>(_, m'). keeps p m m')"

lemma kept_simps [simp]:
  "kept p m (Inl e)" "kept p m (Inr m') = keeps p m m'"
  "kept2 p m (Inl e)" "kept2 p m (Inr (b, m')) = keeps p m m'"
  by (simp_all add: kept_def kept2_def)

lemma kept_bind [triple_intro]:
  "kept p m r \<Longrightarrow> (\<And>m'. keeps p m m' \<Longrightarrow> kept p m' (f m')) \<Longrightarrow> kept p m (rbind r f)"
  "kept2 p m r2 \<Longrightarrow> (\<And>b m'. keeps p m m' \<Longrightarrow> kept p m' (f2 (b, m'))) \<Longrightarrow> kept p m (rbind r2 f2)"
  "kept p m r \<Longrightarrow> (\<And>m'. keeps p m m' \<Longrightarrow> kept2 p m' (g m')) \<Longrightarrow> kept2 p m (rbind r g)"
  "kept2 p m r2 \<Longrightarrow> (\<And>b m'. keeps p m m' \<Longrightarrow> kept2 p m' (g2 (b, m'))) \<Longrightarrow> kept2 p m (rbind r2 g2)"
  unfolding kept_def kept2_def wlp_simps
  by (erule wlp_mono, force elim!: wlp_mono intro: keeps_trans)+

lemma kept_from:
  "keeps p m m1 \<Longrightarrow> kept p m1 r \<Longrightarrow> kept p m r"
  "keeps p m m1 \<Longrightarrow> kept2 p m1 r2 \<Longrightarrow> kept2 p m r2"
  unfolding kept_def kept2_def by (force elim!: wlp_mono intro: keeps_trans)+

lemma kept_iter:
  assumes "\<And>x m. x \<in> set xs \<Longrightarrow> sound p m \<Longrightarrow> kept p m (f x m)" and "sound p m"
  shows "kept p m (iter_res f xs m)"
proof -
  have "wlp (iter_res f xs m) (keeps p m)"
  proof (rule wlp_iter_res)
    fix x m1
    assume "x \<in> set xs" "keeps p m m1"
    then show "wlp (f x m1) (keeps p m)"
      using assms(1) [of x m1] kept_from(1) [of p m m1] keeps_sound by (auto simp: kept_def)
  qed (use assms(2) in \<open>rule keeps_refl\<close>)
  then show ?thesis by (simp add: kept_def)
qed

text \<open>
  What the functions of \<open>Chsm_Run\<close> need of the operations they call, and promise in turn.
\<close>

locale accounted_ops =
  fixes p :: "('u, 'p) program" and ops :: "('u, 'p) ops"
  assumes enter_kept: "sound p m \<Longrightarrow> valid_sptr p s \<Longrightarrow>
      (\<And>c. f = Some c \<Longrightarrow> valid_sptr p c \<and> parent_of p c = Some s) \<Longrightarrow>
      kept2 p m (op_enter ops s t f m)"
    and exit_kept: "sound p m \<Longrightarrow> valid_sptr p s \<Longrightarrow> kept2 p m (op_exit ops s t f m)"
    and broadcast_kept:
      "sound p m \<Longrightarrow> e < length (p_events p) \<Longrightarrow> kept p m (op_broadcast ops e b m)"
    and loop_drains: "sound p m \<Longrightarrow> in_progress m \<Longrightarrow>
      wlp (op_loop ops m) (\<lambda>m'. sound p m' \<and> in_progress m' \<and> event_queue m' = [])"
begin

lemma cluster_clear_kept:
  assumes m: "sound p m" and s: "valid_sptr p s"
  shows "kept p m (cluster_clear p s m)"
proof (cases "child_list (kind_of p s)")
  case Nil
  then show ?thesis by (simp add: cluster_clear_def parent_front_def)
next
  case (Cons c cs)
  then show ?thesis
    using keeps_set_child(2) [OF m, of "St c" s] wf_children [OF wf_parts(1) [OF m] s, of c]
    by (simp add: cluster_clear_def parent_front_def)
qed

lemma deep_clear_kept:
  "sound p m \<Longrightarrow> valid_sptr p s \<Longrightarrow> kept p m (deep_clear n p s m)"
proof (induction n arbitrary: s m)
  case (Suc n)
  have cs: "valid_sptr p (St c)" if "c \<in> set (child_list (kind_of p s))" for c
    using wf_children(1) [OF wf_parts(1) [OF Suc.prems(1)] Suc.prems(2) that] .
  show ?case
  proof (cases "kind_of p s")
    case Plain
    then show ?thesis using Suc.prems by (simp add: keeps_refl)
  next
    case (Cluster h ks)
    then show ?thesis
      using Suc cs
      by (auto intro!: kept_bind kept_iter cluster_clear_kept dest: keeps_sound simp del: valid_sptr.simps)
  next
    case (Set ks)
    then show ?thesis using Suc cs by (auto intro!: kept_iter simp del: valid_sptr.simps)
  qed
qed simp

lemma user_call_kept: "sound p m \<Longrightarrow> kept p m (user_call p ops c m)"
  by (cases c)
    (auto simp: user_call_def intro!: kept_bind enter_kept exit_kept broadcast_kept
      cluster_clear_kept deep_clear_kept dest: keeps_sound simp del: deep_clear.simps intro: keeps_refl keeps_again)

lemma run_action_kept: "sound p m \<Longrightarrow> kept p m (run_action p ops a m)"
proof (induction a arbitrary: m)
  case (UCall u c k)
  have u: "keeps p m (m\<lparr>udata := u\<rparr>)" by (rule keeps_updates(1)) fact
  show ?case
    by (auto intro!: kept_from(1) [OF u] kept_bind user_call_kept UCall.IH dest: keeps_sound
        simp: keeps_sound [OF u])
qed (simp_all add: keeps_updates)

lemma lock_broadcast_kept:
  "sound p m \<Longrightarrow> (\<And>e. ev = Some e \<Longrightarrow> e < length (p_events p)) \<Longrightarrow>
    kept p m (lock_broadcast ops ev m)"
  by (cases ev) (auto simp: lock_broadcast_def intro: broadcast_kept keeps_refl)

lemma enex_action_kept: "sound p m \<Longrightarrow> kept p m (enex_action p ops act s t m)"
  by (cases act) (auto simp: enex_action_def intro: run_action_kept keeps_refl)

lemma state_events:
  assumes wf: "wf_program p" and "valid_sptr p s"
  shows "sd_enter_event (state_of p s) = Some e \<Longrightarrow> e < length (p_events p)"
    and "sd_exit_event (state_of p s) = Some e \<Longrightarrow> e < length (p_events p)"
proof -
  have "s \<in> set (all_states p)" using assms set_all_states [of p] by blast
  then have "(case sd_enter_event (state_of p s) of None \<Rightarrow> True | Some e \<Rightarrow> e < length (p_events p)) \<and>
     (case sd_exit_event (state_of p s) of None \<Rightarrow> True | Some e \<Rightarrow> e < length (p_events p))"
    using wf unfolding wf_program_def wf_state_events_def by blast
  then show "sd_enter_event (state_of p s) = Some e \<Longrightarrow> e < length (p_events p)"
    "sd_exit_event (state_of p s) = Some e \<Longrightarrow> e < length (p_events p)" by simp_all
qed

lemma switch_kept:
  assumes m: "sound p m" and s: "valid_sptr p s" "parent_of p s = Some q"
  shows "kept2 p m (switch_active_child_to p q s m)"
  using keeps_set_child(3) [OF m s]
  by (auto simp: switch_active_child_to_def keeps_refl [OF m] split: kind.split option.split)

lemma enter_parent_kept:
  assumes m: "sound p m" and s: "valid_sptr p s"
  shows "kept2 p m (enter_parent p ops s t m)"
proof (cases "parent_of p s")
  case None
  then show ?thesis by (simp add: enter_parent_def keeps_refl [OF m])
next
  case (Some q)
  have "kept2 p m (op_enter ops q t (Some s) m)"
    by (rule enter_kept [OF m wf_parent(1) [OF wf_parts(1) [OF m] s Some]]) (use s Some in auto)
  then show ?thesis
    using switch_kept [OF m s Some]
    by (auto simp: enter_parent_def Some intro!: kept_bind intro: keeps_again)
qed

lemma state_enter_kept:
  assumes m: "sound p m" and s: "valid_sptr p s"
  shows "kept2 p m (state_enter p ops s t m)"
proof -
  have go: "kept2 p m1 (rbind (lock_broadcast ops (sd_enter_event (state_of p s))
        (set_state s STATE_ACTIVE m1))
      (\<lambda>m. rbind (enex_action p ops (sd_enter_action (state_of p s)) s t m) (\<lambda>m. Inr (True, m))))"
    if m1: "sound p m1" for m1
  proof -
    have a: "keeps p m1 (set_state s STATE_ACTIVE m1)" by (rule keeps_set_state [OF m1]) simp
    show ?thesis
      by (auto intro!: kept_from(2) [OF a] kept_bind lock_broadcast_kept enex_action_kept
          state_events(1) [OF sound_wf [OF m] s] keeps_sound [OF a] dest: keeps_sound intro: keeps_again)
  qed
  show ?thesis
    by (auto simp: state_enter_def keeps_refl [OF m] simp del: rbind_assoc
        intro!: kept_bind(4) [OF enter_parent_kept [OF m s]] go intro: keeps_again keeps_sound)
qed

lemma cluster_enter_child_kept:
  assumes m: "sound p m" and s: "valid_sptr p s"
    and f: "\<And>c. f = Some c \<Longrightarrow> valid_sptr p c \<and> parent_of p c = Some s"
  shows "kept2 p m (cluster_enter_child p ops s t f m)"
proof (cases f)
  case (Some c)
  then show ?thesis using keeps_set_child(3) [OF m] f by (simp add: cluster_enter_child_def)
next
  case None
  have sub: "kept2 p m1 (rbind (op_enter ops c t None
      (m1\<lparr>active_child := (active_child m1)(s := Some c)\<rparr>)) (\<lambda>(_, m). Inr (True, m)))"
    if m1: "sound p m1" "last_child m1 s = Some c" for m1 c
  proof -
    have c: "valid_sptr p c" "parent_of p c = Some s"
      using m1 typed_childD [of p "last_child m1" s c] by (auto simp: sound_def typed_def)
    note k = keeps_set_child(1) [OF m1(1) c]
    show ?thesis
      using c(1) by (auto intro!: kept_from(2) [OF k] kept_bind enter_kept keeps_sound [OF k]
          intro: keeps_again)
  qed
  have first: "kept p m (if last_child m s = None \<or> \<not> history (kind_of p s)
      then cluster_clear p s m else Inr m)"
    using cluster_clear_kept [OF m s] keeps_refl [OF m] by simp
  show ?thesis
    unfolding cluster_enter_child_def None option.case
    by (rule kept_bind(3) [OF first]) (auto intro!: sub keeps_sound split: option.split)
qed

lemma enter_body_kept:
  assumes m: "sound p m" and s: "valid_sptr p s"
    and f: "\<And>c. f = Some c \<Longrightarrow> valid_sptr p c \<and> parent_of p c = Some s"
  shows "kept2 p m (enter_body p ops s t f m)"
proof (cases "kind_of p s")
  case Plain
  then show ?thesis using state_enter_kept [OF m s] by (simp add: enter_body_def)
next
  case (Cluster h cs)
  then show ?thesis
    using f by (auto simp: enter_body_def cluster_enter_def
        intro!: kept_bind(4) [OF state_enter_kept [OF m s]] cluster_enter_child_kept s
        intro: keeps_again keeps_sound)
next
  case (Set cs)
  have "valid_sptr p (St c)" if "c \<in> set cs" for c
    using wf_children(1) [OF wf_parts(1) [OF m] s] Set that by simp
  then show ?thesis
    using Set apply (auto simp: enter_body_def set_enter_def simp del: valid_sptr.simps
        intro!: kept_bind(4) [OF state_enter_kept [OF m s]] kept_bind kept_iter enter_kept)
    by (blast intro: keeps_again keeps_sound)+
qed

lemma exit_parent_kept:
  assumes m: "sound p m" and s: "valid_sptr p s"
  shows "kept p m (exit_parent p ops s t to m)"
proof (cases "to = None \<or> parent_of p s = None")
  case True
  then show ?thesis by (auto simp: exit_parent_def keeps_refl [OF m] split: option.split)
next
  case False
  then obtain a q where aq: "to = Some a" "parent_of p s = Some q" by auto
  have "kept p m (rbind (op_exit ops q t to m) (\<lambda>(_, m). Inr m))"
    by (auto intro!: kept_bind exit_kept m wf_parent(1) [OF wf_parts(1) [OF m] s aq(2)] intro: keeps_again)
  then show ?thesis
    by (cases "find_ancestor p (Some q) (parent_of p a)")
      (auto simp: exit_parent_def aq keeps_refl [OF m])
qed

lemma state_exit_kept:
  assumes m: "sound p m" and s: "valid_sptr p s"
  shows "kept2 p m (state_exit p ops s t to m)"
proof -
  have a: "keeps p m (set_state s STATE_INACTIVE m)" by (rule keeps_set_state [OF m]) simp
  have "kept2 p m (rbind (lock_broadcast ops (sd_exit_event (state_of p s))
        (set_state s STATE_INACTIVE m))
      (\<lambda>m. rbind (enex_action p ops (sd_exit_action (state_of p s)) s t m)
        (\<lambda>m. rbind (exit_parent p ops s t to m) (\<lambda>m. Inr (True, m)))))"
    by (auto intro!: kept_from(2) [OF a] kept_bind lock_broadcast_kept enex_action_kept
        exit_parent_kept s state_events(2) [OF sound_wf [OF m] s] keeps_sound [OF a] dest: keeps_sound
        intro: keeps_again)
  then show ?thesis by (simp add: state_exit_def keeps_refl [OF m])
qed

lemma exit_body_kept:
  assumes m: "sound p m" and s: "valid_sptr p s"
  shows "kept2 p m (exit_body p ops s t to m)"
proof (cases "kind_of p s")
  case Plain
  then show ?thesis using state_exit_kept [OF m s] by (simp add: exit_body_def)
next
  case (Cluster h cs)
  show ?thesis
  proof (cases "active_child m s")
    case (Some c)
    then have c: "valid_sptr p c"
      using m typed_childD [of p "active_child m" s c] by (auto simp: sound_def typed_def)
    show ?thesis
      using Some Cluster by (auto simp: exit_body_def cluster_exit_def keeps_refl [OF m]
          intro!: kept_bind(4) [OF exit_kept [OF m c]] state_exit_kept s intro: keeps_sound)
  qed (simp add: exit_body_def cluster_exit_def Cluster keeps_refl [OF m])
next
  case (Set cs)
  have cs: "valid_sptr p (St c)" if "c \<in> set cs" for c
    using wf_children(1) [OF wf_parts(1) [OF m] s] Set that by simp
  have "kept p m (iter_res (\<lambda>c m. rbind (op_exit ops c t None m) (\<lambda>(_, m). Inr m)) (map St cs) m)"
    by (rule kept_iter)
      (auto intro!: kept_bind exit_kept cs m simp del: valid_sptr.simps intro: keeps_again)
  then show ?thesis
    using Set by (auto simp: exit_body_def set_exit_def keeps_refl [OF m]
        intro!: kept_bind(3) state_exit_kept s intro: keeps_sound)
qed

lemma share_params_eq:
  "\<exists>v. share_params p e m = m\<lparr>ev_param := v\<rparr>"
proof -
  define step where
    "step = (\<lambda>base (m :: ('u, 'p) mstate). m\<lparr>ev_param := (ev_param m)(base := ev_param m e)\<rparr>)"
  have "\<exists>v. fold step xs (m\<lparr>ev_param := w\<rparr>) = m\<lparr>ev_param := v\<rparr>" for xs m w
  proof (induction xs arbitrary: w)
    case (Cons x xs)
    have "step x (m\<lparr>ev_param := w\<rparr>) = m\<lparr>ev_param := w(x := w e)\<rparr>" by (simp add: step_def)
    then show ?case using Cons [of "w(x := w e)"] by (simp only: fold_simps)
  qed auto
  from this [of _ "ev_param m" m] show ?thesis by (simp add: share_params_def step_def)
qed

lemma share_params_keeps: "sound p m \<Longrightarrow> keeps p m (share_params p e m)"
  using share_params_eq [of e m] keeps_updates(2) by metis

lemma taken_from:
  assumes m: "sound p m" and "taken m t = Some e"
  shows "valid_sptr p (St (tr_from (transition_of p t)))"
proof -
  have "e < length (p_events p)" "t \<in> set (transition_ids p e)"
    using assms by (auto simp: sound_def typed_def)
  then show ?thesis
    using wf_parts(4) [OF m] wf_parts(6) [OF m] unfolding wf_transition_def by blast
qed

lemma exit_from_kept:
  assumes m: "sound p m"
  shows "kept p m (exit_from p ops e t m)"
proof (cases "taken m t = Some e \<and> active m (St (tr_from (transition_of p t)))")
  case True
  note src = taken_from [OF m, of t e]
  have "kept2 p m (if is_internal (transition_of p t) then Inr (True, m)
      else op_exit ops (St (tr_from (transition_of p t))) (Ev e) (target m t) m)"
    using exit_kept [OF m src] True by (simp add: keeps_refl [OF m])
  then have "kept p m (rbind (if is_internal (transition_of p t) then Inr (True, m)
      else op_exit ops (St (tr_from (transition_of p t))) (Ev e) (target m t) m)
        (\<lambda>(exited, m). case tr_action (transition_of p t) of
            Some a \<Rightarrow> if exited then run_action p ops (a e m) m else Inr m
          | None \<Rightarrow> Inr m))"
    by (rule kept_bind(2))
      (auto intro!: run_action_kept split: option.split intro: keeps_again keeps_sound)
  then show ?thesis
    using True unfolding exit_from_def Let_def by (simp only: simp_thms if_False if_True)
qed (auto simp: exit_from_def Let_def keeps_refl [OF m] keeps_untake [OF m])

lemma enter_to_kept:
  assumes m: "sound p m"
  shows "kept p m (enter_to p ops e t m)"
proof (cases "taken m t = Some e")
  case True
  have "kept2 p m (op_enter ops s (Ev e) None m)" if "target m t = Some s" for s
    by (rule enter_kept [OF m]) (use m that in \<open>auto simp: sound_def typed_def\<close>)
  then have "kept p m (if is_internal (transition_of p t) then Inr m
      else case target m t of None \<Rightarrow> Inl BadAccess
         | Some s \<Rightarrow> rbind (op_enter ops s (Ev e) None m) (\<lambda>(_, m). Inr m))"
    by (auto simp: keeps_refl [OF m] intro!: kept_bind intro: keeps_again split: option.split)
  from kept_bind(1) [OF this] show ?thesis
    using True unfolding enter_to_def by (simp add: keeps_untake keeps_sound)
qed (simp add: enter_to_def keeps_refl [OF m])

lemma phase_exit_kept: "sound p m \<Longrightarrow> kept p m (phase_exit p ops evs m)"
  unfolding phase_exit_def
proof (rule kept_iter)
  fix e and m :: "('u, 'p) mstate"
  assume "sound p m"
  note share = share_params_keeps [OF this]
  show "kept p m (iter_res (exit_from p ops e) (transition_ids p e) (share_params p e m))"
    by (rule kept_from(1) [OF share], rule kept_iter)
      (simp_all add: exit_from_kept keeps_sound [OF share])
qed

lemma phase_enter_kept: "sound p m \<Longrightarrow> kept p m (phase_enter p ops evs m)"
  unfolding phase_enter_def by (rule kept_iter) (auto intro!: kept_iter enter_to_kept)

lemma phase_dequeue_drains:
  "sound p m \<Longrightarrow> in_progress m \<Longrightarrow> n \<le> length (event_queue m) \<Longrightarrow>
    wp (phase_dequeue n p m)
      (\<lambda>m'. sound p m' \<and> in_progress m' \<and> event_queue m' = drop n (event_queue m))"
proof (induction n arbitrary: m)
  case (Suc n)
  obtain e q where q: "event_queue m = e # q" using Suc.prems(3) by (cases "event_queue m") auto
  let ?m = "(broadcasted p e m)\<lparr>event_queue := q\<rparr>"
  have "accounted p m" using Suc.prems(1) by (simp add: sound_def)
  note d = accounted_dequeue [OF wf_parts(3) [OF Suc.prems(1)] this q]
  have "sound p ?m" using Suc.prems d by (simp add: sound_def)
  then show ?case using Suc.IH [of ?m] Suc.prems q d(2) by (simp add: Let_def)
qed simp

lemma micro_step_sound:
  assumes m: "sound p m" "in_progress m"
  shows "wlp (micro_step p ops m) (\<lambda>m'. sound p m' \<and> in_progress m')"
proof -
  have "wlp (phase_dequeue (length (event_queue m)) p m2) (\<lambda>m'. sound p m' \<and> in_progress m')"
    if "keeps p m m1" "keeps p m1 m2" for m1 m2
  proof -
    have k: "keeps p m m2" using that keeps_trans by blast
    then have "sound p m2" "in_progress m2" "length (event_queue m) \<le> length (event_queue m2)"
      using m prefix_length_le by (auto simp: keeps_def)
    then show ?thesis
      using wp_wlp [OF phase_dequeue_drains [of m2 "length (event_queue m)"]]
      by (auto elim!: wlp_mono)
  qed
  note fin = this
  have "wlp (phase_exit p ops evs m) (keeps p m)" for evs
    using phase_exit_kept [OF m(1)] by (simp add: kept_def)
  moreover have "wlp (phase_enter p ops evs m1) (keeps p m1)" if "keeps p m m1" for evs m1
    using phase_enter_kept [OF keeps_sound [OF that]] by (simp add: kept_def)
  ultimately show ?thesis
    unfolding micro_step_def Let_def wlp_simps by (blast intro: wlp_mono fin)
qed

lemma loop_body_drains:
  assumes m: "sound p m" "in_progress m"
  shows "wlp (loop_body p ops m) (\<lambda>m'. sound p m' \<and> in_progress m' \<and> event_queue m' = [])"
  using micro_step_sound [OF m] m
  by (auto simp: loop_body_def intro: loop_drains elim!: wlp_mono)

lemma algorithm_kept:
  assumes "wf_program p" "typed p m" "accounted p m"
  shows "if in_progress m then algorithm ops m = Inr m
    else wlp (algorithm ops m) (\<lambda>m'. sound p m' \<and> \<not> in_progress m')"
proof (cases "in_progress m")
  case False
  have "sound p (m\<lparr>in_progress := True\<rparr>)" using assms by (simp add: sound_def)
  from loop_drains [OF this] show ?thesis
    using False by (auto simp: algorithm_def sound_def at_rest_def elim!: wlp_mono)
qed (simp add: algorithm_def)

lemma broadcast_body_kept:
  assumes m: "sound p m" and e: "e < length (p_events p)"
  shows "kept p m (broadcast_body p ops e b m)"
proof (cases "ev_in_progress m e > 0")
  case False
  define m1 where "m1 = (mark_in_progress p e m)\<lparr>ev_param := (ev_param m)(e := b)\<rparr>"
  note mark = mark_in_progress_eq [OF event_chain_distinct [OF wf_parts(3) [OF m] e], of m]
  have m1: "typed p m1" "event_queue m1 = event_queue m" "in_progress m1 = in_progress m"
    "ev_in_progress m1 = ev_in_progress (mark_in_progress p e m)"
    using m by (simp_all add: m1_def mark sound_def)
  have cancelled: "keeps p m (broadcasted p e m2)" and queued: "kept p m (algorithm ops (m2\<lparr>event_queue := event_queue m2 @ [e]\<rparr>))"
    if m2: "marks_only m1 m2" "typed p m2" for m2
  proof -
    have sel: "ev_in_progress m2 = ev_in_progress (mark_in_progress p e m)"
      "event_queue m2 = event_queue m" "in_progress m2 = in_progress m"
      using m2(1) m1 by (simp_all add: marks_only_def)
    note bm = broadcasted_mark [OF wf_parts(3) [OF m] e sel(1)]
    show "keeps p m (broadcasted p e m2)"
      by (rule keeps_typed [OF m]) (simp_all add: m2(2) sel, simp add: bm)
    have a: "accounted p (m2\<lparr>event_queue := event_queue m2 @ [e]\<rparr>)"
      by (rule accounted_enqueue [OF wf_parts(3) [OF m] _ e])
        (use m False in \<open>simp_all add: sel sound_def\<close>)
    then show "kept p m (algorithm ops (m2\<lparr>event_queue := event_queue m2 @ [e]\<rparr>))"
      using algorithm_kept [OF sound_wf [OF m] _ a] m2 sel sound_wf [OF m]
      by (cases "in_progress m") (auto simp: kept_def keeps_def sound_def elim!: wlp_mono)
  qed
  have find: "wlp (if precondition_true p e b m1 then find_transition p e m1 else Inr (False, m1))
      (\<lambda>(_, m2). marks_only m1 m2 \<and> typed p m2)"
    using find_transition_keeps [OF sound_wf [OF m] e m1(1)] m1(1) by simp
  have "m\<lparr>ev_in_progress := x, ev_param := v\<rparr> = m1" if "mark_in_progress p e m = m\<lparr>ev_in_progress := x\<rparr>"
      "v = (ev_param m)(e := b)" for x v
    using that by (simp add: m1_def)
  then have "broadcast_body p ops e b m =
      rbind (if precondition_true p e b m1 then find_transition p e m1 else Inr (False, m1))
        (\<lambda>(found, m). if found then algorithm ops (m\<lparr>event_queue := event_queue m @ [e]\<rparr>)
                      else Inr (broadcasted p e m))"
    using False by (simp add: broadcast_body_def Let_def m1_def mark)
  then show ?thesis
    using find cancelled queued unfolding kept_def by (auto elim!: wlp_mono)
qed (simp add: broadcast_body_def keeps_refl [OF m])

end

lemma accounted_ops_at: "accounted_ops p (ops_at n p)"
proof (induction n)
  case 0
  show ?case by unfold_locales simp_all
next
  case (Suc n)
  note step = accounted_ops.enter_body_kept [OF Suc] accounted_ops.exit_body_kept [OF Suc]
    accounted_ops.broadcast_body_kept [OF Suc] accounted_ops.loop_body_drains [OF Suc]
  show ?case by unfold_locales (simp_all add: step)
qed

interpretation acct: accounted_ops p "ops_at n p"
  for p :: "('u, 'p) program" and n :: nat
  by (rule accounted_ops_at)

end
