(* ===== verification/Chsm_Config.thy ===== *)
theory Chsm_Config
  imports Chsm_Accounting
begin

text \<open>
  Configurations: which sets of active states the library means to maintain.  A
  configuration is legal when the root is active, the parent of an active state is
  active, an active cluster has exactly one active child, the one its \<^verbatim>\<open>active_child_\<close>
  points to, and all children of an active set are active.  The second half of the theory
  shows that hooks (enter and exit events, actions) that run inside the algorithm and
  only broadcast leave the configuration alone.
\<close>

section \<open>Subtrees\<close>

definition below :: "('u, 'p) program \<Rightarrow> sptr \<Rightarrow> sptr \<Rightarrow> bool" where
  "below p s x \<longleftrightarrow> s \<in> set (ancestors p (Some x))"

lemma below_refl [simp]: "wf_states p \<Longrightarrow> valid_sptr p s \<Longrightarrow> below p s s"
  by (simp add: below_def)

lemma below_trans:
  "wf_states p \<Longrightarrow> valid_sptr p x \<Longrightarrow> below p b x \<Longrightarrow> below p a b \<Longrightarrow> below p a x"
  unfolding below_def by (rule ancestors_trans)

lemma below_antisym:
  "wf_states p \<Longrightarrow> valid_sptr p x \<Longrightarrow> below p y x \<Longrightarrow> below p x y \<Longrightarrow> x = y"
  unfolding below_def by (rule ancestors_antisym)

lemma below_valid: "wf_states p \<Longrightarrow> valid_sptr p x \<Longrightarrow> below p s x \<Longrightarrow> valid_sptr p s"
  unfolding below_def using ancestors_valid by blast

lemma below_rank: "wf_states p \<Longrightarrow> valid_sptr p x \<Longrightarrow> below p s x \<Longrightarrow> rank s \<le> rank x"
  unfolding below_def using ancestors_valid by blast

lemma below_unfold:
  assumes "wf_states p" "valid_sptr p x"
  shows "below p s x \<longleftrightarrow> s = x \<or> (\<exists>q. parent_of p x = Some q \<and> below p s q)"
  using ancestors_unfold [OF assms] by (cases "parent_of p x") (auto simp: below_def)

lemma below_parent:
  "wf_states p \<Longrightarrow> valid_sptr p x \<Longrightarrow> parent_of p x = Some q \<Longrightarrow> below p s q \<Longrightarrow> below p s x"
  by (simp add: below_unfold [of p x])

lemma below_child:
  "wf_states p \<Longrightarrow> valid_sptr p x \<Longrightarrow> parent_of p x = Some q \<Longrightarrow> below p q x"
  using below_parent [of p x q q] wf_parent(1) [of p x q] by simp

lemma not_below_parent:
  "wf_states p \<Longrightarrow> valid_sptr p x \<Longrightarrow> parent_of p x = Some q \<Longrightarrow> \<not> below p x q"
  using below_rank [of p q x] wf_parent [of p x q] by auto

lemma below_linear:
  assumes "wf_states p" "valid_sptr p x" "below p a x" "below p b x"
  shows "below p a b \<or> below p b a"
  using assms ancestors_linear [OF assms(1,2)] unfolding below_def by blast

text \<open>A state strictly below \<open>s\<close> is below exactly one child of \<open>s\<close>.\<close>

lemma below_via_child:
  assumes p: "wf_states p" and x: "valid_sptr p x"
  shows "below p s x \<Longrightarrow> x \<noteq> s \<Longrightarrow> \<exists>c \<in> set (children p s). below p c x"
  using p x
proof (induction rule: ancestors_induct)
  case (step x)
  then obtain q where q: "parent_of p x = Some q" "below p s q"
    using below_unfold [OF p step.hyps] by auto
  note v = wf_parent [OF p step.hyps q(1)]
  show ?case
  proof (cases "q = s")
    case True
    then show ?thesis using v(3) p step.hyps by (metis below_refl)
  next
    case False
    then show ?thesis using step.IH [OF q(1) v(1) q(2)] below_parent [OF p step.hyps q(1)] by blast
  qed
qed

lemma child_below:
  assumes p: "wf_states p" and s: "valid_sptr p s" and c: "c \<in> set (children p s)"
  shows "valid_sptr p c" "parent_of p c = Some s" "rank s < rank c" "below p s c" "\<not> below p c s"
  using wf_children [OF p s] c below_child [OF p, of c s] not_below_parent [OF p, of c s] by auto

lemma siblings_disjoint:
  assumes p: "wf_states p" and x: "valid_sptr p x" and s: "valid_sptr p s"
    and c: "c \<in> set (children p s)" "d \<in> set (children p s)" "below p c x" "below p d x"
  shows "c = d"
proof -
  note cv = child_below [OF p s c(1)] and dv = child_below [OF p s c(2)]
  have "below p c d \<or> below p d c" using below_linear [OF p x c(3,4)] .
  then show ?thesis
    using below_unfold [OF p dv(1), of c] below_unfold [OF p cv(1), of d] cv dv by auto
qed

section \<open>Legal configurations\<close>

definition tidy_at :: "('u, 'p) program \<Rightarrow> ('u, 'p) mstate \<Rightarrow> sptr \<Rightarrow> bool" where
  "tidy_at p m x \<longleftrightarrow> (active m x \<longrightarrow>
     (case parent_of p x of None \<Rightarrow> True | Some q \<Rightarrow> active m q) \<and>
     (if is_cluster (kind_of p x) then
        (case active_child m x of
           None \<Rightarrow> False
         | Some c \<Rightarrow> \<forall>c' \<in> set (children p x). active m c' \<longrightarrow> c' = c)
      else True))"

definition node_ok :: "('u, 'p) program \<Rightarrow> ('u, 'p) mstate \<Rightarrow> sptr \<Rightarrow> bool" where
  "node_ok p m x \<longleftrightarrow> (active m x \<longrightarrow>
     (case kind_of p x of
        Plain \<Rightarrow> True
      | Cluster _ cs \<Rightarrow> \<exists>c \<in> set (map St cs). active m c
      | Set cs \<Rightarrow> \<forall>c \<in> set (map St cs). active m c))"

definition tidy :: "('u, 'p) program \<Rightarrow> ('u, 'p) mstate \<Rightarrow> bool" where
  "tidy p m \<longleftrightarrow> (\<forall>x \<in> set (all_states p). tidy_at p m x)"

definition legal_config :: "('u, 'p) program \<Rightarrow> ('u, 'p) mstate \<Rightarrow> bool" where
  "legal_config p m \<longleftrightarrow>
     active m Root \<and> (\<forall>x \<in> set (all_states p). tidy_at p m x \<and> node_ok p m x)"

lemma tidy_iff: "tidy p m \<longleftrightarrow> (\<forall>x. valid_sptr p x \<longrightarrow> tidy_at p m x)"
  unfolding tidy_def set_all_states by simp

lemma legal_config_iff:
  "legal_config p m \<longleftrightarrow> active m Root \<and> tidy p m \<and> (\<forall>x. valid_sptr p x \<longrightarrow> node_ok p m x)"
  unfolding legal_config_def tidy_def set_all_states by auto

lemma tidy_parent:
  "tidy p m \<Longrightarrow> valid_sptr p x \<Longrightarrow> active m x \<Longrightarrow> parent_of p x = Some q \<Longrightarrow> active m q"
  by (auto simp: tidy_iff tidy_at_def)

lemma tidy_child:
  assumes "tidy p m" "valid_sptr p x" "active m x" "is_cluster (kind_of p x)"
  shows "\<exists>c. active_child m x = Some c \<and> (\<forall>c' \<in> set (children p x). active m c' \<longrightarrow> c' = c)"
proof -
  have "tidy_at p m x" using assms(1,2) by (simp add: tidy_iff)
  then show ?thesis using assms(3,4) by (cases "active_child m x") (auto simp: tidy_at_def)
qed

lemma tidy_ancestors:
  assumes p: "wf_states p" and x: "valid_sptr p x"
  shows "tidy p m \<Longrightarrow> active m x \<Longrightarrow> below p s x \<Longrightarrow> active m s"
  using p x
proof (induction rule: ancestors_induct)
  case (step x)
  show ?case
  proof (cases "s = x")
    case False
    then obtain q where q: "parent_of p x = Some q" "below p s q"
      using step.prems(3) below_unfold [OF p step.hyps, of s] by auto
    then show ?thesis
      using step.IH [OF q(1) wf_parent(1) [OF p step.hyps q(1)]] step.prems
        tidy_parent [OF _ step.hyps _ q(1)] by blast
  qed (use step.prems in simp)
qed

lemma tidy_inactive:
  "wf_states p \<Longrightarrow> tidy p m \<Longrightarrow> valid_sptr p x \<Longrightarrow> below p s x \<Longrightarrow> \<not> active m s \<Longrightarrow> \<not> active m x"
  using tidy_ancestors by blast

text \<open>In a legal configuration the choice of \<open>active_child\<close> is the active one.\<close>

lemma legal_active_child:
  assumes p: "wf_states p" and m: "legal_config p m"
    and x: "valid_sptr p x" "active m x" "is_cluster (kind_of p x)"
  shows "\<exists>c \<in> set (children p x). active_child m x = Some c \<and> active m c"
proof -
  have t: "tidy p m" and n: "node_ok p m x" using m x by (auto simp: legal_config_iff)
  obtain c where c: "active_child m x = Some c"
    "\<forall>c' \<in> set (children p x). active m c' \<longrightarrow> c' = c" using tidy_child [OF t x] by blast
  obtain d where d: "d \<in> set (children p x)" "active m d"
    using n x by (cases "kind_of p x") (auto simp: node_ok_def)
  then show ?thesis using c by auto
qed

section \<open>Quiet hooks\<close>

text \<open>
  Calm user code only broadcasts events of the machine.  When it runs inside the
  algorithm the broadcast queues the event and marks transitions, nothing else.
\<close>

primrec calm_code :: "('u, 'p) program \<Rightarrow> ('u, 'p) code \<Rightarrow> bool" where
  "calm_code p (UReturn u) = True"
| "calm_code p (URaise u) = True"
| "calm_code p (UCall u c k) =
     ((case c of Call_broadcast e _ \<Rightarrow> e < length (p_events p) | _ \<Rightarrow> False) \<and>
      (\<forall>m. calm_code p (k m)))"

definition calm :: "('u, 'p) program \<Rightarrow> bool" where
  "calm p \<longleftrightarrow>
     (\<forall>s \<in> set (all_states p).
        (case sd_enter_action (state_of p s) of None \<Rightarrow> True | Some a \<Rightarrow> \<forall>t m. calm_code p (a s t m)) \<and>
        (case sd_exit_action (state_of p s) of None \<Rightarrow> True | Some a \<Rightarrow> \<forall>t m. calm_code p (a s t m))) \<and>
     (\<forall>td \<in> set (p_transitions p).
        (case tr_action td of None \<Rightarrow> True | Some a \<Rightarrow> \<forall>e m. calm_code p (a e m)))"

definition hookless :: "('u, 'p) program \<Rightarrow> bool" where
  "hookless p \<longleftrightarrow> (\<forall>s \<in> set (all_states p).
     Option.is_none (sd_enter_event (state_of p s)) \<and> Option.is_none (sd_exit_event (state_of p s)) \<and>
     Option.is_none (sd_enter_action (state_of p s)) \<and> Option.is_none (sd_exit_action (state_of p s)))"

lemma calm_idle:
  "hookless p \<Longrightarrow> \<forall>td \<in> set (p_transitions p). Option.is_none (tr_action td) \<Longrightarrow> calm p"
  unfolding calm_def hookless_def Option.is_none_def by fastforce

definition static_targets :: "('u, 'p) program \<Rightarrow> bool" where
  "static_targets p \<longleftrightarrow> (\<forall>td \<in> set (p_transitions p). Option.is_none (tr_target td))"

definition quiet :: "('u, 'p) program \<Rightarrow> ('u, 'p) mstate \<Rightarrow> bool" where
  "quiet p m \<longleftrightarrow> sound p m \<and> no_empty_parents p \<and>
     (in_progress m \<and> static_targets p \<and> calm p \<or> hookless p)"

definition same_config :: "('u, 'p) mstate \<Rightarrow> ('u, 'p) mstate \<Rightarrow> bool" where
  "same_config m m' \<longleftrightarrow> active m' = active m \<and> active_child m' = active_child m \<and>
     last_child m' = last_child m"

lemma same_config_refl [simp]: "same_config m m"
  by (simp add: same_config_def)

lemma same_config_trans: "same_config m m' \<Longrightarrow> same_config m' m'' \<Longrightarrow> same_config m m''"
  by (simp add: same_config_def)

text \<open>
  The marks of the transitions: with static targets the stored target of a marked
  transition is the one in the table; a mark is never overwritten, and new marks belong
  to events that were not in the queue.
\<close>

definition aimed :: "('u, 'p) program \<Rightarrow> ('u, 'p) mstate \<Rightarrow> bool" where
  "aimed p m \<longleftrightarrow> (\<forall>t. taken m t \<noteq> None \<longrightarrow> \<not> is_internal (transition_of p t) \<longrightarrow>
     target m t = map_option St (tr_to (transition_of p t)))"

definition marks_kept ::
  "('u, 'p) program \<Rightarrow> event_id set \<Rightarrow> ('u, 'p) mstate \<Rightarrow> ('u, 'p) mstate \<Rightarrow> bool" where
  "marks_kept p new m m' \<longleftrightarrow>
     (\<forall>t x. taken m t = Some x \<longrightarrow> taken m' t = Some x) \<and>
     (\<forall>t x. taken m' t = Some x \<longrightarrow> taken m t = Some x \<or> x \<in> new) \<and>
     (static_targets p \<and> aimed p m \<longrightarrow> aimed p m')"

definition steady :: "('u, 'p) program \<Rightarrow> ('u, 'p) mstate \<Rightarrow> ('u, 'p) mstate \<Rightarrow> bool" where
  "steady p m m' \<longleftrightarrow> keeps p m m' \<and>
     (in_progress m \<longrightarrow> marks_kept p (- set (event_queue m)) m m')"

lemma marks_kept_refl [simp]: "marks_kept p E m m"
  by (simp add: marks_kept_def)

lemma marks_kept_trans:
  "marks_kept p E m m' \<Longrightarrow> marks_kept p E' m' m'' \<Longrightarrow> E' \<subseteq> E \<Longrightarrow> marks_kept p E m m''"
  unfolding marks_kept_def by blast

lemma marks_kept_mono: "marks_kept p E m m' \<Longrightarrow> E \<subseteq> E' \<Longrightarrow> marks_kept p E' m m'"
  unfolding marks_kept_def by blast

lemma marks_kept_same:
  "taken m' = taken m \<Longrightarrow> target m' = target m \<Longrightarrow> marks_kept p E m m'"
  by (simp add: marks_kept_def aimed_def)

lemma steady_refl: "sound p m \<Longrightarrow> steady p m m"
  by (simp add: steady_def keeps_refl)

lemma steady_again: "steady p m m' \<Longrightarrow> steady p m' m'"
  by (auto simp: steady_def intro: keeps_again)

lemma steady_trans:
  assumes "steady p m m'" "steady p m' m''"
  shows "steady p m m''"
proof -
  have "in_progress m \<Longrightarrow> - set (event_queue m') \<subseteq> - set (event_queue m)"
    using assms(1) set_mono_prefix by (auto simp: steady_def keeps_def)
  then show ?thesis
    using assms keeps_trans marks_kept_trans unfolding steady_def by (metis keeps_def)
qed

lemma steady_keeps: "steady p m m' \<Longrightarrow> keeps p m m'"
  by (simp add: steady_def)

lemma steady_sound: "steady p m m' \<Longrightarrow> sound p m'"
  by (simp add: steady_def keeps_def)

lemma steady_updates: "sound p m \<Longrightarrow> steady p m (m\<lparr>udata := u\<rparr>)"
  by (simp add: steady_def keeps_updates marks_kept_same)

lemma steady_set_state:
  "sound p m \<Longrightarrow> w \<in> {STATE_INACTIVE, STATE_ACTIVE, STATE_ACTIVE_DISABLED} \<Longrightarrow>
    steady p m (set_state s w m)"
  by (simp add: steady_def keeps_set_state marks_kept_same set_state_def
      keeps_set_state [unfolded set_state_def])

lemma steady_set_child:
  assumes "sound p m" "valid_sptr p c" "parent_of p c = Some s"
  shows "steady p m (m\<lparr>active_child := (active_child m)(s := Some c)\<rparr>)"
    "steady p m (m\<lparr>last_child := (last_child m)(s := Some c)\<rparr>)"
    "steady p m (m\<lparr>active_child := (active_child m)(s := Some c),
                  last_child := (last_child m)(s := Some c)\<rparr>)"
  using keeps_set_child [OF assms] by (simp_all add: steady_def marks_kept_same)

lemma quiet_wf: "quiet p m \<Longrightarrow> wf_states p"
  by (simp add: quiet_def sound_def wf_program_def)

lemma quiet_sound: "quiet p m \<Longrightarrow> sound p m"
  by (simp add: quiet_def)

lemma quiet_steady: "quiet p m \<Longrightarrow> steady p m m' \<Longrightarrow> quiet p m'"
  by (auto simp: quiet_def steady_def keeps_def)

text \<open>A run that succeeds, keeps the invariants and does not touch the configuration.\<close>

definition calmly :: "('u, 'p) program \<Rightarrow> ('u, 'p) mstate \<Rightarrow> err + ('u, 'p) mstate \<Rightarrow> bool" where
  "calmly p m r \<longleftrightarrow> wp r (\<lambda>m'. same_config m m' \<and> steady p m m')"

lemma calmly_Inr [simp]: "calmly p m (Inr m') \<longleftrightarrow> same_config m m' \<and> steady p m m'"
  by (simp add: calmly_def)

lemma calmly_bind:
  "calmly p m r \<Longrightarrow> (\<And>m'. same_config m m' \<Longrightarrow> steady p m m' \<Longrightarrow> calmly p m' (f m')) \<Longrightarrow>
    calmly p m (rbind r f)"
  unfolding calmly_def wp_simps
  by (erule wp_mono) (force elim!: wp_mono intro: same_config_trans steady_trans)

lemma calmly_from:
  "same_config m m1 \<Longrightarrow> steady p m m1 \<Longrightarrow> calmly p m1 r \<Longrightarrow> calmly p m r"
  unfolding calmly_def by (force elim!: wp_mono intro: same_config_trans steady_trans)

text \<open>With static targets, \<open>find_transition\<close> always succeeds.\<close>

lemma try_transition_marks:
  assumes p: "static_targets p" and t: "t < length (p_transitions p)"
  shows "wp (try_transition p e t st) (\<lambda>st'. marks_kept p {e} (snd st) (snd st'))"
proof -
  obtain found m where st: "st = (found, m)" by (cases st)
  have tr: "tr_target (transition_of p t) = None"
    using assms by (auto simp: static_targets_def transition_of_def Option.is_none_def)
  have marked: "marks_kept p {e} m (mark_taken e t m)" if "is_internal (transition_of p t)"
    using that by (auto simp: marks_kept_def mark_taken_def aimed_def)
  have aim: "marks_kept p {e} m (choose_target t from (St i) (mark_taken e t m))"
    if "tr_to (transition_of p t) = Some i" for i "from"
    using that by (auto simp: marks_kept_def mark_taken_def aimed_def choose_target_def set_state_def)
  show ?thesis
    using tr marked aim
    by (auto simp: st try_transition_def Let_def is_internal_def
        split: outcome.split bool.split option.split)
qed

lemma find_transition_marks:
  assumes p: "wf_program p" "static_targets p" and e: "e < length (p_events p)"
  shows "wp (find_transition p e m) (\<lambda>(_, m'). marks_kept p {e} m m')"
proof -
  have "wp (iter_res (try_transition p e) (transition_ids p e) (False, m))
      (\<lambda>st'. marks_kept p {e} m (snd st'))"
  proof (rule wp_iter_res_split [where P = "\<lambda>_ st'. marks_kept p {e} m (snd st')"])
    fix ys t zs and st :: "bool \<times> ('a, 'b) mstate"
    assume "transition_ids p e = ys @ t # zs" "marks_kept p {e} m (snd st)"
    then show "wp (try_transition p e t st) (\<lambda>st'. marks_kept p {e} m (snd st'))"
      using try_transition_marks [OF p(2), of t e st] wf_programD(6) [OF p(1) e, of t]
        marks_kept_trans [of p "{e}" m "snd st" "{e}"]
      by (auto elim!: wp_mono)
  qed simp
  then show ?thesis by (simp add: find_transition_def case_prod_unfold)
qed

lemma broadcast_in_progress:
  assumes m: "quiet p m" "in_progress m" and st: "static_targets p" and e: "e < length (p_events p)"
  shows "calmly p m (op_broadcast (ops_at (Suc n) p) e b m)"
proof -
  note s = quiet_sound [OF m(1)]
  have k: "wlp (broadcast_body p (ops_at n p) e b m) (keeps p m)"
    using acct.broadcast_body_kept [OF s e] by (simp add: kept_def)
  note mark = mark_in_progress_eq [OF event_chain_distinct [OF wf_parts(3) [OF s] e], of m]
  let ?P = "\<lambda>m'. same_config m m' \<and> marks_kept p (- set (event_queue m)) m m'"
  have "wp (broadcast_body p (ops_at n p) e b m) ?P"
  proof (cases "ev_in_progress m e > 0")
    case False
    define m1 where "m1 = (mark_in_progress p e m)\<lparr>ev_param := (ev_param m)(e := b)\<rparr>"
    have m1: "typed p m1" "same_config m m1" "in_progress m1" "marks_kept p {} m m1"
      using s m(2)
      by (simp_all add: m1_def mark sound_def same_config_def active_def fun_eq_iff marks_kept_same)
    have "e \<notin> set (event_queue m)"
      using not_queued [OF wf_parts(3) [OF s], of m e] s False by (simp add: sound_def)
    then have new: "{e} \<subseteq> - set (event_queue m)" by simp
    have P: "?P m2 \<and> in_progress m2" if "marks_kept p {e} m1 m2" "marks_only m1 m2" for m2
      using that m1 marks_kept_mono [OF marks_kept_trans [OF marks_kept_mono [OF m1(4)] that(1)] new]
      by (auto simp: marks_only_def same_config_def fun_eq_iff)
    have "wp (find_transition p e m1) (\<lambda>(_, m2). ?P m2 \<and> in_progress m2)"
      by (rule wp_mono [OF wp_conjI [OF find_transition_marks [OF sound_wf [OF s] st e]
              find_transition_keeps [OF sound_wf [OF s] e m1(1)]]])
        (use P in auto)
    then have find: "wp (if precondition_true p e b m1 then find_transition p e m1 else Inr (False, m1))
        (\<lambda>(_, m2). ?P m2 \<and> in_progress m2)"
      using P [of m1] by simp
    have cancelled: "?P (broadcasted p e m2)" if "?P m2" for m2
      using that by (simp add: same_config_def active_flag fun_eq_iff marks_kept_def aimed_def)
    have "broadcast_body p (ops_at n p) e b m =
        rbind (if precondition_true p e b m1 then find_transition p e m1 else Inr (False, m1))
          (\<lambda>(found, m). if found then algorithm (ops_at n p) (m\<lparr>event_queue := event_queue m @ [e]\<rparr>)
                        else Inr (broadcasted p e m))"
      using False by (simp add: broadcast_body_def Let_def m1_def mark)
    moreover have "?P (m2\<lparr>event_queue := q\<rparr>)" if "?P m2" for m2 q
      using that by (simp add: same_config_def active_flag fun_eq_iff marks_kept_def aimed_def)
    ultimately show ?thesis
      using find cancelled by (auto simp: algorithm_def elim!: wp_mono)
  qed (simp add: broadcast_body_def)
  then show ?thesis using k by (auto simp: calmly_def wp_iff wlp_iff steady_def)
qed

lemma calm_code_calmly:
  "calm_code p a \<Longrightarrow> quiet p m \<Longrightarrow> in_progress m \<Longrightarrow> static_targets p \<Longrightarrow>
    calmly p m (run_action p (ops_at (Suc n) p) a m)"
proof (induction a arbitrary: m)
  case (UCall u c k)
  then obtain e b where c: "c = Call_broadcast e b" "e < length (p_events p)"
    by (auto split: ucall.splits)
  let ?m = "m\<lparr>udata := u\<rparr>"
  have m: "same_config m ?m" "steady p m ?m"
    using UCall.prems steady_updates [OF quiet_sound] by (auto simp: same_config_def active_def fun_eq_iff)
  have q: "quiet p ?m" "in_progress ?m" using UCall.prems quiet_steady [OF _ m(2)] by auto
  have "calmly p ?m (rbind (op_broadcast (ops_at (Suc n) p) e b ?m)
      (\<lambda>m. run_action p (ops_at (Suc n) p) (k m) m))"
  proof (rule calmly_bind [OF broadcast_in_progress [OF q UCall.prems(4) c(2)]])
    fix m' assume k: "steady p ?m m'"
    have "quiet p m'" "in_progress m'"
      using quiet_steady [OF q(1) k] k q(2) by (auto simp: steady_def keeps_def)
    then show "calmly p m' (run_action p (ops_at (Suc n) p) (k m') m')"
      using UCall.IH [OF rangeI, of m' m'] UCall.prems(1,4) by simp
  qed
  from calmly_from [OF m this] show ?case using c by (simp add: user_call_def)
qed (auto simp: quiet_sound steady_updates same_config_def active_def fun_eq_iff)

lemma quiet_hooks:
  assumes m: "quiet p m" and s: "valid_sptr p s"
  shows "in_progress m \<and> static_targets p \<or>
      sd_enter_event (state_of p s) = None \<and> sd_exit_event (state_of p s) = None \<and>
      sd_enter_action (state_of p s) = None \<and> sd_exit_action (state_of p s) = None"
    and "sd_enter_action (state_of p s) = Some a \<Longrightarrow> calm_code p (a s t m')"
    and "sd_exit_action (state_of p s) = Some a \<Longrightarrow> calm_code p (a s t m')"
proof -
  have "s \<in> set (all_states p)" using s set_all_states [of p] by blast
  then show "in_progress m \<and> static_targets p \<or>
      sd_enter_event (state_of p s) = None \<and> sd_exit_event (state_of p s) = None \<and>
      sd_enter_action (state_of p s) = None \<and> sd_exit_action (state_of p s) = None"
    "sd_enter_action (state_of p s) = Some a \<Longrightarrow> calm_code p (a s t m')"
    "sd_exit_action (state_of p s) = Some a \<Longrightarrow> calm_code p (a s t m')"
    using m unfolding quiet_def calm_def hookless_def Option.is_none_def by fastforce+
qed

lemma lock_broadcast_calmly:
  assumes m: "quiet p m" and s: "valid_sptr p s"
  shows "calmly p m (lock_broadcast (ops_at (Suc n) p) (sd_enter_event (state_of p s)) m)"
    "calmly p m (lock_broadcast (ops_at (Suc n) p) (sd_exit_event (state_of p s)) m)"
proof -
  note h = quiet_hooks(1) [OF m s]
  note e = acct.state_events [OF sound_wf [OF quiet_sound [OF m]] s]
  show "calmly p m (lock_broadcast (ops_at (Suc n) p) (sd_enter_event (state_of p s)) m)"
    using h broadcast_in_progress [OF m _ _ e(1)] steady_refl [OF quiet_sound [OF m]]
    by (auto simp: lock_broadcast_def simp del: ops_at_sel split: option.split)
  show "calmly p m (lock_broadcast (ops_at (Suc n) p) (sd_exit_event (state_of p s)) m)"
    using h broadcast_in_progress [OF m _ _ e(2)] steady_refl [OF quiet_sound [OF m]]
    by (auto simp: lock_broadcast_def simp del: ops_at_sel split: option.split)
qed

lemma enex_action_calmly:
  assumes m: "quiet p m" and s: "valid_sptr p s"
  shows "calmly p m (enex_action p (ops_at (Suc n) p) (sd_enter_action (state_of p s)) s t m)"
    "calmly p m (enex_action p (ops_at (Suc n) p) (sd_exit_action (state_of p s)) s t m)"
  using quiet_hooks [OF m s] calm_code_calmly [OF _ m] steady_refl [OF quiet_sound [OF m]]
  by (auto simp: enex_action_def split: option.split)

end
