(* ===== verification/Chsm_Exit.thy ===== *)
theory Chsm_Exit
  imports Chsm_Config
begin

text \<open>
  Exiting states (\<^verbatim>\<open>state::exit\<close>, \<^verbatim>\<open>cluster::exit\<close>, \<^verbatim>\<open>set::exit\<close>): from a tidy
  configuration, an exit without a target deactivates exactly the subtree of the state;
  an exit towards a target climbs to the highest ancestor that does not contain the target
  and deactivates its subtree.  Both return with fuel linear in the number of states.
\<close>

definition exited :: "('u, 'p) program \<Rightarrow> sptr \<Rightarrow> ('u, 'p) mstate \<Rightarrow> ('u, 'p) mstate \<Rightarrow> bool" where
  "exited p s m m' \<longleftrightarrow>
     (\<forall>x. valid_sptr p x \<longrightarrow> active m' x = (active m x \<and> \<not> below p s x)) \<and>
     active_child m' = active_child m \<and> last_child m' = last_child m"

text \<open>The same, with the state itself still active.\<close>

definition emptied :: "('u, 'p) program \<Rightarrow> sptr \<Rightarrow> ('u, 'p) mstate \<Rightarrow> ('u, 'p) mstate \<Rightarrow> bool" where
  "emptied p s m m' \<longleftrightarrow>
     (\<forall>x. valid_sptr p x \<longrightarrow> active m' x = (active m x \<and> (x = s \<or> \<not> below p s x))) \<and>
     active_child m' = active_child m \<and> last_child m' = last_child m"

text \<open>Deactivating a set of states that is closed downwards steady a configuration tidy.\<close>

lemma tidy_shrink:
  assumes p: "wf_states p" and m: "tidy p m" and c: "active_child m' = active_child m"
    and a: "\<And>x. valid_sptr p x \<Longrightarrow> active m' x \<Longrightarrow> active m x"
    and q: "\<And>x q. valid_sptr p x \<Longrightarrow> active m' x \<Longrightarrow> parent_of p x = Some q \<Longrightarrow> active m q \<Longrightarrow>
      active m' q"
  shows "tidy p m'"
  unfolding tidy_iff
proof (intro allI impI)
  fix x assume x: "valid_sptr p x"
  show "tidy_at p m' x"
  proof (cases "active m' x")
    case True
    then have "active m x" "tidy_at p m x" using a [OF x] m x by (auto simp: tidy_iff)
    moreover have "active m c" if "c \<in> set (children p x)" "active m' c" for c
      using a that child_below(1) [OF p x] by blast
    ultimately show ?thesis
      using True q [OF x] c by (auto simp: tidy_at_def split: option.splits if_splits)
  qed (simp add: tidy_at_def)
qed

lemma exited_tidy:
  assumes p: "wf_states p" and m: "tidy p m" and e: "exited p s m m'"
  shows "tidy p m'"
proof (rule tidy_shrink [OF p m])
  fix x q assume "valid_sptr p x" "active m' x" "parent_of p x = Some q" "active m q"
  then show "active m' q"
    using e below_parent [OF p, of x q s] wf_parent(1) [OF p, of x q] by (auto simp: exited_def)
qed (use e in \<open>auto simp: exited_def\<close>)

lemma emptied_tidy:
  assumes p: "wf_states p" and m: "tidy p m" and e: "emptied p s m m'"
  shows "tidy p m'"
proof (rule tidy_shrink [OF p m])
  fix x q assume "valid_sptr p x" "active m' x" "parent_of p x = Some q" "active m q"
  then show "active m' q"
    using e below_parent [OF p, of x q s] not_below_parent [OF p, of x q] wf_parent(1) [OF p, of x q]
    by (auto simp: emptied_def)
qed (use e in \<open>auto simp: emptied_def\<close>)

lemma exited_inactive:
  assumes "wf_states p" "tidy p m" "\<not> active m s"
  shows "exited p s m m"
  using tidy_inactive [OF assms(1,2) _ _ assms(3)] by (auto simp: exited_def)

text \<open>Contracts of the two kinds of call.\<close>

definition exits :: "('u, 'p) program \<Rightarrow> ('u, 'p) ops \<Rightarrow> sptr \<Rightarrow> bool" where
  "exits p ops s \<longleftrightarrow> (\<forall>m t. quiet p m \<longrightarrow> tidy p m \<longrightarrow>
     wp (op_exit ops s t None m)
       (\<lambda>(b, m'). b = active m s \<and> exited p s m m' \<and> steady p m m'))"

lemma exit_children:
  assumes m: "quiet p m" "tidy p m" and cs: "\<And>c. c \<in> set cs \<Longrightarrow> exits p ops c"
  shows "wp (iter_res (\<lambda>c m. rbind (op_exit ops c t None m) (\<lambda>(_, m). Inr m)) cs m)
    (\<lambda>m'. (\<forall>x. valid_sptr p x \<longrightarrow> active m' x = (active m x \<and> \<not> (\<exists>c \<in> set cs. below p c x))) \<and>
      active_child m' = active_child m \<and> last_child m' = last_child m \<and> steady p m m' \<and> tidy p m')"
    (is "wp _ (?P cs)")
proof (rule wp_iter_res_split [where P = ?P])
  fix ys c zs m1
  assume cs': "cs = ys @ c # zs" and p1: "?P ys m1"
  have "quiet p m1" using p1 quiet_steady [OF m(1)] by blast
  moreover have "exits p ops c" using cs cs' by simp
  ultimately have "wp (op_exit ops c t None m1)
      (\<lambda>(b, m'). b = active m1 c \<and> exited p c m1 m' \<and> steady p m1 m')"
    using p1 by (simp add: exits_def)
  then show "wp (rbind (op_exit ops c t None m1) (\<lambda>(_, m). Inr m)) (?P (ys @ [c]))"
    using p1 exited_tidy [OF quiet_wf [OF m(1)], of m1 c] steady_trans
    by (auto simp: exited_def elim!: wp_mono)
qed (use m steady_refl quiet_sound in auto)

text \<open>The calls to the children, up to the call of \<^verbatim>\<open>state::exit\<close>.\<close>

lemma exit_body_emptied:
  assumes m: "quiet p m" "tidy p m" and s: "valid_sptr p s" "active m s"
    and cs: "\<And>c. c \<in> set (children p s) \<Longrightarrow> exits p ops c"
    and rest: "\<And>m1. emptied p s m m1 \<Longrightarrow> steady p m m1 \<Longrightarrow> tidy p m1 \<Longrightarrow>
      wp (state_exit p ops s t to m1) Q"
  shows "wp (exit_body p ops s t to m) Q"
proof (cases "kind_of p s")
  case Plain
  have "x = s" if "valid_sptr p x" "below p s x" for x
    using below_via_child [OF quiet_wf [OF m(1)] that] Plain by auto
  then have "emptied p s m m" by (auto simp: emptied_def)
  from rest [OF this steady_refl [OF quiet_sound [OF m(1)]] m(2)] show ?thesis
    using Plain by (simp add: exit_body_def)
next
  case (Cluster h cs')
  note p = quiet_wf [OF m(1)]
  obtain c where c: "active_child m s = Some c" "\<forall>c' \<in> set (children p s). active m c' \<longrightarrow> c' = c"
    using tidy_child [OF m(2) s] Cluster by auto
  have cv: "valid_sptr p c" "parent_of p c = Some s"
    using quiet_sound [OF m(1)] typed_childD [of p "active_child m" s c] c(1)
    by (auto simp: sound_def typed_def)
  then have cc: "c \<in> set (children p s)" using wf_child_iff [OF p s(1)] by blast
  have e: "wp (op_exit ops c t None m) (\<lambda>(b, m'). b = active m c \<and> exited p c m m' \<and> steady p m m')"
    using cs [OF cc] m by (simp add: exits_def)
  have emp: "emptied p s m m1" if "exited p c m m1" for m1
    unfolding emptied_def
  proof (intro conjI allI impI)
    fix x assume x: "valid_sptr p x"
    have "below p c x" if xs: "active m x" "below p s x" "x \<noteq> s"
    proof -
      obtain d where "d \<in> set (children p s)" "below p d x" using below_via_child [OF p x xs(2,3)] by blast
      then show ?thesis using tidy_ancestors [OF p x m(2) xs(1)] c(2) by metis
    qed
    moreover have "\<not> below p c s" "below p c x \<Longrightarrow> below p s x"
      using child_below [OF p s(1) cc] below_trans [OF p x] by blast+
    ultimately show "active m1 x = (active m x \<and> (x = s \<or> \<not> below p s x))"
      using \<open>exited p c m m1\<close> x by (auto simp: exited_def)
  qed (use that in \<open>auto simp: exited_def\<close>)
  have "wp (cluster_exit p ops s t to m) Q"
    using e s(2) c(1) rest emp emptied_tidy [OF p m(2)]
    by (auto simp: cluster_exit_def elim!: wp_mono)
  then show ?thesis by (simp add: exit_body_def Cluster)
next
  case (Set cs')
  note p = quiet_wf [OF m(1)]
  have emp: "emptied p s m m1"
    if "\<forall>x. valid_sptr p x \<longrightarrow> active m1 x = (active m x \<and> \<not> (\<exists>c \<in> set (children p s). below p c x))"
      "active_child m1 = active_child m" "last_child m1 = last_child m" for m1
  proof -
    have "(\<exists>c \<in> set (children p s). below p c x) \<longleftrightarrow> below p s x \<and> x \<noteq> s" if x: "valid_sptr p x" for x
      using below_via_child [OF p x, of s] child_below(4,5) [OF p s(1)] below_trans [OF p x] by blast
    then show ?thesis using that by (auto simp: emptied_def)
  qed
  have "wp (iter_res (\<lambda>c m. rbind (op_exit ops c t None m) (\<lambda>(_, m). Inr m)) (children p s) m)
      (\<lambda>m1. wp (state_exit p ops s t to m1) Q)"
    by (rule wp_mono [OF exit_children [OF m cs]]) (assumption, rule rest [OF emp], simp_all)
  then have "wp (set_exit p ops s t to m) Q"
    using s(2) by (simp add: set_exit_def)
  then show ?thesis by (simp add: exit_body_def Set)
qed

text \<open>\<^verbatim>\<open>state::exit\<close> itself, up to the exit of the parent.\<close>

lemma state_exit_inactive:
  assumes m: "quiet p m" "emptied p s m0 m" and s: "valid_sptr p s" "active m s"
    and rest: "\<And>m1. exited p s m0 m1 \<Longrightarrow> steady p m m1 \<Longrightarrow>
      wp (exit_parent p (ops_at (Suc n) p) s t to m1) (\<lambda>m2. Q (True, m2))"
  shows "wp (state_exit p (ops_at (Suc n) p) s t to m) Q"
proof -
  let ?m = "set_state s STATE_INACTIVE m"
  have k: "steady p m ?m" by (rule steady_set_state [OF quiet_sound [OF m(1)]]) simp
  note q = quiet_steady [OF m(1) k]
  have "calmly p ?m (rbind (lock_broadcast (ops_at (Suc n) p) (sd_exit_event (state_of p s)) ?m)
      (enex_action p (ops_at (Suc n) p) (sd_exit_action (state_of p s)) s t))"
    by (rule calmly_bind [OF lock_broadcast_calmly(2) [OF q s(1)]])
      (rule enex_action_calmly(2) [OF quiet_steady [OF q] s(1)])
  moreover have "exited p s m0 m2" if "same_config ?m m2" for m2
  proof -
    have "active m2 x = (if x = s then False else active m x)" for x
      using that by (simp add: same_config_def)
    moreover have "active_child m2 = active_child m" "last_child m2 = last_child m"
      using that by (simp_all add: same_config_def set_state_def)
    ultimately show ?thesis
      using m(2) below_refl [OF quiet_wf [OF m(1)] s(1)] by (auto simp: emptied_def exited_def)
  qed
  ultimately have "wp (lock_broadcast (ops_at (Suc n) p) (sd_exit_event (state_of p s)) ?m)
      (\<lambda>m1. wp (enex_action p (ops_at (Suc n) p) (sd_exit_action (state_of p s)) s t m1)
        (\<lambda>m2. exited p s m0 m2 \<and> steady p m m2))"
    using steady_trans [OF k] unfolding calmly_def by (auto elim!: wp_mono)
  then show ?thesis
    using s(2) rest by (auto simp: state_exit_def elim!: wp_mono)
qed

lemma exit_down:
  assumes "valid_sptr p s" "length (p_states p) - rank s + 2 \<le> n"
  shows "exits p (ops_at n p) s"
  using assms
proof (induction "length (p_states p) - rank s" arbitrary: s n rule: less_induct)
  case less
  obtain k where n: "n = Suc (Suc k)" using less.prems(2) ge2E [of n] by auto
  show ?case
    unfolding exits_def
  proof (intro allI impI)
    fix m :: "('a, 'b) mstate" and t
    assume m: "quiet p m" "tidy p m"
    note p = quiet_wf [OF m(1)]
    show "wp (op_exit (ops_at n p) s t None m)
        (\<lambda>(b, m'). b = active m s \<and> exited p s m m' \<and> steady p m m')"
    proof (cases "active m s")
      case True
      have "exits p (ops_at (Suc k) p) c" if "c \<in> set (children p s)" for c
      proof -
        note c = child_below [OF p less.prems(1) that]
        have "rank c \<le> length (p_states p)" using c(1) by (simp add: rank_less_iff)
        then show ?thesis using c less.prems(2) n by (intro less.hyps) auto
      qed
      then have "wp (exit_body p (ops_at (Suc k) p) s t None m)
          (\<lambda>(b, m'). b = active m s \<and> exited p s m m' \<and> steady p m m')"
      proof (rule exit_body_emptied [OF m less.prems(1) True])
        fix m1 assume m1: "emptied p s m m1" "steady p m m1" "tidy p m1"
        show "wp (state_exit p (ops_at (Suc k) p) s t None m1)
            (\<lambda>(b, m'). b = active m s \<and> exited p s m m' \<and> steady p m m')"
          using m1 True less.prems(1) steady_trans [OF m1(2)]
          by (intro state_exit_inactive [OF quiet_steady [OF m(1) m1(2)] m1(1)])
            (auto simp: exit_parent_def emptied_def)
      qed
      then show ?thesis by (simp add: n)
    next
      case False
      then have "exit_body p (ops_at (Suc k) p) s t None m = Inr (False, m)"
        by (cases "kind_of p s") (simp_all add: exit_body_def state_exit_def cluster_exit_def set_exit_def)
      then show ?thesis
        using False exited_inactive [OF p m(2)] steady_refl [OF quiet_sound [OF m(1)]] by (simp add: n)
    qed
  qed
qed

section \<open>Exiting towards a target\<close>

text \<open>
  The highest state exited when \<open>s\<close> is exited towards \<open>to\<close>: climb while the parent does
  not contain the target.
\<close>

definition exit_top :: "('u, 'p) program \<Rightarrow> sptr \<Rightarrow> sptr \<Rightarrow> sptr" where
  "exit_top p to s =
     last (s # takeWhile (\<lambda>a. a \<notin> set (ancestors p (parent_of p to))) (ancestors p (parent_of p s)))"

lemma exit_top_unfold:
  assumes p: "wf_states p" and s: "valid_sptr p s"
  shows "exit_top p to s =
    (case parent_of p s of None \<Rightarrow> s
     | Some q \<Rightarrow> if q \<in> set (ancestors p (parent_of p to)) then s else exit_top p to q)"
  using ancestors_unfold [OF p wf_parent(1) [OF p s]]
  by (cases "parent_of p s") (auto simp: exit_top_def)

lemma exit_top_below:
  assumes p: "wf_states p" and s: "valid_sptr p s"
  shows "below p (exit_top p to s) s"
  using p s
proof (induction rule: ancestors_induct)
  case (step s)
  show ?case
  proof (cases "parent_of p s")
    case (Some q)
    then show ?thesis
      using step.IH [OF Some wf_parent(1) [OF p step.hyps Some]] below_parent [OF p step.hyps Some]
        below_refl [OF p step.hyps]
      by (simp add: exit_top_unfold [OF p step.hyps])
  qed (simp add: exit_top_unfold [OF p step.hyps] p step.hyps)
qed

lemma exit_top_parent:
  assumes p: "wf_states p" and s: "valid_sptr p s"
  shows "parent_of p (exit_top p to s) = Some q \<Longrightarrow> q \<in> set (ancestors p (parent_of p to))"
  using p s
proof (induction rule: ancestors_induct)
  case (step s)
  show ?case
  proof (cases "parent_of p s")
    case (Some r)
    then show ?thesis
      using step.prems step.IH [OF Some wf_parent(1) [OF p step.hyps Some]]
      by (auto simp: exit_top_unfold [OF p step.hyps] split: if_splits)
  qed (use step in \<open>simp add: exit_top_unfold [OF p step.hyps]\<close>)
qed

lemma exited_trans:
  assumes p: "wf_states p" and "exited p s m m1" "exited p u m1 m2"
    and "below p u s"
  shows "exited p u m m2"
  using assms below_trans [OF p, of _ s u] by (auto simp: exited_def)

lemma exit_up:
  assumes p: "wf_states p" and s: "valid_sptr p s" and to: "valid_sptr p to"
  shows "quiet p m \<Longrightarrow> tidy p m \<Longrightarrow> active m s \<Longrightarrow> rank s + length (p_states p) + 2 \<le> n \<Longrightarrow>
    wp (op_exit (ops_at n p) s t (Some to) m)
      (\<lambda>(b, m'). b \<and> exited p (exit_top p to s) m m' \<and> steady p m m')"
  using p s
proof (induction arbitrary: m n rule: ancestors_induct)
  case (step s)
  note m = step.prems(1,2)
  obtain k where n: "n = Suc (Suc k)" using step.prems(4) ge2E [of n] by auto
  let ?Q = "\<lambda>(b, m'). b \<and> exited p (exit_top p to s) m m' \<and> steady p m m'"
  have "exits p (ops_at (Suc k) p) c" if "c \<in> set (children p s)" for c
    using child_below [OF p step.hyps that] rank_less_iff [of p c] step.prems(4) n
    by (intro exit_down) auto
  then have "wp (exit_body p (ops_at (Suc k) p) s t (Some to) m) ?Q"
  proof (rule exit_body_emptied [OF m step.hyps step.prems(3)])
    fix m1 assume m1: "emptied p s m m1" "steady p m m1" "tidy p m1"
    note q1 = quiet_steady [OF m(1) m1(2)]
    have a1: "active m1 s" using m1(1) step by (simp add: emptied_def)
    show "wp (state_exit p (ops_at (Suc k) p) s t (Some to) m1) ?Q"
    proof (rule state_exit_inactive [OF q1 m1(1) step.hyps a1])
      fix m2 assume m2: "exited p s m m2" "steady p m1 m2"
      note k2 = steady_trans [OF m1(2) m2(2)]
      show "wp (exit_parent p (ops_at (Suc k) p) s t (Some to) m2) (\<lambda>m2. ?Q (True, m2))"
      proof (cases "parent_of p s")
        case None
        then show ?thesis using m2 k2 by (simp add: exit_parent_def exit_top_unfold [OF p step.hyps])
      next
        case (Some q)
        note qv = wf_parent [OF p step.hyps Some]
        have f: "find_ancestor p (Some q) (parent_of p to) =
            Inr (if q \<in> set (ancestors p (parent_of p to)) then Some q else None)"
          by (rule find_ancestor_eq [OF p]) (use wf_parent(1) [OF p to] in auto)
        show ?thesis
        proof (cases "q \<in> set (ancestors p (parent_of p to))")
          case True
          then show ?thesis
            using m2 k2 Some f by (simp add: exit_parent_def exit_top_unfold [OF p step.hyps])
        next
          case False
          have aq: "active m q" using tidy_parent [OF m(2) step.hyps step.prems(3) Some] .
          then have "active m2 q"
            using m2(1) not_below_parent [OF p step.hyps Some] qv(1) by (simp add: exited_def)
          then have "wp (op_exit (ops_at (Suc k) p) q t (Some to) m2)
              (\<lambda>(b, m'). b \<and> exited p (exit_top p to q) m2 m' \<and> steady p m2 m')"
            using step.prems(4) n qv(2)
            by (intro step.IH [OF Some qv(1) quiet_steady [OF m(1) k2] exited_tidy [OF p m(2) m2(1)]]) auto
          moreover have "exit_top p to s = exit_top p to q" "below p (exit_top p to q) s"
            using False Some exit_top_below [OF p qv(1)] below_parent [OF p step.hyps Some]
            by (simp_all add: exit_top_unfold [OF p step.hyps])
          ultimately have "wp (op_exit (ops_at (Suc k) p) q t (Some to) m2)
              (\<lambda>(b, m'). exited p (exit_top p to s) m m' \<and> steady p m m')"
            using exited_trans [OF p m2(1)] steady_trans [OF k2] by (fastforce elim!: wp_mono)
          then show ?thesis
            using Some f False
            by (simp add: exit_parent_def case_prod_unfold del: ops_at_sel find_ancestor_eq)
        qed
      qed
    qed
  qed
  then show ?case by (simp add: n)
qed

end
