(* ===== verification/Chsm_Entry.thy ===== *)
theory Chsm_Entry
  imports Chsm_Exit
begin

text \<open>
  Entering states (\<^verbatim>\<open>state::enter\<close>, \<^verbatim>\<open>cluster::enter\<close>, \<^verbatim>\<open>set::enter\<close>): entering an
  inactive state \<open>s\<close> activates a complete subtree of the highest inactive ancestor \<open>v\<close> of
  \<open>s\<close> (or of \<open>s\<close> itself), provided that the ancestors entered on the way are clusters; a
  set is allowed as the direct parent of \<open>s\<close>.  Without that condition the library builds
  an illegal configuration (see \<open>Chsm_Flaws\<close>).
\<close>

section \<open>Entered subtrees\<close>

definition complete_at :: "('u, 'p) program \<Rightarrow> ('u, 'p) mstate \<Rightarrow> sptr \<Rightarrow> bool" where
  "complete_at p m x \<longleftrightarrow> tidy_at p m x \<and> node_ok p m x"

text \<open>Nothing outside the subtree of \<open>v\<close> changes, except that a parent cluster notes \<open>v\<close>.\<close>

definition framed :: "('u, 'p) program \<Rightarrow> sptr \<Rightarrow> ('u, 'p) mstate \<Rightarrow> ('u, 'p) mstate \<Rightarrow> bool" where
  "framed p v m m' \<longleftrightarrow> (\<forall>x. valid_sptr p x \<longrightarrow> \<not> below p v x \<longrightarrow>
     active m' x = active m x \<and>
     active_child m' x =
       (if parent_of p v = Some x \<and> is_cluster (kind_of p x) then Some v else active_child m x))"

definition entered :: "('u, 'p) program \<Rightarrow> sptr \<Rightarrow> ('u, 'p) mstate \<Rightarrow> ('u, 'p) mstate \<Rightarrow> bool" where
  "entered p v m m' \<longleftrightarrow> framed p v m m' \<and> active m' v \<and>
     (\<forall>x. valid_sptr p x \<longrightarrow> below p v x \<longrightarrow> complete_at p m' x)"

text \<open>The configuration when \<open>s\<close> has become active and its children have not.\<close>

definition opened ::
  "('u, 'p) program \<Rightarrow> sptr \<Rightarrow> sptr \<Rightarrow> ('u, 'p) mstate \<Rightarrow> ('u, 'p) mstate \<Rightarrow> bool" where
  "opened p v s m m' \<longleftrightarrow> framed p v m m' \<and> active m' v \<and> active m' s \<and>
     (case parent_of p s of None \<Rightarrow> True | Some q \<Rightarrow> active m' q) \<and>
     (\<forall>x. valid_sptr p x \<longrightarrow> below p v x \<longrightarrow> \<not> below p s x \<longrightarrow> complete_at p m' x) \<and>
     (\<forall>x. valid_sptr p x \<longrightarrow> below p s x \<longrightarrow> x \<noteq> s \<longrightarrow> \<not> active m' x)"

definition permits :: "('u, 'p) program \<Rightarrow> ('u, 'p) mstate \<Rightarrow> sptr \<Rightarrow> bool" where
  "permits p m v \<longleftrightarrow>
     (case parent_of p v of
        None \<Rightarrow> True
      | Some q \<Rightarrow> active m q \<and>
          (is_cluster (kind_of p q) \<longrightarrow>
            (case active_child m q of None \<Rightarrow> False | Some c \<Rightarrow> \<not> active m c)))"

lemma complete_at_cong:
  assumes "active m' x = active m x" "active_child m' x = active_child m x"
    "\<And>q. parent_of p x = Some q \<Longrightarrow> active m' q = active m q"
    "\<And>c. c \<in> set (children p x) \<Longrightarrow> active m' c = active m c"
  shows "complete_at p m' x = complete_at p m x"
  using assms by (auto simp: complete_at_def tidy_at_def node_ok_def split: option.split kind.split)

lemma complete_at_inactive: "\<not> active m x \<Longrightarrow> complete_at p m x"
  by (simp add: complete_at_def tidy_at_def node_ok_def)

text \<open>Filling an opened state: changes confined to the strict subtree of \<open>s\<close>.\<close>

lemma opened_fill:
  assumes p: "wf_states p" and sv: "valid_sptr p s" "below p v s"
    and o: "opened p v s m m2"
    and same: "\<And>x. valid_sptr p x \<Longrightarrow> x \<noteq> s \<Longrightarrow> \<not> below p s x \<Longrightarrow>
      active m3 x = active m2 x \<and> active_child m3 x = active_child m2 x"
    and a: "active m3 s"
    and s: "complete_at p m3 s"
    and sub: "\<And>c x. c \<in> set (children p s) \<Longrightarrow> valid_sptr p x \<Longrightarrow> below p c x \<Longrightarrow> complete_at p m3 x"
  shows "entered p v m m3"
proof -
  have nb: "\<not> below p s x \<Longrightarrow> x \<noteq> s" "\<not> below p v x \<Longrightarrow> \<not> below p s x" if "valid_sptr p x" for x
    using below_refl [OF p sv(1)] below_trans [OF p that _ sv(2)] by auto
  have keep: "active m3 x = active m2 x" if "valid_sptr p x" "x = s \<or> \<not> below p s x" for x
    using that nb same a o by (auto simp: opened_def)
  have out: "complete_at p m3 x" if x: "valid_sptr p x" "below p v x" "\<not> below p s x" for x
  proof -
    have "active m3 q = active m2 q" if "parent_of p x = Some q" for q
      using keep wf_parent(1) [OF p x(1) that] below_parent [OF p x(1) that] x(3) by blast
    moreover have "active m3 c = active m2 c" if "c \<in> set (children p x)" for c
    proof -
      note c = child_below [OF p x(1) that]
      have "c = s \<or> \<not> below p s c" using below_unfold [OF p c(1), of s] c(2) x(3) by auto
      then show ?thesis using keep c(1) by blast
    qed
    ultimately have "complete_at p m3 x = complete_at p m2 x"
      using same [OF x(1)] x(3) nb(1) [OF x(1)] by (intro complete_at_cong) auto
    then show ?thesis using o x by (simp add: opened_def)
  qed
  have ins: "complete_at p m3 x" if x: "valid_sptr p x" "below p s x" for x
    using s sub below_via_child [OF p x] x by (cases "x = s") auto
  have "framed p v m m3"
    unfolding framed_def
  proof (intro allI impI)
    fix x assume x: "valid_sptr p x" "\<not> below p v x"
    then show "active m3 x = active m x \<and> active_child m3 x =
        (if parent_of p v = Some x \<and> is_cluster (kind_of p x) then Some v else active_child m x)"
      using same [OF x(1)] nb [OF x(1)] o unfolding opened_def framed_def by metis
  qed
  moreover have "active m3 v"
  proof -
    have vv: "valid_sptr p v" using below_valid [OF p sv] .
    have "v = s \<or> \<not> below p s v" using below_antisym [OF p vv] sv(2) by blast
    then show ?thesis using keep [OF vv] o by (auto simp: opened_def)
  qed
  ultimately show ?thesis using out ins by (auto simp: entered_def)
qed

text \<open>The contract of entering a state by default, its subtree being inactive.\<close>

definition enters :: "('u, 'p) program \<Rightarrow> ('u, 'p) ops \<Rightarrow> sptr \<Rightarrow> bool" where
  "enters p ops s \<longleftrightarrow> (\<forall>m t. quiet p m \<longrightarrow>
     (\<forall>x. valid_sptr p x \<longrightarrow> below p s x \<longrightarrow> \<not> active m x) \<longrightarrow> permits p m s \<longrightarrow>
     wp (op_enter ops s t None m) (\<lambda>(b, m'). b \<and> entered p s m m' \<and> steady p m m'))"

text \<open>The default child of a cluster.\<close>

lemma fill_cluster:
  assumes m2: "quiet p m2" and s: "valid_sptr p s" "below p v s" "kind_of p s = Cluster h cs"
    and o: "opened p v s m m2"
    and cs: "\<And>c. c \<in> set (children p s) \<Longrightarrow> enters p ops c"
  shows "wp (cluster_enter_child p ops s t None m2)
    (\<lambda>(b, m'). b \<and> entered p v m m' \<and> active m' s \<and> steady p m2 m')"
proof -
  note p = quiet_wf [OF m2] and snd2 = quiet_sound [OF m2]
  have ne: "cs \<noteq> []"
  proof -
    have "s \<in> set (all_states p)" using s(1) set_all_states [of p] by blast
    then show ?thesis using m2 s(3) unfolding quiet_def no_empty_parents_def by fastforce
  qed
  have go: "wp (op_enter ops c t None (m3\<lparr>active_child := (active_child m3)(s := Some c)\<rparr>))
      (\<lambda>(_, m'). entered p v m m' \<and> active m' s \<and> steady p m2 m')"
    if m3: "active m3 = active m2" "active_child m3 = active_child m2" "steady p m2 m3"
      and c: "c \<in> set (children p s)" for m3 c
  proof -
    let ?m = "m3\<lparr>active_child := (active_child m3)(s := Some c)\<rparr>"
    note cc = child_below [OF p s(1) c]
    have k: "steady p m2 ?m"
      using steady_trans [OF m3(3) steady_set_child(1) [OF steady_sound [OF m3(3)] cc(1,2)]] .
    have act: "active ?m = active m2" using m3(1) by (auto simp: active_def fun_eq_iff)
    have inact: "\<not> active m2 x" if "valid_sptr p x" "below p s x" "x \<noteq> s" for x
      using o that by (simp add: opened_def)
    have below_c: "x \<noteq> s \<and> below p s x" if "valid_sptr p x" "below p c x" for x
      using below_trans [OF p that cc(4)] cc(5) that(2) by blast
    have "permits p ?m c"
      using cc inact [OF cc(1,4)] o s(3) act by (auto simp: permits_def opened_def)
    moreover have "\<forall>x. valid_sptr p x \<longrightarrow> below p c x \<longrightarrow> \<not> active ?m x"
      using act inact below_c by metis
    ultimately have e: "wp (op_enter ops c t None ?m) (\<lambda>(b, m'). b \<and> entered p c ?m m' \<and> steady p ?m m')"
      using cs [OF c] quiet_steady [OF m2 k] by (simp add: enters_def)
    have "entered p v m m' \<and> active m' s" if m': "entered p c ?m m'" for m'
    proof -
      have fr: "active m' x = active m2 x"
        "active_child m' x = (if x = s then Some c else active_child m2 x)"
        if "valid_sptr p x" "\<not> below p c x" for x
        using m' that cc(2) s(3) act m3(2) unfolding entered_def framed_def by auto
      have as: "active m' s" using fr(1) [OF s(1) cc(5)] o by (simp add: opened_def)
      have only: "active m' d \<longleftrightarrow> d = c" if d: "d \<in> set (children p s)" for d
      proof (cases "d = c")
        case False
        note dd = child_below [OF p s(1) d]
        have "\<not> below p c d"
          using siblings_disjoint [OF p dd(1) s(1) c d] below_refl [OF p dd(1)] False by blast
        then show ?thesis using fr(1) [OF dd(1)] inact [OF dd(1,4)] dd(3) False by auto
      qed (use m' in \<open>simp add: entered_def\<close>)
      have par: "active m' q" if q: "parent_of p s = Some q" for q
      proof -
        note qq = wf_parent [OF p s(1) q]
        have "\<not> below p c q" using below_rank [OF p qq(1), of c] qq(2) cc(3) by auto
        then show ?thesis using fr(1) [OF qq(1)] o q by (simp add: opened_def)
      qed
      have comp_s: "complete_at p m' s"
        using par only c fr(2) [OF s(1) cc(5)] s(3)
        by (auto simp: complete_at_def tidy_at_def node_ok_def split: option.split)
      have sub: "complete_at p m' x" if d: "d \<in> set (children p s)" and x: "valid_sptr p x" "below p d x" for d x
      proof (cases "below p c x")
        case True
        then show ?thesis using m' x(1) by (simp add: entered_def)
      next
        case False
        note dd = child_below [OF p s(1) d]
        have "below p s x" "x \<noteq> s" using below_trans [OF p x dd(4)] dd(5) x(2) by blast+
        then show ?thesis using fr(1) [OF x(1) False] inact [OF x(1)] complete_at_inactive by metis
      qed
      have same: "active m' x = active m2 x \<and> active_child m' x = active_child m2 x"
        if x: "valid_sptr p x" "x \<noteq> s" "\<not> below p s x" for x
        using fr [OF x(1)] below_trans [OF p x(1) _ cc(4)] x by auto
      show ?thesis
        by (rule conjI [OF opened_fill [OF p s(1,2) o] as]) (rule same as comp_s sub; assumption)+
    qed
    then show ?thesis using e steady_trans [OF k] by (auto elim!: wp_mono)
  qed
  have front: "parent_front p s = Inr (hd (children p s))" "hd (children p s) \<in> set (children p s)"
    using parent_front_eq [of p s] s(3) ne hd_in_set [of "map St cs"]
    by (simp_all add: parent_empty_def)
  have clear: "steady p m2 (m2\<lparr>last_child := (last_child m2)(s := Some (hd (children p s)))\<rparr>)"
    using steady_set_child(2) [OF snd2 child_below(1,2) [OF p s(1) front(2)]] .
  have last: "c \<in> set (children p s)" if "last_child m2 s = Some c" for c
    using snd2 typed_childD [of p "last_child m2" s c] that wf_child_iff [OF p s(1)]
    by (auto simp: sound_def typed_def)
  have upd: "active (m2\<lparr>last_child := f\<rparr>) = active m2" for f
    by (simp add: active_def fun_eq_iff)
  show ?thesis
  proof (cases "last_child m2 s = None \<or> \<not> history (kind_of p s)")
    case True
    then show ?thesis
      using go [OF _ _ clear front(2)] upd
      by (auto simp: cluster_enter_child_def cluster_clear_def front(1) elim!: wp_mono)
  next
    case False
    then obtain c where c: "last_child m2 s = Some c" by auto
    show ?thesis
      using go [OF _ _ steady_refl [OF snd2] last [OF c]] False c
      by (auto simp: cluster_enter_child_def elim!: wp_mono)
  qed
qed

text \<open>All children of a set.\<close>

lemma fill_set:
  assumes m2: "quiet p m2" and s: "valid_sptr p s" "below p v s" "kind_of p s = Set cs"
    and o: "opened p v s m m2"
    and cs: "\<And>c. c \<in> set (children p s) \<Longrightarrow> enters p ops c"
  shows "wp (iter_res (\<lambda>c m. rbind (op_enter ops c t None m) (\<lambda>(_, m). Inr m)) (children p s) m2)
    (\<lambda>m'. entered p v m m' \<and> active m' s \<and> steady p m2 m')"
proof -
  note p = quiet_wf [OF m2] and snd2 = quiet_sound [OF m2]
  let ?f = "\<lambda>c m. rbind (op_enter ops c t None m) (\<lambda>(_, m). Inr m)"
  define P where "P = (\<lambda>ys m3. steady p m2 m3 \<and>
      (\<forall>x. valid_sptr p x \<longrightarrow> \<not> (\<exists>c \<in> set ys. below p c x) \<longrightarrow>
        active m3 x = active m2 x \<and> active_child m3 x = active_child m2 x) \<and>
      (\<forall>c \<in> set ys. active m3 c \<and> (\<forall>x. valid_sptr p x \<longrightarrow> below p c x \<longrightarrow> complete_at p m3 x)))"
  have inact: "\<not> active m2 x" if "valid_sptr p x" "below p s x" "x \<noteq> s" for x
    using o that by (simp add: opened_def)
  have d: "distinct (children p s)"
    using wf_distinct_children [OF p s(1)] by (simp add: distinct_map inj_on_def)
  have "wp (iter_res ?f (children p s) m2) (P (children p s))"
  proof (rule wp_iter_res_split)
    fix ys c zs m3
    assume split: "children p s = ys @ c # zs" and P3: "P ys m3"
    have mem: "c \<in> set (children p s)" "set ys \<subseteq> set (children p s)" "c \<notin> set ys"
      using split d by auto
    note cc = child_below [OF p s(1) mem(1)]
    have dis: "\<not> below p d x" if "d \<in> set ys" "valid_sptr p x" "below p c x" for d x
      using siblings_disjoint [OF p that(2) s(1), of d c] that mem by blast
    have sc: "\<not> below p d s" if "d \<in> set (children p s)" for d
      using child_below(5) [OF p s(1) that] .
    have old: "active m3 x = active m2 x" if "valid_sptr p x" "below p c x \<or> x = s" for x
      using P3 that dis sc mem unfolding P_def by blast
    have "permits p m3 c" using cc(2) s(3) old [OF s(1)] o by (simp add: permits_def opened_def)
    moreover have "\<forall>x. valid_sptr p x \<longrightarrow> below p c x \<longrightarrow> \<not> active m3 x"
      using old inact below_trans [OF p _ _ cc(4)] cc(5) by blast
    moreover have "quiet p m3" using P3 quiet_steady [OF m2] by (simp add: P_def)
    ultimately have e: "wp (op_enter ops c t None m3)
        (\<lambda>(b, m'). b \<and> entered p c m3 m' \<and> steady p m3 m')"
      using cs [OF mem(1)] by (simp add: enters_def)
    have "P (ys @ [c]) m'" if m': "entered p c m3 m'" "steady p m3 m'" for m'
    proof -
      have fr: "active m' x = active m3 x" "active_child m' x = active_child m3 x"
        if "valid_sptr p x" "\<not> below p c x" for x
        using m'(1) that cc(2) s(3) unfolding entered_def framed_def by auto
      have keep: "complete_at p m' x" if dx: "d \<in> set ys" "valid_sptr p x" "below p d x" for d x
      proof -
        have dd: "d \<in> set (children p s)" using dx(1) mem(2) by blast
        have x: "\<not> below p c x" using dis dx by blast
        have "active m' q = active m3 q" if q: "parent_of p x = Some q" for q
          using fr(1) [OF wf_parent(1) [OF p dx(2) q]] below_parent [OF p dx(2) q] x by blast
        moreover have "active m' e = active m3 e" if e: "e \<in> set (children p x)" for e
        proof -
          note ee = child_below [OF p dx(2) e]
          have "\<not> below p c e" using dis [OF dx(1) ee(1)] below_trans [OF p ee(1,4) dx(3)] by blast
          then show ?thesis using fr(1) [OF ee(1)] by blast
        qed
        ultimately have "complete_at p m' x = complete_at p m3 x"
          using fr [OF dx(2) x] by (intro complete_at_cong) auto
        then show ?thesis using P3 dx by (simp add: P_def)
      qed
      have old_active: "active m' d" if dx: "d \<in> set ys" for d
      proof -
        have dd: "d \<in> set (children p s)" using dx mem(2) by blast
        note d = child_below [OF p s(1) dd]
        have "\<not> below p c d" using dis [OF dx d(1)] below_refl [OF p d(1)] by blast
        then show ?thesis using fr(1) [OF d(1)] P3 dx by (simp add: P_def)
      qed
      show ?thesis
        unfolding P_def
      proof (intro conjI allI impI ballI)
        show "steady p m2 m'" using P3 m'(2) steady_trans by (auto simp: P_def)
      next
        fix x assume x: "valid_sptr p x" "\<not> (\<exists>d \<in> set (ys @ [c]). below p d x)"
        then show "active m' x = active m2 x" "active_child m' x = active_child m2 x"
          using fr [OF x(1)] P3 by (auto simp: P_def)
      next
        fix d assume "d \<in> set (ys @ [c])"
        then show "active m' d" using old_active m'(1) by (auto simp: entered_def)
      next
        fix d x assume "d \<in> set (ys @ [c])" "valid_sptr p x" "below p d x"
        then show "complete_at p m' x" using keep m'(1) by (auto simp: entered_def)
      qed
    qed
    then show "wp (?f c m3) (P (ys @ [c]))" using e by (auto elim!: wp_mono)
  qed (use steady_refl [OF snd2] in \<open>simp add: P_def\<close>)
  moreover have "entered p v m m3 \<and> active m3 s" if P3: "P (children p s) m3" for m3
  proof -
    have sc: "\<not> below p d s" if "d \<in> set (children p s)" for d
      using child_below(5) [OF p s(1) that] .
    have as: "active m3 s" using P3 sc s(1) o unfolding P_def opened_def by blast
    have same: "active m3 x = active m2 x \<and> active_child m3 x = active_child m2 x"
      if x: "valid_sptr p x" "x \<noteq> s" "\<not> below p s x" for x
      using P3 x below_trans [OF p x(1) _ child_below(4) [OF p s(1)]] unfolding P_def by blast
    have par: "active m3 q" if q: "parent_of p s = Some q" for q
    proof -
      note qq = wf_parent [OF p s(1) q]
      have "\<not> below p s q" "q \<noteq> s" using below_rank [OF p qq(1), of s] qq(2) by auto
      then show ?thesis using same [OF qq(1)] o q by (simp add: opened_def)
    qed
    have comp_s: "complete_at p m3 s"
      using par P3 s(3) by (auto simp: complete_at_def tidy_at_def node_ok_def P_def split: option.split)
    have sub: "complete_at p m3 x" if "d \<in> set (children p s)" "valid_sptr p x" "below p d x" for d x
      using P3 that unfolding P_def by blast
    show ?thesis
      by (rule conjI [OF opened_fill [OF p s(1,2) o] as]) (rule same as comp_s sub; assumption)+
  qed
  ultimately show ?thesis by (elim wp_mono) (auto simp: P_def)
qed

section \<open>Opening a state\<close>

text \<open>The end of \<^verbatim>\<open>state::enter\<close>, after the parent has agreed.\<close>

lemma state_enter_opened:
  assumes m: "quiet p m" and s: "valid_sptr p s" "\<not> active m s"
    and par: "wp (enter_parent p (ops_at (Suc n) p) s t m) (\<lambda>(go, m1). go \<and> steady p m m1 \<and> R m1)"
    and opn: "\<And>m1 m2. R m1 \<Longrightarrow> steady p m m1 \<Longrightarrow> active m2 = (active m1)(s := True) \<Longrightarrow>
      active_child m2 = active_child m1 \<Longrightarrow> opened p v s m0 m2"
  shows "wp (state_enter p (ops_at (Suc n) p) s t m)
    (\<lambda>(b, m2). b \<and> opened p v s m0 m2 \<and> steady p m m2)"
proof -
  have rest: "wp (lock_broadcast (ops_at (Suc n) p) (sd_enter_event (state_of p s))
        (set_state s STATE_ACTIVE m1))
      (\<lambda>m'. wp (enex_action p (ops_at (Suc n) p) (sd_enter_action (state_of p s)) s t m')
        (\<lambda>m2. opened p v s m0 m2 \<and> steady p m m2))"
    if m1: "steady p m m1" "R m1" for m1
  proof -
    let ?m = "set_state s STATE_ACTIVE m1"
    let ?lock = "lock_broadcast (ops_at (Suc n) p) (sd_enter_event (state_of p s)) ?m"
    let ?enex = "enex_action p (ops_at (Suc n) p) (sd_enter_action (state_of p s)) s t"
    have k: "steady p m ?m"
      by (rule steady_trans [OF m1(1) steady_set_state [OF steady_sound [OF m1(1)]]]) simp
    note q = quiet_steady [OF m k]
    have "calmly p ?m (rbind ?lock ?enex)"
      by (rule calmly_bind [OF lock_broadcast_calmly(1) [OF q s(1)]])
        (rule enex_action_calmly(1) [OF quiet_steady [OF q] s(1)])
    moreover have "opened p v s m0 m2" if "same_config ?m m2" for m2
    proof (rule opn [OF m1(2,1)])
      have "active ?m = (active m1)(s := True)" by (rule ext) simp
      then show "active m2 = (active m1)(s := True)" "active_child m2 = active_child m1"
        using that by (simp_all add: same_config_def) (simp add: set_state_def)
    qed
    ultimately show ?thesis
      using steady_trans [OF k] unfolding calmly_def by (auto elim!: wp_mono)
  qed
  show ?thesis
    using par rest s(2) by (auto simp: state_enter_def elim!: wp_mono)
qed

text \<open>Opening the top state of the entry, with the permission of its parent.\<close>

lemma opened_top:
  assumes m: "quiet p m" and v: "valid_sptr p v" "permits p m v"
    and inact: "\<And>x. valid_sptr p x \<Longrightarrow> below p v x \<Longrightarrow> \<not> active m x"
  shows "wp (state_enter p (ops_at (Suc n) p) v t m)
    (\<lambda>(b, m2). b \<and> opened p v v m m2 \<and> steady p m m2)"
proof (rule state_enter_opened [OF m v(1)])
  note p = quiet_wf [OF m] and snd = quiet_sound [OF m]
  show "\<not> active m v" using inact [OF v(1)] below_refl [OF p v(1)] by blast
  let ?R = "\<lambda>m1. active m1 = active m \<and> active_child m1 =
    (\<lambda>x. if parent_of p v = Some x \<and> is_cluster (kind_of p x) then Some v else active_child m x)"
  show "wp (enter_parent p (ops_at (Suc n) p) v t m) (\<lambda>(go, m1). go \<and> steady p m m1 \<and> ?R m1)"
  proof (cases "parent_of p v")
    case None
    then show ?thesis by (simp add: enter_parent_def steady_refl [OF snd])
  next
    case (Some q)
    have a: "active m q" using v(2) Some by (simp add: permits_def)
    show ?thesis
    proof (cases "kind_of p q")
      case (Cluster h cs)
      then obtain c where "active_child m q = Some c" "\<not> active m c"
        using v(2) Some by (auto simp: permits_def split: option.splits)
      then show ?thesis
        using steady_set_child(3) [OF snd v(1) Some] Cluster Some a
        by (auto simp: enter_parent_def switch_active_child_to_def active_def fun_eq_iff)
    qed (use Some a in \<open>auto simp: enter_parent_def switch_active_child_to_def steady_refl [OF snd] fun_eq_iff\<close>)
  qed
  fix m1 m2 :: "('a, 'b) mstate"
  assume R: "?R m1" and m2: "active m2 = (active m1)(v := True)" "active_child m2 = active_child m1"
  have "active m q" if "parent_of p v = Some q" for q
    using v(2) that by (simp add: permits_def)
  then show "opened p v v m m2"
    using R m2 inact below_refl [OF p v(1)] by (auto simp: opened_def framed_def split: option.split)
qed

text \<open>Filling, for all kinds of states.\<close>

lemma enter_fill:
  assumes m: "quiet p m" and s: "valid_sptr p s" "below p v s"
    and se: "wp (state_enter p ops s t m) (\<lambda>(b, m2). b \<and> opened p v s m0 m2 \<and> steady p m m2)"
    and cs: "\<And>c. c \<in> set (children p s) \<Longrightarrow> enters p ops c"
    and f: "f = None \<or> is_set (kind_of p s)"
  shows "wp (enter_body p ops s t f m) (\<lambda>(b, m'). b \<and> entered p v m0 m' \<and> active m' s \<and> steady p m m')"
proof (cases "kind_of p s")
  case Plain
  note p = quiet_wf [OF m]
  have "entered p v m0 m2 \<and> active m2 s" if o: "opened p v s m0 m2" for m2
  proof
    show "active m2 s" using o by (simp add: opened_def)
    have "complete_at p m2 s"
      using o Plain by (auto simp: opened_def complete_at_def tidy_at_def node_ok_def split: option.split)
    from opened_fill [OF p s o _ \<open>active m2 s\<close> this] show "entered p v m0 m2"
      using Plain by simp
  qed
  then show ?thesis using se Plain by (auto simp: enter_body_def elim!: wp_mono)
next
  case (Cluster h ks)
  note p = quiet_wf [OF m]
  have ne: "\<not> parent_empty p s"
  proof -
    have "s \<in> set (all_states p)" using s(1) set_all_states [of p] by blast
    then show ?thesis using m Cluster unfolding quiet_def no_empty_parents_def parent_empty_def by fastforce
  qed
  have "wp (cluster_enter_child p ops s t None m2)
      (\<lambda>(b, m'). b \<and> entered p v m0 m' \<and> active m' s \<and> steady p m m')"
    if m2: "opened p v s m0 m2" "steady p m m2" for m2
    by (rule wp_mono [OF fill_cluster [OF quiet_steady [OF m m2(2)] s Cluster m2(1) cs]])
      (use steady_trans [OF m2(2)] in auto)
  then show ?thesis
    using se Cluster ne f by (auto simp: enter_body_def cluster_enter_def elim!: wp_mono)
next
  case (Set ks)
  have "wp (iter_res (\<lambda>c m. rbind (op_enter ops c t None m) (\<lambda>(_, m). Inr m)) (children p s) m2)
      (\<lambda>m'. entered p v m0 m' \<and> active m' s \<and> steady p m m')"
    if m2: "opened p v s m0 m2" "steady p m m2" for m2
    by (rule wp_mono [OF fill_set [OF quiet_steady [OF m m2(2)] s Set m2(1) cs]])
      (use steady_trans [OF m2(2)] in auto)
  then have "wp (set_enter p ops s t m) (\<lambda>(b, m'). b \<and> entered p v m0 m' \<and> active m' s \<and> steady p m m')"
    using se by (auto simp: set_enter_def elim!: wp_mono)
  then show ?thesis using Set by (simp add: enter_body_def)
qed

lemma enter_down:
  assumes "valid_sptr p s" "length (p_states p) - rank s + 2 \<le> n"
  shows "enters p (ops_at n p) s"
  using assms
proof (induction "length (p_states p) - rank s" arbitrary: s n rule: less_induct)
  case less
  obtain k where n: "n = Suc (Suc k)" using less.prems(2) ge2E [of n] by auto
  show ?case
    unfolding enters_def
  proof (intro allI impI)
    fix m :: "('a, 'b) mstate" and t
    assume m: "quiet p m" "\<forall>x. valid_sptr p x \<longrightarrow> below p s x \<longrightarrow> \<not> active m x" "permits p m s"
    note p = quiet_wf [OF m(1)]
    have cs: "enters p (ops_at (Suc k) p) c" if "c \<in> set (children p s)" for c
    proof -
      note c = child_below [OF p less.prems(1) that]
      have "rank c \<le> length (p_states p)" using c(1) by (simp add: rank_less_iff)
      then show ?thesis using c less.prems(2) n by (intro less.hyps) auto
    qed
    have "wp (enter_body p (ops_at (Suc k) p) s t None m)
        (\<lambda>(b, m'). b \<and> entered p s m m' \<and> active m' s \<and> steady p m m')"
      by (rule enter_fill [OF m(1) less.prems(1) below_refl [OF p less.prems(1)] opened_top [OF m(1) less.prems(1) m(3)] cs])
        (use m(2) in auto)
    then show "wp (op_enter (ops_at n p) s t None m) (\<lambda>(b, m'). b \<and> entered p s m m' \<and> steady p m m')"
      by (auto simp: n elim!: wp_mono)
  qed
qed

section \<open>Entering through inactive ancestors\<close>

text \<open>
  One step down the chain: \<open>q\<close> is open and expects its child \<open>s\<close> (\<^verbatim>\<open>from_child\<close>), which
  becomes active.
\<close>

lemma opened_next:
  assumes p: "wf_states p" and s: "valid_sptr p s" "parent_of p s = Some q" "below p v q"
    and q: "is_cluster (kind_of p q)"
    and o: "opened p v q m m1" "active_child m1 q = Some s"
    and m2: "active m2 = (active m1)(s := True)" "active_child m2 = active_child m1"
  shows "opened p v s m m2"
proof -
  note qv = wf_parent [OF p s(1,2)]
  have sq: "below p q s" "s \<noteq> q" using below_child [OF p s(1,2)] qv(2) by auto
  have inact: "\<not> active m1 x" if "valid_sptr p x" "below p q x" "x \<noteq> q" for x
    using o(1) that by (simp add: opened_def)
  have vs: "below p v s" using below_parent [OF p s(1,2,3)] .
  have comp: "complete_at p m2 x" if x: "valid_sptr p x" "below p v x" "\<not> below p s x" for x
  proof -
    have xs: "x \<noteq> s" using x(3) below_refl [OF p s(1)] by blast
    consider "x = q" | "x \<noteq> q" "below p q x" | "\<not> below p q x"
      by blast
    then show ?thesis
    proof cases
      case 1
      have "active m2 c \<longleftrightarrow> c = s" if c: "c \<in> set (children p q)" for c
        using inact child_below(1,4) [OF p qv(1) c] child_below(5) [OF p qv(1) c] m2(1)
          below_refl [OF p qv(1)] by auto
      then show ?thesis
        using o m2 q 1 qv(3)
        by (cases "kind_of p q")
          (auto simp: complete_at_def tidy_at_def node_ok_def opened_def split: option.split)
    next
      case 2
      then show ?thesis using inact [OF x(1)] xs m2(1) by (simp add: complete_at_inactive)
    next
      case 3
      have "c \<noteq> s" if "c \<in> set (children p x)" for c
        using 3 child_below(2) [OF p x(1) that] s(2) below_refl [OF p qv(1)] by auto
      moreover have "r \<noteq> s" if "parent_of p x = Some r" for r
        using x(3) below_child [OF p x(1) that] by auto
      ultimately have "complete_at p m2 x = complete_at p m1 x"
        using m2 xs by (intro complete_at_cong) auto
      then show ?thesis using o(1) x(1,2) 3 by (simp add: opened_def)
    qed
  qed
  have sub: "\<not> active m2 x" if x: "valid_sptr p x" "below p s x" "x \<noteq> s" for x
  proof -
    have "below p q x" "x \<noteq> q"
      using below_trans [OF p x(1,2) sq(1)] below_rank [OF p x(1,2)] qv(2) by auto
    then show ?thesis using inact [OF x(1)] m2(1) x(3) by simp
  qed
  have "framed p v m m2"
    using o(1) m2 vs unfolding opened_def framed_def by (metis fun_upd_other)
  then show ?thesis
    using o(1) m2 s(2) comp sub by (simp add: opened_def)
qed

lemma enter_chain:
  assumes v: "permits p m v" "\<And>x. valid_sptr p x \<Longrightarrow> below p v x \<Longrightarrow> \<not> active m x"
    and m: "quiet p m"
  shows "below p v s \<Longrightarrow>
    (\<And>a. below p v a \<Longrightarrow> below p a s \<Longrightarrow> a \<noteq> s \<Longrightarrow> is_cluster (kind_of p a)) \<Longrightarrow>
    rank s + length (p_states p) + 2 \<le> Suc n \<Longrightarrow> valid_sptr p s \<Longrightarrow>
    wp (state_enter p (ops_at n p) s t m) (\<lambda>(b, m2). b \<and> opened p v s m m2 \<and> steady p m m2)"
proof (induction "rank s" arbitrary: s n rule: less_induct)
  case less
  note p = quiet_wf [OF m] and sv = less.prems(4)
  have vv: "valid_sptr p v" using below_valid [OF p sv less.prems(1)] .
  obtain k where n: "n = Suc k" using less.prems(3) by (cases n) auto
  show ?case
  proof (cases "s = v")
    case True
    then show ?thesis using opened_top [OF m vv v] n by simp
  next
    case False
    then obtain q where q: "parent_of p s = Some q" "below p v q"
      using less.prems(1) below_unfold [OF p sv, of v] by auto
    note qv = wf_parent [OF p sv q(1)]
    have qs: "below p q s" "q \<noteq> s" using below_child [OF p sv q(1)] qv(2) by auto
    have clu: "is_cluster (kind_of p q)" using less.prems(2) [OF q(2) qs] .
    have ne: "\<not> parent_empty p q" using qv(3) by (auto simp: parent_empty_def)
    have "wp (state_enter p (ops_at k p) q t m) (\<lambda>(b, m2). b \<and> opened p v q m m2 \<and> steady p m m2)"
      by (rule less.hyps [OF qv(2) q(2) _ _ qv(1)])
        (use less.prems(2,3) below_trans [OF p sv qs(1)] below_antisym [OF p sv qs(1)] qv(2) n in auto)
    moreover have "opened p v q m (m2\<lparr>active_child := (active_child m2)(q := Some s), last_child := l\<rparr>) \<and>
        active_child (m2\<lparr>active_child := (active_child m2)(q := Some s), last_child := l\<rparr>) q = Some s"
      if o: "opened p v q m m2" for m2 l
    proof -
      let ?m = "m2\<lparr>active_child := (active_child m2)(q := Some s), last_child := l\<rparr>"
      have a: "active ?m = active m2" by (simp add: active_def fun_eq_iff)
      have "complete_at p ?m x = complete_at p m2 x" if "x \<noteq> q" for x
        using that a by (intro complete_at_cong) auto
      moreover have "framed p v m ?m"
        using o q(2) a by (auto simp: opened_def framed_def)
      moreover have "\<not> below p q x \<Longrightarrow> x \<noteq> q" for x using below_refl [OF p qv(1)] by blast
      ultimately show ?thesis
        using o a by (cases "parent_of p q") (simp_all add: opened_def)
    qed
    ultimately have "wp (op_enter (ops_at n p) q t (Some s) m)
        (\<lambda>(_, m1). (opened p v q m m1 \<and> active_child m1 q = Some s) \<and> steady p m m1)"
      using clu ne steady_set_child(3) [OF steady_sound sv q(1)] steady_trans
      by (cases "kind_of p q")
        (fastforce simp: n enter_body_def cluster_enter_def cluster_enter_child_def elim!: wp_mono)+
    moreover have "\<not> active m q" using v(2) [OF qv(1) q(2)] .
    moreover have "\<not> active m1 s" if "opened p v q m m1" for m1
      using that sv qs by (simp add: opened_def)
    ultimately have par: "wp (enter_parent p (ops_at n p) s t m)
        (\<lambda>(go, m1). go \<and> steady p m m1 \<and> opened p v q m m1 \<and> active_child m1 q = Some s)"
      using q(1) by (auto simp: enter_parent_def n simp del: ops_at_sel elim!: wp_mono)
    have "\<not> active m s" using v(2) [OF sv less.prems(1)] .
    then show ?thesis
      unfolding n
      by (rule state_enter_opened [OF m sv _ par [unfolded n]]) (use opened_next [OF p sv q clu] in auto)
  qed
qed

text \<open>The states passed on the way from \<open>v\<close> down to \<open>s\<close>.\<close>

definition entry_path :: "('u, 'p) program \<Rightarrow> sptr \<Rightarrow> sptr \<Rightarrow> bool" where
  "entry_path p v s \<longleftrightarrow> below p v s \<and>
     (\<forall>a \<in> set (ancestors p (Some s)). below p v a \<longrightarrow> a \<noteq> s \<longrightarrow>
        is_cluster (kind_of p a) \<or> parent_of p s = Some a)"

lemma enter_clusters:
  assumes m: "quiet p m" and v: "permits p m v"
    and inact: "\<And>x. valid_sptr p x \<Longrightarrow> below p v x \<Longrightarrow> \<not> active m x"
    and s: "valid_sptr p s" "below p v s"
    and clu: "\<And>a. below p v a \<Longrightarrow> below p a s \<Longrightarrow> a \<noteq> s \<Longrightarrow> is_cluster (kind_of p a)"
    and n: "rank s + length (p_states p) + 2 \<le> n"
    and f: "f = None \<or> is_set (kind_of p s)"
  shows "wp (op_enter (ops_at n p) s t f m)
    (\<lambda>(b, m'). b \<and> entered p v m m' \<and> active m' s \<and> steady p m m')"
proof -
  note p = quiet_wf [OF m]
  obtain k where k: "n = Suc k" using n by (cases n) auto
  have cs: "enters p (ops_at k p) c" if "c \<in> set (children p s)" for c
    using child_below [OF p s(1) that] rank_less_iff [of p c] n k by (intro enter_down) auto
  show ?thesis
    unfolding k ops_at_sel
    by (rule enter_fill [OF m s enter_chain [OF v inact m s(2) clu _ s(1)] cs f]) (use n k in auto)
qed

lemma enter_target:
  assumes m: "quiet p m" and v: "permits p m v"
    and inact: "\<And>x. valid_sptr p x \<Longrightarrow> below p v x \<Longrightarrow> \<not> active m x"
    and s: "valid_sptr p s" "entry_path p v s"
    and n: "rank s + length (p_states p) + 3 \<le> n"
  shows "wp (op_enter (ops_at n p) s t None m)
    (\<lambda>(_, m'). entered p v m m' \<and> active m' s \<and> steady p m m')"
proof (cases "\<forall>a. below p v a \<longrightarrow> below p a s \<longrightarrow> a \<noteq> s \<longrightarrow> is_cluster (kind_of p a)")
  case True
  have "wp (op_enter (ops_at n p) s t None m)
      (\<lambda>(b, m'). b \<and> entered p v m m' \<and> active m' s \<and> steady p m m')"
    by (rule enter_clusters [OF m v inact s(1)]) (use True s(2) n in \<open>auto simp: entry_path_def\<close>)
  then show ?thesis by (auto elim!: wp_mono)
next
  case False
  note p = quiet_wf [OF m]
  obtain q where q: "below p v q" "below p q s" "q \<noteq> s" "\<not> is_cluster (kind_of p q)" "parent_of p s = Some q"
    using False s(2) unfolding entry_path_def below_def by blast
  note qv = wf_parent [OF p s(1) q(5)]
  have set: "is_set (kind_of p q)" using wf_parent_not_Plain [OF p s(1) q(5)] q(4) by blast
  obtain k where k: "n = Suc k" using n by (cases n) auto
  have clu: "is_cluster (kind_of p a)" if a: "below p v a" "below p a q" "a \<noteq> q" for a
  proof -
    have "below p a s" using below_trans [OF p s(1) q(2) a(2)] .
    moreover have "a \<noteq> s" using a(2) not_below_parent [OF p s(1) q(5)] by auto
    ultimately show ?thesis using s(2) a q(5) unfolding entry_path_def below_def by fastforce
  qed
  have "wp (op_enter (ops_at k p) q t (Some s) m)
      (\<lambda>(b, m'). b \<and> entered p v m m' \<and> active m' q \<and> steady p m m')"
    by (rule enter_clusters [OF m v inact qv(1) q(1) clu]) (use n k qv(2) set in auto)
  moreover have "active m' s" if "entered p v m m'" "active m' q" for m'
  proof -
    have "complete_at p m' q" using that(1) qv(1) q(1) by (simp add: entered_def)
    then show ?thesis
      using that(2) set qv(3) by (cases "kind_of p q") (auto simp: complete_at_def node_ok_def)
  qed
  ultimately have "wp (op_enter (ops_at k p) q t (Some s) m)
      (\<lambda>(_, m'). active m' s \<and> entered p v m m' \<and> steady p m m')"
    by (auto elim!: wp_mono)
  moreover have "\<not> active m q" "\<not> active m s"
    using inact [OF qv(1) q(1)] inact [OF s(1)] s(2) by (auto simp: entry_path_def)
  ultimately have "wp (state_enter p (ops_at k p) s t m)
      (\<lambda>(b, m'). \<not> b \<and> entered p v m m' \<and> active m' s \<and> steady p m m')"
    using q(5) by (auto simp: state_enter_def enter_parent_def elim!: wp_mono)
  then show ?thesis
    by (cases "kind_of p s")
      (auto simp: k enter_body_def cluster_enter_def set_enter_def elim!: wp_mono)
qed

end
