(* ===== verification/Chsm_Step.thy ===== *)
theory Chsm_Step
  imports Chsm_Entry
begin

text \<open>
  The configuration over a whole run: starting and stopping the machine, and one turn of
  the transition algorithm.  A micro-step whose transitions are independent (no state is
  exited by two of them), legal, and do not enter a cluster through an inactive set takes
  a legal configuration to a legal configuration, and cannot crash or run out of fuel.
\<close>

section \<open>Starting and stopping\<close>

lemma sound_init: "wf_program p \<Longrightarrow> sound p (init_mstate u)"
  by (simp add: sound_def typed_def typed_child_def accounted_def at_rest_def init_mstate_def)

lemma init_inactive: "tidy p (init_mstate u)"
  by (simp add: tidy_iff tidy_at_def)

lemma below_Root:
  assumes p: "wf_states p" and x: "valid_sptr p x"
  shows "below p Root x"
  using ancestors_last [OF p x] last_in_set [of "ancestors p (Some x)"] by (simp add: below_def)

lemma start_legal:
  assumes m: "quiet p m" and off: "tidy p m" "\<not> active m Root"
    and n: "length (p_states p) + 2 \<le> n"
  shows "wp (machine_enter n p t m)
    (\<lambda>(b, m'). b \<and> legal_config p m' \<and> steady p m m')"
proof -
  note p = quiet_wf [OF m]
  have "enters p (ops_at n p) Root" by (rule enter_down) (use n in auto)
  moreover have "\<not> active m x" if "valid_sptr p x" for x
    using tidy_inactive [OF p off(1) that below_Root [OF p that] off(2)] .
  ultimately have "wp (op_enter (ops_at n p) Root t None m)
      (\<lambda>(b, m'). b \<and> entered p Root m m' \<and> steady p m m')"
    using m p by (simp add: enters_def permits_def)
  then show ?thesis
    using below_Root [OF p]
    by (auto simp: machine_enter_def enter_def entered_def complete_at_def legal_config_iff tidy_iff
        elim!: wp_mono)
qed

lemma stop_inactive:
  assumes m: "quiet p m" and on: "tidy p m"
    and n: "length (p_states p) + 2 \<le> n"
  shows "wp (machine_exit n p t m)
    (\<lambda>(b, m'). b = active m Root \<and> (\<forall>x. valid_sptr p x \<longrightarrow> \<not> active m' x) \<and> steady p m m')"
proof -
  note p = quiet_wf [OF m]
  have "exits p (ops_at n p) Root" by (rule exit_down) (use n in auto)
  then have "wp (op_exit (ops_at n p) Root t None m)
      (\<lambda>(b, m'). b = active m Root \<and> exited p Root m m' \<and> steady p m m')"
    using m on by (simp add: exits_def)
  then show ?thesis
    using below_Root [OF p] by (auto simp: machine_exit_def exit_def exited_def elim!: wp_mono)
qed

section \<open>The moves of a micro-step\<close>

definition source :: "('u, 'p) program \<Rightarrow> transition_id \<Rightarrow> sptr" where
  "source p t = St (tr_from (transition_of p t))"

definition dest :: "('u, 'p) program \<Rightarrow> transition_id \<Rightarrow> sptr" where
  "dest p t = (case tr_to (transition_of p t) of None \<Rightarrow> Root | Some i \<Rightarrow> St i)"

text \<open>The highest state a transition exits, and the highest it enters: siblings.\<close>

definition exit_root :: "('u, 'p) program \<Rightarrow> transition_id \<Rightarrow> sptr" where
  "exit_root p t = exit_top p (dest p t) (source p t)"

definition entry_root :: "('u, 'p) program \<Rightarrow> transition_id \<Rightarrow> sptr" where
  "entry_root p t = last (takeWhile (\<lambda>a. Some a \<noteq> parent_of p (exit_root p t))
     (ancestors p (Some (dest p t))))"

definition moving :: "('u, 'p) program \<Rightarrow> ('u, 'p) mstate \<Rightarrow> transition_id list" where
  "moving p m = filter (\<lambda>t. \<not> is_internal (transition_of p t) \<and>
     (case taken m t of None \<Rightarrow> False | Some e \<Rightarrow> e \<in> set (event_queue m)))
     [0..<length (p_transitions p)]"

definition independent :: "('u, 'p) program \<Rightarrow> transition_id list \<Rightarrow> bool" where
  "independent p ts \<longleftrightarrow> (\<forall>t \<in> set ts. \<forall>t' \<in> set ts.
     t \<noteq> t' \<longrightarrow> \<not> below p (exit_root p t) (exit_root p t'))"

definition move_ok :: "('u, 'p) program \<Rightarrow> transition_id \<Rightarrow> bool" where
  "move_ok p t \<longleftrightarrow> is_legal p (Some (source p t)) (Some (dest p t)) \<and>
     entry_path p (entry_root p t) (dest p t)"

definition step_ready :: "('u, 'p) program \<Rightarrow> ('u, 'p) mstate \<Rightarrow> bool" where
  "step_ready p m \<longleftrightarrow> independent p (moving p m) \<and>
     (\<forall>t \<in> set (moving p m). active m (source p t) \<and> move_ok p t)"

lemma last_takeWhile_ancestors:
  assumes p: "wf_states p" and x: "valid_sptr p x"
  shows "q \<in> set (ancestors p (parent_of p x)) \<Longrightarrow>
    parent_of p (last (takeWhile (\<lambda>a. a \<noteq> q) (ancestors p (Some x)))) = Some q \<and>
    below p (last (takeWhile (\<lambda>a. a \<noteq> q) (ancestors p (Some x)))) x"
  using p x
proof (induction rule: ancestors_induct)
  case (step x)
  then obtain r where r: "parent_of p x = Some r" by (cases "parent_of p x") auto
  note rv = wf_parent [OF p step.hyps r]
  have xq: "x \<noteq> q"
    using step.prems r ancestors_valid [OF p rv(1)] rv(2) by fastforce
  show ?case
  proof (cases "r = q")
    case True
    then have "takeWhile (\<lambda>a. a \<noteq> q) (ancestors p (Some x)) = [x]"
      using xq ancestors_unfold [OF p rv(1)] by (simp add: ancestors_unfold [OF p step.hyps] r)
    then show ?thesis using r True p step.hyps by simp
  next
    case False
    then have q: "q \<in> set (ancestors p (parent_of p r))"
      using step.prems by (simp add: r ancestors_unfold [OF p rv(1)])
    have "takeWhile (\<lambda>a. a \<noteq> q) (ancestors p (Some x)) =
        x # takeWhile (\<lambda>a. a \<noteq> q) (ancestors p (Some r))"
      "takeWhile (\<lambda>a. a \<noteq> q) (ancestors p (Some r)) \<noteq> []"
      using xq False by (simp_all add: ancestors_unfold [OF p step.hyps] ancestors_unfold [OF p rv(1)] r)
    then show ?thesis
      using step.IH [OF r rv(1) q] below_parent [OF p step.hyps r] by simp
  qed
qed

text \<open>What a transition with existing ends looks like in the hierarchy.\<close>

lemma move_shape:
  assumes p: "wf_states p" and v: "valid_sptr p (source p t)" "valid_sptr p (dest p t)"
  shows "valid_sptr p (exit_root p t)" "below p (exit_root p t) (source p t)"
    "valid_sptr p (entry_root p t)" "below p (entry_root p t) (dest p t)"
    "parent_of p (entry_root p t) = parent_of p (exit_root p t)"
proof -
  show b: "below p (exit_root p t) (source p t)"
    using exit_top_below [OF p v(1)] by (simp add: exit_root_def)
  show u: "valid_sptr p (exit_root p t)" using below_valid [OF p v(1) b] .
  have "below p (entry_root p t) (dest p t) \<and>
      parent_of p (entry_root p t) = parent_of p (exit_root p t)"
  proof (cases "parent_of p (exit_root p t)")
    case None
    then have "entry_root p t = Root"
      using ancestors_last [OF p v(2)] by (simp add: entry_root_def)
    then show ?thesis using None below_Root [OF p v(2)] p by simp
  next
    case (Some q)
    then have "q \<in> set (ancestors p (parent_of p (dest p t)))"
      using exit_top_parent [OF p v(1)] by (simp add: exit_root_def)
    from last_takeWhile_ancestors [OF p v(2) this] show ?thesis
      using Some by (simp add: entry_root_def)
  qed
  then show e: "below p (entry_root p t) (dest p t)"
    "parent_of p (entry_root p t) = parent_of p (exit_root p t)" by simp_all
  show "valid_sptr p (entry_root p t)" using below_valid [OF p v(2) e(1)] .
qed

text \<open>A legal transition does not cross between the children of a set.\<close>

lemma legal_in_component:
  assumes p: "wf_states p" and v: "valid_sptr p (source p t)" "valid_sptr p (dest p t)"
    and legal: "is_legal p (Some (source p t)) (Some (dest p t))"
    and q: "parent_of p (exit_root p t) = Some q" "is_set (kind_of p q)"
  shows "entry_root p t = exit_root p t"
proof (rule ccontr)
  assume ne: "entry_root p t \<noteq> exit_root p t"
  note s = move_shape [OF p v]
  note qv = wf_parent [OF p s(1) q(1)]
  have ev: "entry_root p t \<in> set (children p q)" using wf_parent(3) [OF p s(3)] s(5) q(1) by simp
  have qs: "below p q (source p t)" "below p q (dest p t)"
    using below_trans [OF p v(1) s(2) below_child [OF p s(1) q(1)]]
      below_trans [OF p v(2) s(4) below_child [OF p s(3)]] s(5) q(1) by auto
  have "below p d q" if d: "below p d (source p t)" "below p d (dest p t)" for d
  proof (cases "below p q d \<and> d \<noteq> q")
    case True
    have dv: "valid_sptr p d" using below_valid [OF p v(1) d(1)] .
    obtain c where c: "c \<in> set (children p q)" "below p c d" using below_via_child [OF p dv] True by blast
    have "c = exit_root p t" "c = entry_root p t"
      using siblings_disjoint [OF p v(1) qv(1) c(1) qv(3) below_trans [OF p v(1) d(1) c(2)] s(2)]
        siblings_disjoint [OF p v(2) qv(1) c(1) ev below_trans [OF p v(2) d(2) c(2)] s(4)] by simp_all
    then show ?thesis using ne by simp
  next
    case False
    then show ?thesis using below_linear [OF p v(1) d(1) qs(1)] qv(1) p by auto
  qed
  then have "nearest_common p (source p t) (dest p t) q"
    using qs by (simp add: nearest_common_def below_def)
  then show False using legal is_legal_iff [OF p v] q(2) by blast
qed

section \<open>Phase I\<close>

text \<open>
  What both phases rely on: the machine is in the algorithm, user code is calm, and the
  marks of the moving transitions are those the step began with (\<open>m0\<close>), up to the ones
  that have been cleared.
\<close>

definition in_step ::
  "('u, 'p) program \<Rightarrow> ('u, 'p) mstate \<Rightarrow> transition_id set \<Rightarrow> ('u, 'p) mstate \<Rightarrow> bool" where
  "in_step p m0 cleared m \<longleftrightarrow> keeps p m0 m \<and> aimed p m \<and>
     (\<forall>t e. e \<in> set (event_queue m0) \<longrightarrow> \<not> is_internal (transition_of p t) \<longrightarrow>
       taken m t = Some e \<longleftrightarrow> taken m0 t = Some e \<and> t \<notin> cleared)"

definition stepping :: "('u, 'p) program \<Rightarrow> ('u, 'p) mstate \<Rightarrow> bool" where
  "stepping p m \<longleftrightarrow> sound p m \<and> in_progress m \<and> no_empty_parents p \<and> static_targets p \<and>
     calm p \<and> aimed p m"

lemma in_step_quiet: "stepping p m0 \<Longrightarrow> in_step p m0 C m \<Longrightarrow> quiet p m \<and> in_progress m"
  by (auto simp: stepping_def in_step_def quiet_def keeps_def)

lemma in_step_refl: "stepping p m0 \<Longrightarrow> in_step p m0 {} m0"
  by (simp add: in_step_def stepping_def keeps_refl)

lemma in_step_steady:
  assumes s: "stepping p m0" and m: "in_step p m0 C m" and st: "steady p m m'"
  shows "in_step p m0 C m'"
proof -
  have ip: "in_progress m" and sub: "set (event_queue m0) \<subseteq> set (event_queue m)"
    using s m set_mono_prefix by (auto simp: stepping_def in_step_def keeps_def)
  have mk: "marks_kept p (- set (event_queue m)) m m'" using st ip by (simp add: steady_def)
  have "taken m' t = Some e \<longleftrightarrow> taken m t = Some e" if "e \<in> set (event_queue m0)" for t e
    using mk that sub unfolding marks_kept_def by blast
  moreover have "aimed p m'" using mk m s by (simp add: marks_kept_def in_step_def stepping_def)
  ultimately show ?thesis
    using m keeps_trans [OF _ steady_keeps [OF st]] by (simp add: in_step_def)
qed

lemma in_step_untake:
  assumes s: "stepping p m0" and m: "in_step p m0 C m"
  shows "in_step p m0 (if is_internal (transition_of p t) then C else insert t C)
    (m\<lparr>taken := (taken m)(t := None)\<rparr>)"
  using m keeps_trans [OF _ keeps_untake, of p m0 m t]
  by (auto simp: in_step_def aimed_def keeps_def)

lemma share_params_steady: "sound p m \<Longrightarrow> steady p m (share_params p e m) \<and> same_config m (share_params p e m)"
  using acct.share_params_eq [of p e m] acct.share_params_keeps [of p m e]
  by (auto simp: steady_def marks_kept_same same_config_def active_def fun_eq_iff)

text \<open>The moving transitions that the pairs of events and transitions in \<open>W\<close> stand for.\<close>

definition moved ::
  "('u, 'p) program \<Rightarrow> ('u, 'p) mstate \<Rightarrow> (event_id \<times> transition_id) set \<Rightarrow> transition_id set" where
  "moved p m0 W = {t. \<not> is_internal (transition_of p t) \<and> (\<exists>e. (e, t) \<in> W \<and> taken m0 t = Some e)}"

definition step_pairs :: "('u, 'p) program \<Rightarrow> ('u, 'p) mstate \<Rightarrow> (event_id \<times> transition_id) set" where
  "step_pairs p m0 = {(e, t). e \<in> set (event_queue m0) \<and> t \<in> set (transition_ids p e)}"

lemma moved_moving:
  assumes "sound p m0" "W \<subseteq> step_pairs p m0"
  shows "moved p m0 W \<subseteq> set (moving p m0)"
proof
  fix t assume "t \<in> moved p m0 W"
  then obtain e where e: "taken m0 t = Some e" "e \<in> set (event_queue m0)"
    "t \<in> set (transition_ids p e)" "\<not> is_internal (transition_of p t)"
    using assms(2) by (auto simp: moved_def step_pairs_def)
  moreover have "e < length (p_events p)" using assms(1) e(2) by (simp add: sound_def accounted_def)
  ultimately show "t \<in> set (moving p m0)"
    using wf_parts(6) [OF assms(1)] by (auto simp: moving_def)
qed

lemma moving_moved:
  "sound p m0 \<Longrightarrow> set (moving p m0) = moved p m0 (step_pairs p m0)"
  using moved_moving [of p m0 "step_pairs p m0"]
  by (fastforce simp: moving_def moved_def step_pairs_def sound_def typed_def split: option.splits)

lemma moving_ends:
  assumes s: "stepping p m0" and t: "t \<in> set (moving p m0)"
  shows "valid_sptr p (source p t)" "valid_sptr p (dest p t)"
    "tr_to (transition_of p t) \<noteq> None" "map_option St (tr_to (transition_of p t)) = Some (dest p t)"
proof -
  have t': "t < length (p_transitions p)" "\<not> is_internal (transition_of p t)"
    using t by (auto simp: moving_def)
  have "transition_of p t \<in> set (p_transitions p)" using t'(1) by (simp add: transition_of_def)
  then have "tr_target (transition_of p t) = None"
    using s by (auto simp: stepping_def static_targets_def Option.is_none_def)
  then show to: "tr_to (transition_of p t) \<noteq> None" using t'(2) by (simp add: is_internal_def)
  have "wf_transition p (transition_of p t)"
    using s t'(1) wf_parts(4) by (auto simp: stepping_def)
  then show "valid_sptr p (source p t)" "valid_sptr p (dest p t)"
    "map_option St (tr_to (transition_of p t)) = Some (dest p t)"
    using to by (auto simp: wf_transition_def source_def dest_def simp del: valid_sptr.simps)
qed

text \<open>The configuration after the moves \<open>D\<close> have exited.\<close>

definition left_by ::
  "('u, 'p) program \<Rightarrow> ('u, 'p) mstate \<Rightarrow> transition_id set \<Rightarrow> ('u, 'p) mstate \<Rightarrow> bool" where
  "left_by p m0 D m \<longleftrightarrow> tidy p m \<and> active_child m = active_child m0 \<and>
     (\<forall>x. valid_sptr p x \<longrightarrow>
       active m x = (active m0 x \<and> \<not> (\<exists>t \<in> D. below p (exit_root p t) x)))"

lemma config_cong:
  assumes "active m' = active m" "active_child m' = active_child m"
  shows "tidy p m' = tidy p m" "node_ok p m' x = node_ok p m x" "legal_config p m' = legal_config p m"
proof -
  show t: "tidy p m' = tidy p m" and n: "node_ok p m' x = node_ok p m x" for x
    by (simp_all only: tidy_def tidy_at_def node_ok_def assms)
  show "legal_config p m' = legal_config p m" by (simp only: legal_config_iff t n assms)
qed

lemma left_by_same: "left_by p m0 D m \<Longrightarrow> same_config m m' \<Longrightarrow> left_by p m0 D m'"
  using config_cong(1) [of m' m p] by (simp add: left_by_def same_config_def)

definition exit_inv ::
  "('u, 'p) program \<Rightarrow> ('u, 'p) mstate \<Rightarrow> (event_id \<times> transition_id) set \<Rightarrow> ('u, 'p) mstate \<Rightarrow> bool" where
  "exit_inv p m0 W m \<longleftrightarrow> in_step p m0 {} m \<and> left_by p m0 (moved p m0 W) m"

lemma transition_action_calmly:
  assumes m: "quiet p m" "in_progress m" and s: "stepping p m0"
    and t: "t < length (p_transitions p)" and a: "tr_action (transition_of p t) = Some a"
  shows "calmly p m (run_action p (ops_at (Suc n) p) (a e m') m)"
proof (rule calm_code_calmly [OF _ m])
  have "transition_of p t \<in> set (p_transitions p)" using t by (simp add: transition_of_def)
  then show "calm_code p (a e m')" "static_targets p"
    using s a unfolding stepping_def calm_def by fastforce+
qed

lemma exit_from_step:
  assumes s: "stepping p m0" and r: "step_ready p m0"
    and n: "2 * length (p_states p) + 3 \<le> n"
    and W: "W \<subseteq> step_pairs p m0" and e: "(e, t) \<in> step_pairs p m0" "(e, t) \<notin> W"
    and m: "exit_inv p m0 W m"
  shows "wp (exit_from p (ops_at n p) e t m) (exit_inv p m0 (insert (e, t) W))"
proof -
  have snd0: "sound p m0" using s by (simp add: stepping_def)
  have ist: "in_step p m0 {} m" and lb: "left_by p m0 (moved p m0 W) m"
    using m by (simp_all add: exit_inv_def)
  note q = in_step_quiet [OF s ist]
  have eq: "e \<in> set (event_queue m0)" using e by (simp add: step_pairs_def)
  obtain k where k: "n = Suc k" using n by (cases n) auto
  have tt: "t < length (p_transitions p)"
    using e snd0 wf_parts(6) [OF snd0, of e t] by (auto simp: step_pairs_def sound_def accounted_def)
  have p: "wf_states p" using quiet_wf q by blast
  show ?thesis
  proof (cases "is_internal (transition_of p t)")
    case True
    then have W': "moved p m0 (insert (e, t) W) = moved p m0 W" by (auto simp: moved_def)
    have "exit_inv p m0 (insert (e, t) W) (m\<lparr>taken := (taken m)(t := None)\<rparr>)"
      using in_step_untake [OF s ist, of t] True
        left_by_same [OF lb, of "m\<lparr>taken := (taken m)(t := None)\<rparr>"]
      by (simp add: exit_inv_def W' same_config_def active_def fun_eq_iff)
    moreover have "exit_inv p m0 (insert (e, t) W) m2" if "same_config m m2" "steady p m m2" for m2
      using that in_step_steady [OF s ist] left_by_same [OF lb] by (simp add: exit_inv_def W')
    ultimately show ?thesis
      using True m transition_action_calmly [OF _ _ s tt, of m _ k e m] q
      by (auto simp: exit_from_def Let_def exit_inv_def W' k calmly_def split: option.split elim!: wp_mono)
  next
    case False
    note ext = this
    show ?thesis
    proof (cases "taken m t = Some e")
      case False
      then have "taken m0 t \<noteq> Some e" using ist ext eq by (simp add: in_step_def)
      then have "moved p m0 (insert (e, t) W) = moved p m0 W" by (auto simp: moved_def)
      then show ?thesis using False m by (simp add: exit_from_def Let_def exit_inv_def)
    next
      case True
      then have tk: "taken m0 t = Some e" using ist ext eq by (simp add: in_step_def)
      then have mv: "t \<in> set (moving p m0)" using ext eq tt by (simp add: moving_def)
      have W': "moved p m0 (insert (e, t) W) = insert t (moved p m0 W)"
        using ext tk by (auto simp: moved_def)
      have new: "t \<notin> moved p m0 W" using tk e(2) by (auto simp: moved_def)
      note v = moving_ends [OF s mv] and shape = move_shape [OF p]
      have ready: "active m0 (source p t)" using r mv by (simp add: step_ready_def)
      have act: "active m (source p t)"
      proof -
        have "\<not> below p (exit_root p t') (source p t)" if t': "t' \<in> moved p m0 W" for t'
        proof
          assume b: "below p (exit_root p t') (source p t)"
          have mv': "t' \<in> set (moving p m0)" using moved_moving [OF snd0 W] t' by blast
          have "t \<noteq> t'" using new t' by blast
          have "independent p (moving p m0)" using r by (simp add: step_ready_def)
          then have "\<not> below p (exit_root p t) (exit_root p t')" "\<not> below p (exit_root p t') (exit_root p t)"
            using mv mv' \<open>t \<noteq> t'\<close> by (simp_all add: independent_def)
          then show False using below_linear [OF p v(1) b shape(2) [OF v(1,2)]] by simp
        qed
        then show ?thesis using lb ready v(1) unfolding left_by_def by blast
      qed
      have tgt: "target m t = Some (dest p t)"
        using ist True ext v(4) by (auto simp: in_step_def aimed_def)
      have "wp (op_exit (ops_at n p) (source p t) (Ev e) (Some (dest p t)) m)
          (\<lambda>(b, m'). b \<and> exited p (exit_top p (dest p t) (source p t)) m m' \<and> steady p m m')"
        by (rule exit_up [OF p v(1,2)]) (use q lb act n v(1) in \<open>auto simp: left_by_def rank_less_iff\<close>)
      then have ex: "wp (op_exit (ops_at n p) (source p t) (Ev e) (target m t) m)
          (\<lambda>(b, m'). b \<and> exited p (exit_root p t) m m' \<and> steady p m m')"
        by (simp add: tgt exit_root_def)
      have inv: "exit_inv p m0 (insert (e, t) W) m2"
        if "exited p (exit_root p t) m m1" "steady p m m1" "same_config m1 m2" "steady p m1 m2" for m1 m2
      proof -
        have "left_by p m0 (insert t (moved p m0 W)) m1"
          using lb exited_tidy [OF p _ that(1)] that(1) by (auto simp: left_by_def exited_def)
        then show ?thesis
          using left_by_same that(3) in_step_steady [OF s ist steady_trans [OF that(2,4)]]
          by (simp add: exit_inv_def W')
      qed
      have act_inv: "wp (case tr_action (transition_of p t) of
            Some a \<Rightarrow> if b then run_action p (ops_at n p) (a e m1) m1 else Inr m1
          | None \<Rightarrow> Inr m1) (exit_inv p m0 (insert (e, t) W))"
        if ex1: "exited p (exit_root p t) m m1" "steady p m m1" for b m1
      proof -
        have q1: "quiet p m1" "in_progress m1"
          using q quiet_steady [OF _ ex1(2)] ex1(2) by (auto simp: steady_def keeps_def)
        have "exit_inv p m0 (insert (e, t) W) m1"
          using inv [OF ex1] steady_again [OF ex1(2)] by simp
        then show ?thesis
          using transition_action_calmly [OF q1 s tt, of _ k e m1] inv [OF ex1]
          by (auto simp: k calmly_def split: option.split elim!: wp_mono)
      qed
      then show ?thesis
        using True act ext ex
        by (auto simp: exit_from_def Let_def source_def elim!: wp_mono)
    qed
  qed
qed

text \<open>The pairs of the events in \<open>es\<close>.\<close>

definition pairs_of :: "('u, 'p) program \<Rightarrow> event_id list \<Rightarrow> (event_id \<times> transition_id) set" where
  "pairs_of p es = (SIGMA e : set es. set (transition_ids p e))"

lemma pairs_of_simps:
  "pairs_of p [] = {}"
  "pairs_of p (es @ [e]) = pairs_of p es \<union> {e} \<times> set (transition_ids p e)"
  "step_pairs p m = pairs_of p (event_queue m)"
  by (auto simp: pairs_of_def step_pairs_def)

text \<open>Both phases visit the pairs in the same order; the loop over one invariant.\<close>

lemma visit_pairs:
  assumes snd0: "sound p m0"
    and start: "I {} m"
    and step: "\<And>W e t m. W \<subseteq> step_pairs p m0 \<Longrightarrow> (e, t) \<in> step_pairs p m0 \<Longrightarrow> (e, t) \<notin> W \<Longrightarrow>
      I W m \<Longrightarrow> wp (f e t m) (I (insert (e, t) W))"
    and g: "\<And>W m e. W \<subseteq> step_pairs p m0 \<Longrightarrow> I W m \<Longrightarrow> I W (g e m)"
  shows "wp (iter_res (\<lambda>e m. iter_res (f e) (transition_ids p e) (g e m)) (event_queue m0) m)
    (I (step_pairs p m0))"
proof -
  have d: "distinct (event_queue m0)" "e \<in> set (event_queue m0) \<Longrightarrow> e < length (p_events p)" for e
    using snd0 by (auto simp: sound_def accounted_def)
  have "wp (iter_res (\<lambda>e m. iter_res (f e) (transition_ids p e) (g e m)) (event_queue m0) m)
      (\<lambda>m. I (pairs_of p (event_queue m0)) m)"
  proof (rule wp_iter_res_split [where P = "\<lambda>es. I (pairs_of p es)"])
    fix es e fs m
    assume q: "event_queue m0 = es @ e # fs" and m: "I (pairs_of p es) m"
    have e: "e \<in> set (event_queue m0)" "e \<notin> set es" "set es \<subseteq> set (event_queue m0)"
      using q d(1) by auto
    have sub: "pairs_of p es \<subseteq> step_pairs p m0"
      using e(3) by (auto simp: pairs_of_def step_pairs_def)
    have dt: "distinct (transition_ids p e)" using wf_parts(5) [OF snd0 d(2) [OF e(1)]] .
    have "wp (iter_res (f e) (transition_ids p e) (g e m))
        (\<lambda>m. I (pairs_of p es \<union> {e} \<times> set (transition_ids p e)) m)"
    proof (rule wp_iter_res_split [where P = "\<lambda>ys. I (pairs_of p es \<union> {e} \<times> set ys)"])
      fix ys t zs m1
      assume ts: "transition_ids p e = ys @ t # zs" and m1: "I (pairs_of p es \<union> {e} \<times> set ys) m1"
      have "(e, t) \<in> step_pairs p m0" "(e, t) \<notin> pairs_of p es \<union> {e} \<times> set ys"
        "pairs_of p es \<union> {e} \<times> set ys \<subseteq> step_pairs p m0"
        using ts e sub dt by (auto simp: step_pairs_def pairs_of_def)
      from step [OF this(3,1,2) m1] show "wp (f e t m1) (I (pairs_of p es \<union> {e} \<times> set (ys @ [t])))"
        by (simp add: insert_commute Un_commute)
    qed (use g [OF sub m] in simp)
    then show "wp (iter_res (f e) (transition_ids p e) (g e m)) (I (pairs_of p (es @ [e])))"
      by (simp add: pairs_of_simps)
  qed (use start in \<open>simp add: pairs_of_simps\<close>)
  then show ?thesis by (simp add: pairs_of_simps)
qed

lemma phase_exit_step:
  assumes s: "stepping p m0" and r: "step_ready p m0" and td: "tidy p m0"
    and n: "2 * length (p_states p) + 3 \<le> n"
  shows "wp (phase_exit p (ops_at n p) (event_queue m0) m0) (exit_inv p m0 (step_pairs p m0))"
  unfolding phase_exit_def
proof (rule visit_pairs [where I = "exit_inv p m0"])
  show "sound p m0" using s by (simp add: stepping_def)
  show "exit_inv p m0 {} m0"
    using in_step_refl [OF s] td by (simp add: exit_inv_def left_by_def moved_def)
  fix W m e assume m: "exit_inv p m0 W m"
  then have "in_step p m0 {} m" by (simp add: exit_inv_def)
  with share_params_steady [of p m e] show "exit_inv p m0 W (share_params p e m)"
    using m in_step_steady [OF s] left_by_same in_step_quiet [OF s] quiet_sound
    unfolding exit_inv_def by blast
next
  fix W e t m
  assume "W \<subseteq> step_pairs p m0" "(e, t) \<in> step_pairs p m0" "(e, t) \<notin> W" "exit_inv p m0 W m"
  then show "wp (exit_from p (ops_at n p) e t m) (exit_inv p m0 (insert (e, t) W))"
    by (rule exit_from_step [OF s r n])
qed

section \<open>Phase II\<close>

text \<open>A configuration that lacks only what the moves \<open>R\<close> have yet to enter.\<close>

definition gap_ok ::
  "('u, 'p) program \<Rightarrow> transition_id set \<Rightarrow> ('u, 'p) mstate \<Rightarrow> sptr \<Rightarrow> bool" where
  "gap_ok p R m x \<longleftrightarrow> (active m x \<longrightarrow>
     (case kind_of p x of
        Plain \<Rightarrow> True
      | Cluster _ cs \<Rightarrow> (\<exists>c \<in> set (map St cs). active m c) \<or> (\<exists>t \<in> R. parent_of p (exit_root p t) = Some x)
      | Set cs \<Rightarrow> \<forall>c \<in> set (map St cs). active m c \<or> (\<exists>t \<in> R. exit_root p t = c)))"

definition awaits ::
  "('u, 'p) program \<Rightarrow> transition_id set \<Rightarrow> ('u, 'p) mstate \<Rightarrow> bool" where
  "awaits p R m \<longleftrightarrow> tidy p m \<and>
     (\<forall>x. valid_sptr p x \<longrightarrow> gap_ok p R m x) \<and>
     (\<forall>t \<in> R. permits p m (entry_root p t) \<and>
        (\<forall>x. valid_sptr p x \<longrightarrow> below p (entry_root p t) x \<longrightarrow> \<not> active m x)) \<and>
     (active m Root \<or> (\<exists>t \<in> R. exit_root p t = Root))"

text \<open>The moves in the configuration the step began with: pairwise apart.\<close>

lemma moves_apart:
  assumes s: "stepping p m0" and r: "step_ready p m0" and m0: "legal_config p m0"
    and t: "t \<in> set (moving p m0)" "t' \<in> set (moving p m0)" "t \<noteq> t'"
  shows "\<not> below p (entry_root p t) (entry_root p t')"
    and "parent_of p (entry_root p t') = Some q \<Longrightarrow> \<not> below p (entry_root p t) q"
    and "parent_of p (entry_root p t') = Some q \<Longrightarrow> parent_of p (entry_root p t) = Some q \<Longrightarrow>
      is_set (kind_of p q)"
proof -
  have p: "wf_states p" using s by (simp add: stepping_def sound_def wf_program_def)
  have td: "tidy p m0" using m0 by (simp add: legal_config_iff)
  note v = moving_ends [OF s t(1)] and v' = moving_ends [OF s t(2)]
  note sh = move_shape [OF p v(1,2)] and sh' = move_shape [OF p v'(1,2)]
  have ind: "\<not> below p (exit_root p t) (exit_root p t')" "\<not> below p (exit_root p t') (exit_root p t)"
    using r t by (auto simp: step_ready_def independent_def)
  have act: "active m0 (exit_root p t)" "active m0 (exit_root p t')"
    using r t tidy_ancestors [OF p v(1) td _ sh(2)] tidy_ancestors [OF p v'(1) td _ sh'(2)]
    by (auto simp: step_ready_def)
  have eq: "entry_root p t = exit_root p t"
    if e: "active m0 (entry_root p t)"
  proof (cases "parent_of p (exit_root p t)")
    case None
    then show ?thesis
      using sh(5) wf_parent_None [OF p sh(1)] wf_parent_None [OF p sh(3)] by metis
  next
    case (Some q)
    note qv = wf_parent [OF p sh(1) Some]
    have mem: "entry_root p t \<in> set (children p q)" using wf_parent(3) [OF p sh(3)] sh(5) Some by simp
    have aq: "active m0 q" using tidy_parent [OF td sh(1) act(1) Some] .
    show ?thesis
    proof (cases "is_set (kind_of p q)")
      case True
      then show ?thesis
        using legal_in_component [OF p v(1,2) _ Some] r t(1) by (auto simp: step_ready_def move_ok_def)
    next
      case False
      then have "is_cluster (kind_of p q)" using wf_parent_not_Plain [OF p sh(1) Some] by blast
      from tidy_child [OF td qv(1) aq this] show ?thesis using mem qv(3) e act(1) by metis
    qed
  qed
  have above: "\<not> below p (entry_root p t) q" if q: "parent_of p (entry_root p t') = Some q" for q
  proof
    assume b: "below p (entry_root p t) q"
    have q': "parent_of p (exit_root p t') = Some q" using sh'(5) q by simp
    note qv = wf_parent [OF p sh'(1) q']
    have "active m0 q" using tidy_parent [OF td sh'(1) act(2) q'] .
    then have "entry_root p t = exit_root p t" using eq tidy_ancestors [OF p qv(1) td _ b] by blast
    then show False using ind(1) below_parent [OF p sh'(1) q' b] by simp
  qed
  then show "parent_of p (entry_root p t') = Some q \<Longrightarrow> \<not> below p (entry_root p t) q" .
  have same: "is_set (kind_of p q)"
    if q: "parent_of p (entry_root p t') = Some q" "parent_of p (entry_root p t) = Some q" for q
  proof (rule ccontr)
    assume "\<not> is_set (kind_of p q)"
    moreover have par: "parent_of p (exit_root p t) = Some q" "parent_of p (exit_root p t') = Some q"
      using q sh(5) sh'(5) by simp_all
    ultimately have c: "is_cluster (kind_of p q)" using wf_parent_not_Plain [OF p sh(1)] by blast
    note qv = wf_parent [OF p sh(1) par(1)] and qv' = wf_parent [OF p sh'(1) par(2)]
    have "active m0 q" using tidy_parent [OF td sh(1) act(1) par(1)] .
    from tidy_child [OF td qv(1) this c] have "exit_root p t = exit_root p t'"
      using qv(3) qv'(3) act by metis
    then show False using ind(1) p sh(1) by simp
  qed
  then show "parent_of p (entry_root p t') = Some q \<Longrightarrow> parent_of p (entry_root p t) = Some q \<Longrightarrow>
      is_set (kind_of p q)" .
  show "\<not> below p (entry_root p t) (entry_root p t')"
  proof
    assume b: "below p (entry_root p t) (entry_root p t')"
    show False
    proof (cases "entry_root p t = entry_root p t'")
      case True
      show False
      proof (cases "parent_of p (entry_root p t')")
        case None
        then have "exit_root p t = exit_root p t'"
          using True sh(5) sh'(5) wf_parent_None [OF p sh(1)] wf_parent_None [OF p sh'(1)] by metis
        then show False using ind(1) p sh(1) by simp
      next
        case (Some q)
        then have "is_set (kind_of p q)" using same True by simp
        moreover have "parent_of p (exit_root p t) = Some q" "parent_of p (exit_root p t') = Some q"
          using Some True sh(5) sh'(5) by simp_all
        moreover have "is_legal p (Some (source p t)) (Some (dest p t))"
          "is_legal p (Some (source p t')) (Some (dest p t'))"
          using r t by (simp_all add: step_ready_def move_ok_def)
        ultimately have "entry_root p t = exit_root p t" "entry_root p t' = exit_root p t'"
          using legal_in_component [OF p v(1,2)] legal_in_component [OF p v'(1,2)] by blast+
        then show False using True ind(1) p sh(1) by simp
      qed
    next
      case False
      then show False using b above below_unfold [OF p sh'(3)] by blast
    qed
  qed
qed

text \<open>Phase I leaves a configuration that awaits all moves.\<close>

lemma left_awaits:
  assumes s: "stepping p m0" and r: "step_ready p m0" and m0: "legal_config p m0"
    and m: "left_by p m0 (set (moving p m0)) m"
  shows "awaits p (set (moving p m0)) m"
proof -
  let ?T = "set (moving p m0)"
  have p: "wf_states p" using s by (simp add: stepping_def sound_def wf_program_def)
  have td0: "tidy p m0" and td: "tidy p m" and ac: "active_child m = active_child m0"
    using m0 m by (simp_all add: legal_config_iff left_by_def)
  have act: "active m x \<longleftrightarrow> active m0 x \<and> \<not> (\<exists>t \<in> ?T. below p (exit_root p t) x)" if "valid_sptr p x" for x
    using m that by (simp add: left_by_def)
  have gone: "\<exists>t \<in> ?T. exit_root p t = c"
    if c: "valid_sptr p x" "active m x" "c \<in> set (children p x)" "active m0 c" "\<not> active m c" for x c
  proof -
    note cc = child_below [OF p c(1,3)]
    obtain t where t: "t \<in> ?T" "below p (exit_root p t) c" using act [OF cc(1)] c(4,5) by blast
    have "\<not> below p (exit_root p t) x" using act [OF c(1)] c(2) t(1) by blast
    then have "exit_root p t = c" using t(2) below_unfold [OF p cc(1)] cc(2) by auto
    then show ?thesis using t(1) by blast
  qed
  have gap: "gap_ok p ?T m x" if x: "valid_sptr p x" for x
  proof (cases "active m x")
    case True
    then have "active m0 x" "node_ok p m0 x" using act [OF x] m0 x by (auto simp: legal_config_iff)
    then show ?thesis
      using gone [OF x True] child_below(2) [OF p x] True
      by (cases "kind_of p x") (fastforce simp: gap_ok_def node_ok_def)+
  qed (simp add: gap_ok_def)
  have each: "permits p m (entry_root p t) \<and>
      (\<forall>x. valid_sptr p x \<longrightarrow> below p (entry_root p t) x \<longrightarrow> \<not> active m x)" if t: "t \<in> ?T" for t
  proof -
    note v = moving_ends [OF s t]
    note sh = move_shape [OF p v(1,2)]
    have au: "active m0 (exit_root p t)" "\<not> active m (exit_root p t)"
      using r t tidy_ancestors [OF p v(1) td0 _ sh(2)] act [OF sh(1)] below_refl [OF p sh(1)]
      by (auto simp: step_ready_def)
    show ?thesis
    proof (cases "parent_of p (exit_root p t)")
      case None
      then have "entry_root p t = exit_root p t"
        using sh(5) wf_parent_None [OF p sh(1)] wf_parent_None [OF p sh(3)] by metis
      then show ?thesis using None au(2) tidy_inactive [OF p td] sh(5) by (auto simp: permits_def)
    next
      case (Some q)
      note qv = wf_parent [OF p sh(1) Some]
      have aq: "active m0 q" using tidy_parent [OF td0 sh(1) au(1) Some] .
      have "\<not> below p (exit_root p t') q" if t': "t' \<in> ?T" for t'
      proof
        assume b: "below p (exit_root p t') q"
        then have "below p (exit_root p t') (exit_root p t)" "t' \<noteq> t"
          using below_parent [OF p sh(1) Some] not_below_parent [OF p sh(1) Some] by auto
        then show False using r t t' by (auto simp: step_ready_def independent_def)
      qed
      then have aq1: "active m q" using act [OF qv(1)] aq by blast
      have mem: "entry_root p t \<in> set (children p q)" using wf_parent(3) [OF p sh(3)] sh(5) Some by simp
      have "\<not> active m (entry_root p t) \<and> permits p m (entry_root p t)"
      proof (cases "is_set (kind_of p q)")
        case True
        then have "entry_root p t = exit_root p t"
          using legal_in_component [OF p v(1,2) _ Some] r t by (auto simp: step_ready_def move_ok_def)
        moreover have "\<not> is_cluster (kind_of p q)" using True by (cases "kind_of p q") auto
        ultimately show ?thesis using au aq1 sh(5) Some by (simp add: permits_def)
      next
        case False
        then have c: "is_cluster (kind_of p q)" using wf_parent_not_Plain [OF p sh(1) Some] by blast
        obtain c where c': "active_child m0 q = Some c" "\<forall>c' \<in> set (children p q). active m0 c' \<longrightarrow> c' = c"
          using tidy_child [OF td0 qv(1) aq c] by blast
        then have "c = exit_root p t" using qv(3) au(1) by blast
        moreover have "active m (entry_root p t) \<Longrightarrow> entry_root p t = c"
          using c'(2) mem act [OF sh(3)] by blast
        ultimately show ?thesis using c'(1) c au(2) ac aq1 sh(5) Some by (auto simp: permits_def)
      qed
      then show ?thesis using tidy_inactive [OF p td] by blast
    qed
  qed
  have "active m Root \<or> (\<exists>t \<in> ?T. exit_root p t = Root)"
    using act [of Root] m0 below_unfold [OF p, of Root] p by (auto simp: legal_config_iff)
  then show ?thesis using td gap each by (simp add: awaits_def)
qed

text \<open>One move enters its target.\<close>

lemma awaits_enter:
  assumes s: "stepping p m0" and r: "step_ready p m0" and m0: "legal_config p m0"
    and R: "R \<subseteq> set (moving p m0)" and t: "t \<in> R"
    and m: "sound p m" "awaits p R m" and e: "entered p (entry_root p t) m m'"
  shows "awaits p (R - {t}) m'"
proof -
  have p: "wf_states p" using s by (simp add: stepping_def sound_def wf_program_def)
  have tm: "t \<in> set (moving p m0)" using t R by blast
  note v = moving_ends [OF s tm]
  note sh = move_shape [OF p v(1,2)]
  let ?v = "entry_root p t"
  have td: "tidy p m" and per: "permits p m ?v" using m(2) t by (simp_all add: awaits_def)
  have fr: "active m' x = active m x" "active_child m' x =
      (if parent_of p ?v = Some x \<and> is_cluster (kind_of p x) then Some ?v else active_child m x)"
    if "valid_sptr p x" "\<not> below p ?v x" for x
    using e that by (simp_all add: entered_def framed_def)
  have ins: "complete_at p m' x" if "valid_sptr p x" "below p ?v x" for x
    using e that by (simp add: entered_def)
  have av: "active m' ?v" using e by (simp add: entered_def)
  have kid: "active m' c = (c = ?v \<or> active m c)" if c: "valid_sptr p x" "\<not> below p ?v x" "c \<in> set (children p x)" for x c
  proof -
    note cc = child_below [OF p c(1,3)]
    have "below p ?v c \<longleftrightarrow> c = ?v" using below_unfold [OF p cc(1)] cc(2) c(2) by auto
    then show ?thesis using fr(1) [OF cc(1)] av by auto
  qed
  have par: "active m' q = active m q" if q: "valid_sptr p x" "\<not> below p ?v x" "parent_of p x = Some q" for x q
    using fr(1) [OF wf_parent(1) [OF p q(1,3)]] below_parent [OF p q(1,3)] q(2) by blast
  have vkid: "?v \<in> set (children p x) \<longleftrightarrow> parent_of p ?v = Some x" if "valid_sptr p x" for x
    using wf_child_iff [OF p that sh(3)] .
  have td': "tidy_at p m' x" if x: "valid_sptr p x" for x
  proof (cases "below p ?v x")
    case True
    then show ?thesis using ins [OF x] by (simp add: complete_at_def)
  next
    case False
    have a: "tidy_at p m x" using td x by (simp add: tidy_iff)
    show ?thesis
    proof (cases "parent_of p ?v = Some x \<and> is_cluster (kind_of p x)")
      case True
      then have "\<not> active m c" if c: "c \<in> set (children p x)" for c
        using per a c by (auto simp: permits_def tidy_at_def split: option.splits)
      then show ?thesis
        using a True fr [OF x False] kid [OF x False] par [OF x False]
        by (auto simp: tidy_at_def split: option.splits)
    next
      case False
      then have "is_cluster (kind_of p x) \<Longrightarrow> c \<in> set (children p x) \<Longrightarrow> active m' c = active m c" for c
        using kid [OF x \<open>\<not> below p ?v x\<close>] vkid [OF x] by blast
      then show ?thesis
        using a False fr [OF x \<open>\<not> below p ?v x\<close>] par [OF x \<open>\<not> below p ?v x\<close>]
        by (auto simp: tidy_at_def split: option.splits if_splits)
    qed
  qed
  have gap: "gap_ok p (R - {t}) m' x" if x: "valid_sptr p x" for x
  proof (cases "below p ?v x")
    case True
    then show ?thesis
      using ins [OF x] by (cases "kind_of p x") (auto simp: complete_at_def node_ok_def gap_ok_def)
  next
    case False
    have g: "gap_ok p R m x" using m(2) x by (simp add: awaits_def)
    have new: "c \<in> set (children p x) \<Longrightarrow> active m c \<Longrightarrow> active m' c"
      "parent_of p (exit_root p t) = Some x \<Longrightarrow> \<exists>c \<in> set (children p x). active m' c" for c
      using kid [OF x False] vkid [OF x] sh(5) av by auto
    have refill: "active m' (exit_root p t)" if "is_set (kind_of p x)" "exit_root p t \<in> set (children p x)"
      using legal_in_component [OF p v(1,2) _ child_below(2) [OF p x that(2)] that(1)] r tm av
      by (simp add: step_ready_def move_ok_def)
    show ?thesis
    proof (cases "kind_of p x")
      case (Cluster h cs)
      then have "active m x \<Longrightarrow> (\<exists>c \<in> set (children p x). active m c) \<or>
          (\<exists>t \<in> R. parent_of p (exit_root p t) = Some x)"
        using g by (simp add: gap_ok_def)
      then have "active m x \<Longrightarrow> (\<exists>c \<in> set (children p x). active m' c) \<or>
          (\<exists>t' \<in> R - {t}. parent_of p (exit_root p t') = Some x)"
        using new by blast
      then show ?thesis using fr(1) [OF x False] Cluster by (simp add: gap_ok_def)
    next
      case (Set cs)
      then have "active m x \<Longrightarrow> c \<in> set (children p x) \<Longrightarrow> active m c \<or> (\<exists>t \<in> R. exit_root p t = c)" for c
        using g unfolding gap_ok_def Set by auto
      moreover have "is_set (kind_of p x)" using Set by simp
      ultimately have "active m x \<Longrightarrow> c \<in> set (children p x) \<Longrightarrow>
          active m' c \<or> (\<exists>t' \<in> R - {t}. exit_root p t' = c)" for c
        using new(1) refill by blast
      then show ?thesis using fr(1) [OF x False] Set by (auto simp: gap_ok_def)
    qed (simp add: gap_ok_def)
  qed
  have each: "permits p m' (entry_root p t') \<and>
      (\<forall>x. valid_sptr p x \<longrightarrow> below p (entry_root p t') x \<longrightarrow> \<not> active m' x)" if t': "t' \<in> R - {t}" for t'
  proof -
    have tm': "t' \<in> set (moving p m0)" and ne: "t \<noteq> t'" using t' R by auto
    note v' = moving_ends [OF s tm']
    note sh' = move_shape [OF p v'(1,2)]
    note ap = moves_apart [OF s r m0 tm tm' ne] and ap' = moves_apart [OF s r m0 tm' tm ne [symmetric]]
    have old: "permits p m (entry_root p t')"
      "\<And>x. valid_sptr p x \<Longrightarrow> below p (entry_root p t') x \<Longrightarrow> \<not> active m x"
      using m(2) t' by (auto simp: awaits_def)
    have "\<not> active m' x" if x: "valid_sptr p x" "below p (entry_root p t') x" for x
      using fr(1) [OF x(1)] old(2) [OF x] below_linear [OF p x(1) x(2)] ap(1) ap'(1) by blast
    moreover have "permits p m' (entry_root p t')"
    proof (cases "parent_of p (entry_root p t')")
      case (Some q)
      note qv = wf_parent [OF p sh'(3) Some]
      have nb: "\<not> below p ?v q" using ap(2) [OF Some] .
      have "active_child m' q = active_child m q" if "is_cluster (kind_of p q)"
        using fr(2) [OF qv(1) nb] ap(3) [OF Some] that by (cases "kind_of p q") auto
      moreover have "\<not> active m' c"
        if c: "is_cluster (kind_of p q)" "active_child m q = Some c" "\<not> active m c" for c
      proof -
        have "valid_sptr p c" "parent_of p c = Some q"
          using m(1) typed_childD [of p "active_child m" q c] c(2) by (auto simp: sound_def typed_def)
        then have cc: "c \<in> set (children p q)" using wf_child_iff [OF p qv(1)] by blast
        have "\<not> is_set (kind_of p q)" using c(1) by (cases "kind_of p q") auto
        then have "c \<noteq> ?v" using vkid [OF qv(1)] ap(3) [OF Some] cc by blast
        then show ?thesis using kid [OF qv(1) nb cc] c(3) by blast
      qed
      ultimately show ?thesis
        using old(1) Some fr(1) [OF qv(1) nb] by (auto simp: permits_def split: option.splits)
    qed (simp add: permits_def)
    ultimately show ?thesis by blast
  qed
  have "active m' Root \<or> (\<exists>t' \<in> R - {t}. exit_root p t' = Root)"
  proof (cases "below p ?v Root")
    case True
    then show ?thesis using av below_unfold [OF p, of Root ?v] p by simp
  next
    case False
    then have "?v \<noteq> Root" using p by auto
    then have "exit_root p t \<noteq> Root"
      using sh(5) wf_parent_None [OF p sh(3)] wf_parent_None [OF p sh(1)] by auto
    then show ?thesis using m(2) fr(1) [OF _ False] by (auto simp: awaits_def)
  qed
  then show ?thesis using td' gap each by (simp add: awaits_def tidy_iff)
qed

text \<open>The states the moves do not touch.\<close>

definition untouched :: "('u, 'p) program \<Rightarrow> transition_id set \<Rightarrow> sptr \<Rightarrow> bool" where
  "untouched p ts x \<longleftrightarrow> valid_sptr p x \<and> (\<forall>t \<in> ts. \<not> below p (exit_root p t) x \<and> \<not> below p (entry_root p t) x)"

definition enter_inv ::
  "('u, 'p) program \<Rightarrow> ('u, 'p) mstate \<Rightarrow> (event_id \<times> transition_id) set \<Rightarrow> ('u, 'p) mstate \<Rightarrow> bool" where
  "enter_inv p m0 W m \<longleftrightarrow> in_step p m0 (moved p m0 W) m \<and>
     awaits p (set (moving p m0) - moved p m0 W) m \<and>
     (\<forall>t \<in> moved p m0 W. active m (dest p t)) \<and>
     (\<forall>x. untouched p (set (moving p m0)) x \<longrightarrow> active m x = active m0 x)"

lemma in_step_same:
  "in_step p m0 C m \<Longrightarrow> C = C' \<Longrightarrow> in_step p m0 C' m"
  by simp

lemma awaits_same:
  assumes "awaits p R m" "active m' = active m" "active_child m' = active_child m"
  shows "awaits p R m'"
proof -
  have "gap_ok p R m' x = gap_ok p R m x" "permits p m' x = permits p m x" "tidy p m' = tidy p m" for x
    by (simp_all only: gap_ok_def permits_def assms config_cong(1) [OF assms(2,3)])
  then show ?thesis using assms by (simp add: awaits_def)
qed

lemma enter_to_step:
  assumes s: "stepping p m0" and r: "step_ready p m0" and m0: "legal_config p m0"
    and n: "2 * length (p_states p) + 3 \<le> n"
    and W: "W \<subseteq> step_pairs p m0" and e: "(e, t) \<in> step_pairs p m0" "(e, t) \<notin> W"
    and m: "enter_inv p m0 W m"
  shows "wp (enter_to p (ops_at n p) e t m) (enter_inv p m0 (insert (e, t) W))"
proof -
  have snd0: "sound p m0" using s by (simp add: stepping_def)
  have ist: "in_step p m0 (moved p m0 W) m" and aw: "awaits p (set (moving p m0) - moved p m0 W) m"
    using m by (simp_all add: enter_inv_def)
  note q = in_step_quiet [OF s ist]
  have eq: "e \<in> set (event_queue m0)" using e by (simp add: step_pairs_def)
  have p: "wf_states p" using quiet_wf q by blast
  have tt: "t < length (p_transitions p)"
    using e snd0 wf_parts(6) [OF snd0, of e t] by (auto simp: step_pairs_def sound_def accounted_def)
  have upd: "active (m1\<lparr>taken := (taken m1)(t := None)\<rparr>) = active m1" for m1 :: "('a, 'b) mstate"
    by (simp add: active_def fun_eq_iff)
  show ?thesis
  proof (cases "is_internal (transition_of p t)")
    case True
    then have W': "moved p m0 (insert (e, t) W) = moved p m0 W" by (auto simp: moved_def)
    have "enter_inv p m0 (insert (e, t) W) (m\<lparr>taken := (taken m)(t := None)\<rparr>)"
      using in_step_untake [OF s ist, of t] True m
        awaits_same [OF aw, of "m\<lparr>taken := (taken m)(t := None)\<rparr>"] upd
      by (simp add: enter_inv_def W')
    then show ?thesis using True m W' by (simp add: enter_to_def enter_inv_def)
  next
    case False
    note ext = this
    show ?thesis
    proof (cases "taken m t = Some e")
      case False
      have "t \<notin> moved p m0 W \<or> taken m0 t \<noteq> Some e" using e(2) by (auto simp: moved_def)
      then have "taken m0 t \<noteq> Some e" using ist ext eq False by (auto simp: in_step_def)
      then have "moved p m0 (insert (e, t) W) = moved p m0 W" by (auto simp: moved_def)
      then show ?thesis using False m by (simp add: enter_to_def enter_inv_def)
    next
      case True
      then have tk: "taken m0 t = Some e" "t \<notin> moved p m0 W"
        using ist ext eq by (auto simp: in_step_def)
      then have mv: "t \<in> set (moving p m0)" using ext eq tt by (simp add: moving_def)
      have W': "moved p m0 (insert (e, t) W) = insert t (moved p m0 W)"
        using ext tk by (auto simp: moved_def)
      note v = moving_ends [OF s mv]
      note sh = move_shape [OF p v(1,2)]
      have R: "t \<in> set (moving p m0) - moved p m0 W" using mv tk(2) by simp
      have tgt: "target m t = Some (dest p t)"
        using ist True ext v(4) by (auto simp: in_step_def aimed_def)
      have "entry_path p (entry_root p t) (dest p t)"
        using r mv by (simp add: step_ready_def move_ok_def)
      moreover have "permits p m (entry_root p t)"
        "\<And>x. valid_sptr p x \<Longrightarrow> below p (entry_root p t) x \<Longrightarrow> \<not> active m x"
        using aw R by (auto simp: awaits_def)
      ultimately have ent: "wp (op_enter (ops_at n p) (dest p t) (Ev e) None m)
          (\<lambda>(_, m'). entered p (entry_root p t) m m' \<and> active m' (dest p t) \<and> steady p m m')"
        using q n v(2) by (intro enter_target) (auto simp: rank_less_iff)
      have inv: "enter_inv p m0 (insert (e, t) W) (m1\<lparr>taken := (taken m1)(t := None)\<rparr>)"
        if m1: "entered p (entry_root p t) m m1" "active m1 (dest p t)" "steady p m m1" for m1
      proof -
        have "awaits p (set (moving p m0) - moved p m0 W - {t}) m1"
          using awaits_enter [OF s r m0 _ R quiet_sound aw m1(1)] q by blast
        moreover have "set (moving p m0) - moved p m0 W - {t} =
            set (moving p m0) - moved p m0 (insert (e, t) W)" by (auto simp: W')
        ultimately have "awaits p (set (moving p m0) - moved p m0 (insert (e, t) W))
            (m1\<lparr>taken := (taken m1)(t := None)\<rparr>)"
          using awaits_same [of p _ m1 "m1\<lparr>taken := (taken m1)(t := None)\<rparr>"] upd by simp
        moreover have "in_step p m0 (insert t (moved p m0 W)) (m1\<lparr>taken := (taken m1)(t := None)\<rparr>)"
          using in_step_untake [OF s in_step_steady [OF s ist m1(3)], of t] ext by simp
        moreover have "active m1 (dest p t')" if t': "t' \<in> moved p m0 W" for t'
        proof -
          have mv': "t' \<in> set (moving p m0)" using moved_moving [OF snd0 W] t' by blast
          have ne: "t \<noteq> t'" using tk(2) t' by blast
          note v' = moving_ends [OF s mv']
          note sh' = move_shape [OF p v'(1,2)]
          have "\<not> below p (entry_root p t) (dest p t')"
            using below_linear [OF p v'(2) _ sh'(4)] moves_apart(1) [OF s r m0 mv mv' ne]
              moves_apart(1) [OF s r m0 mv' mv ne [symmetric]] by blast
          then have "active m1 (dest p t') = active m (dest p t')"
            using m1(1) v'(2) by (simp add: entered_def framed_def)
          then show ?thesis using m t' by (simp add: enter_inv_def)
        qed
        moreover have "active m1 x = active m0 x" if "untouched p (set (moving p m0)) x" for x
          using that mv m1(1) m by (simp add: enter_inv_def untouched_def entered_def framed_def)
        ultimately show ?thesis using m1(2) upd by (auto simp: enter_inv_def W')
      qed
      then show ?thesis
        using True ext tgt ent by (auto simp: enter_to_def elim!: wp_mono)
    qed
  qed
qed

lemma phase_enter_step:
  assumes s: "stepping p m0" and r: "step_ready p m0" and m0: "legal_config p m0"
    and n: "2 * length (p_states p) + 3 \<le> n"
    and m: "exit_inv p m0 (step_pairs p m0) m"
  shows "wp (phase_enter p (ops_at n p) (event_queue m0) m) (enter_inv p m0 (step_pairs p m0))"
  unfolding phase_enter_def
proof (rule visit_pairs [where I = "enter_inv p m0" and g = "\<lambda>_ m. m"])
  show snd0: "sound p m0" using s by (simp add: stepping_def)
  have lb: "left_by p m0 (set (moving p m0)) m" using m moving_moved [OF snd0] by (simp add: exit_inv_def)
  have "\<forall>x. untouched p (set (moving p m0)) x \<longrightarrow> active m x = active m0 x"
    using lb by (auto simp: left_by_def untouched_def)
  with left_awaits [OF s r m0 lb] show "enter_inv p m0 {} m"
    using m by (simp add: enter_inv_def exit_inv_def moved_def)
next
  fix W e t m
  assume "W \<subseteq> step_pairs p m0" "(e, t) \<in> step_pairs p m0" "(e, t) \<notin> W" "enter_inv p m0 W m"
  then show "wp (enter_to p (ops_at n p) e t m) (enter_inv p m0 (insert (e, t) W))"
    by (rule enter_to_step [OF s r m0 n])
qed

section \<open>The whole micro-step\<close>

lemma phase_dequeue_config:
  "wlp (phase_dequeue i p m) (\<lambda>m'. active m' = active m \<and> active_child m' = active_child m \<and>
     taken m' = taken m \<and> target m' = target m)"
proof (induction i arbitrary: m)
  case (Suc i)
  show ?case
  proof (cases "event_queue m")
    case (Cons e q)
    have "active (broadcasted p e m\<lparr>event_queue := q\<rparr>) = active m"
      by (simp add: active_flag fun_eq_iff)
    then show ?thesis
      using Suc.IH [of "broadcasted p e m\<lparr>event_queue := q\<rparr>"] Cons by (simp add: Let_def)
  qed simp
qed simp

lemma aimed_cong: "taken m' = taken m \<Longrightarrow> target m' = target m \<Longrightarrow> aimed p m' = aimed p m"
  by (simp add: aimed_def)

lemma awaits_nothing: "awaits p {} m \<Longrightarrow> legal_config p m"
proof -
  have "node_ok p m x" if "gap_ok p {} m x" for x
    using that by (cases "kind_of p x") (auto simp: gap_ok_def node_ok_def)
  then show "awaits p {} m \<Longrightarrow> legal_config p m" by (simp add: awaits_def legal_config_iff)
qed

lemma micro_step_legal:
  assumes s: "stepping p m" and r: "step_ready p m" and m: "legal_config p m"
    and n: "2 * length (p_states p) + 3 \<le> n"
  shows "wp (micro_step p (ops_at n p) m) (\<lambda>m'. legal_config p m' \<and> stepping p m' \<and>
    (\<forall>t \<in> set (moving p m). active m' (dest p t)) \<and>
    (\<forall>x. untouched p (set (moving p m)) x \<longrightarrow> active m' x = active m x))"
proof -
  have snd: "sound p m" and td: "tidy p m" using s m by (simp_all add: stepping_def legal_config_iff)
  let ?Q = "\<lambda>m'. legal_config p m' \<and> stepping p m' \<and> (\<forall>t \<in> set (moving p m). active m' (dest p t)) \<and>
    (\<forall>x. untouched p (set (moving p m)) x \<longrightarrow> active m' x = active m x)"
  have fin: "wp (phase_dequeue (length (event_queue m)) p m2) ?Q"
    if m2: "enter_inv p m (step_pairs p m) m2" for m2
  proof -
    have ist: "in_step p m (moved p m (step_pairs p m)) m2" and aw: "awaits p {} m2"
      and d: "\<forall>t \<in> set (moving p m). active m2 (dest p t)"
        "\<forall>x. untouched p (set (moving p m)) x \<longrightarrow> active m2 x = active m x"
      using m2 moving_moved [OF snd] by (auto simp: enter_inv_def)
    have k: "keeps p m m2" "in_progress m2" "aimed p m2"
      using ist s by (auto simp: in_step_def stepping_def keeps_def)
    have "length (event_queue m) \<le> length (event_queue m2)"
      using k s prefix_length_le by (auto simp: keeps_def stepping_def)
    from acct.phase_dequeue_drains [OF keeps_sound [OF k(1)] k(2) this]
    have "wp (phase_dequeue (length (event_queue m)) p m2) (\<lambda>m'. sound p m' \<and> in_progress m')"
      by (auto elim!: wp_mono)
    from wp_conjI [OF this phase_dequeue_config] show ?thesis
    proof (rule wp_mono)
      fix m' assume m': "(sound p m' \<and> in_progress m') \<and> active m' = active m2 \<and>
        active_child m' = active_child m2 \<and> taken m' = taken m2 \<and> target m' = target m2"
      then have "legal_config p m'"
        using config_cong(3) [of m' m2 p] awaits_nothing [OF aw] by simp
      moreover have "aimed p m'" using m' k(3) aimed_cong [of m' m2 p] by simp
      ultimately show "?Q m'" using m' d s by (simp add: stepping_def)
    qed
  qed
  have "wp (phase_enter p (ops_at n p) (event_queue m) m1)
      (\<lambda>m2. wp (phase_dequeue (length (event_queue m)) p m2) ?Q)"
    if "exit_inv p m (step_pairs p m) m1" for m1
    by (rule wp_mono [OF phase_enter_step [OF s r m n that] fin])
  then show ?thesis
    unfolding micro_step_def Let_def wp_simps
    by (rule wp_mono [OF phase_exit_step [OF s r td n]])
qed

end
