(* ===== verification/Chsm_Machines.thy ===== *)
theory Chsm_Machines
  imports Chsm_Step
begin

text \<open>
  Small machines, as the compiler would lay them out, on which the properties are
  instantiated and the flaws of the library are exhibited.
\<close>

definition plain_state :: "string \<Rightarrow> sptr option \<Rightarrow> kind \<Rightarrow> (nat, nat) state_desc" where
  "plain_state n q k = \<lparr>sd_name = n, sd_parent = q, sd_kind = k, sd_enter_action = None,
     sd_exit_action = None, sd_enter_event = None, sd_exit_event = None\<rparr>"

definition move_to :: "nat \<Rightarrow> nat \<Rightarrow> (nat, nat) transition" where
  "move_to a b = \<lparr>tr_condition = None, tr_from = a, tr_to = Some b, tr_target = None,
     tr_action = None\<rparr>"

definition plain_event :: "string \<Rightarrow> nat option \<Rightarrow> nat list \<Rightarrow> (nat, nat) event_desc" where
  "plain_event n b ts = \<lparr>ed_name = n, ed_base = b, ed_transitions = ts,
     ed_precondition = (\<lambda>_ _. Returned True)\<rparr>"

definition actives :: "('u, 'p) program \<Rightarrow> err + ('u, 'p) mstate \<Rightarrow> sptr list option" where
  "actives p r = (case r of Inl _ \<Rightarrow> None | Inr m \<Rightarrow> Some (filter (active m) (all_states p)))"

text \<open>
  \<^verbatim>\<open>cluster root( a, s ); set s( x, y ); cluster s.x( b, c ); cluster s.y( d, e ) history\<close>
  with \<^verbatim>\<open>go: a -> s\<close>, \<^verbatim>\<open>swap: b -> c, d -> e\<close> and \<^verbatim>\<open>leave<swap>: s -> a\<close>.
\<close>

definition demo :: "(nat, nat) program" where
  "demo = \<lparr>p_root = plain_state ''root'' None (Cluster False [0, 1]),
     p_states =
       [plain_state ''a'' (Some Root) Plain,
        plain_state ''s'' (Some Root) (Set [2, 5]),
        plain_state ''s.x'' (Some (St 1)) (Cluster False [3, 4]),
        plain_state ''s.x.b'' (Some (St 2)) Plain,
        plain_state ''s.x.c'' (Some (St 2)) Plain,
        plain_state ''s.y'' (Some (St 1)) (Cluster True [6, 7]),
        plain_state ''s.y.d'' (Some (St 5)) Plain,
        plain_state ''s.y.e'' (Some (St 5)) Plain],
     p_transitions = [move_to 0 1, move_to 3 4, move_to 6 7, move_to 1 0],
     p_events = [plain_event ''go'' None [0], plain_event ''swap'' None [1, 2],
       plain_event ''leave'' (Some 1) [3]]\<rparr>"

lemma demo_wf [simp]: "wf_program demo"
  by code_simp

lemma demo_parts [simp]:
  "no_empty_parents demo" "hookless demo" "static_targets demo" "wf_states demo" "wf_bases demo"
  by code_simp+

text \<open>Two transitions of one micro-step that fight over the root's active child.\<close>

definition denied :: "(nat, nat) program" where
  "denied = \<lparr>p_root = plain_state ''root'' None (Cluster False [0, 3]),
     p_states =
       [plain_state ''a'' (Some Root) (Cluster False [1, 2]),
        plain_state ''a.b'' (Some (St 0)) Plain,
        plain_state ''a.c'' (Some (St 0)) Plain,
        plain_state ''x'' (Some Root) (Cluster False [4]),
        plain_state ''x.d'' (Some (St 3)) Plain],
     p_transitions = [(move_to 0 0)\<lparr>tr_to := None, tr_action := Some (\<lambda>_ _.
         UCall 0 (Call_broadcast 1 None) (\<lambda>_. UCall 0 (Call_broadcast 2 None) (\<lambda>_. UReturn 0)))\<rparr>,
       move_to 1 2, move_to 0 4],
     p_events = [plain_event ''start'' None [0], plain_event ''inner'' None [1],
       plain_event ''outer'' None [2]]\<rparr>"

lemma denied_wf [simp]: "wf_program denied"
  by code_simp

text \<open>\<^verbatim>\<open>cluster root( a, s )\<close> as in \<open>demo\<close>, with \<^verbatim>\<open>deep: a -> s.x.c\<close>.\<close>

definition deep :: "(nat, nat) program" where
  "deep = demo\<lparr>p_transitions := [move_to 0 4], p_events := [plain_event ''deep'' None [0]]\<rparr>"

lemma deep_wf [simp]: "wf_program deep"
  by code_simp

text \<open>
  \<^verbatim>\<open>set s( p, q )\<close> with \<^verbatim>\<open>enter( s.q ): s -> t\<close>: the event is broadcast while the machine
  is being entered, outside the algorithm.
\<close>

definition eager :: "(nat, nat) program" where
  "eager = \<lparr>p_root = plain_state ''root'' None (Cluster False [0, 4]),
     p_states =
       [plain_state ''s'' (Some Root) (Set [1, 2]),
        plain_state ''s.p'' (Some (St 0)) Plain,
        (plain_state ''s.q'' (Some (St 0)) (Cluster False [3]))\<lparr>sd_enter_event := Some 0\<rparr>,
        plain_state ''s.q.b'' (Some (St 2)) Plain,
        plain_state ''t'' (Some Root) Plain],
     p_transitions = [move_to 0 4],
     p_events = [plain_event ''enter(s.q)'' None [0]]\<rparr>"

lemma eager_wf [simp]: "wf_program eager"
  by code_simp

text \<open>
  A transition whose target function returns null (it is to be skipped), followed by an
  ordinary one for the same event.
\<close>

definition nowhere :: "(nat, nat) program" where
  "nowhere = \<lparr>p_root = plain_state ''root'' None (Cluster False [0, 1]),
     p_states = [plain_state ''a'' (Some Root) Plain, plain_state ''b'' (Some Root) Plain],
     p_transitions = [(move_to 0 1)\<lparr>tr_to := None, tr_target := Some (\<lambda>_ _. Returned None)\<rparr>,
       move_to 0 1],
     p_events = [plain_event ''go'' None [0, 1]]\<rparr>"

lemma nowhere_wf [simp]: "wf_program nowhere"
  by code_simp

text \<open>A cluster without children (its child was declared but never defined).\<close>

definition hollow :: "(nat, nat) program" where
  "hollow = \<lparr>p_root = plain_state ''root'' None (Cluster False [0]),
     p_states = [plain_state ''c'' (Some Root) (Cluster False [])],
     p_transitions = [move_to 0 0], p_events = [plain_event ''again'' None [0]]\<rparr>"

lemma hollow_wf [simp]: "wf_program hollow"
  by code_simp

section \<open>A reachable configuration of \<open>demo\<close>\<close>

text \<open>
  \<open>demo\<close> with \<^verbatim>\<open>s\<close>, \<^verbatim>\<open>s.x.b\<close> and \<^verbatim>\<open>s.y.d\<close> active; \<open>demo_swap\<close> is the same in the
  middle of a broadcast of \<^verbatim>\<open>swap\<close>, both transitions being marked.
\<close>

definition demo_on :: "(nat, nat) mstate" where
  "demo_on = (init_mstate 0)\<lparr>
     st_state := (\<lambda>s. if s \<in> {Root, St 1, St 2, St 3, St 5, St 6} then STATE_ACTIVE else STATE_INACTIVE),
     active_child := [Root \<mapsto> St 1, St 2 \<mapsto> St 3, St 5 \<mapsto> St 6],
     last_child := [Root \<mapsto> St 1, St 2 \<mapsto> St 3, St 5 \<mapsto> St 6]\<rparr>"

definition demo_swap :: "(nat, nat) mstate" where
  "demo_swap = demo_on\<lparr>
     st_state := (st_state demo_on)(St 3 := STATE_ACTIVE_DISABLED, St 6 := STATE_ACTIVE_DISABLED),
     ev_in_progress := (\<lambda>e. if e = 1 then 1 else 0),
     taken := [1 \<mapsto> 1, 2 \<mapsto> 1], target := [1 \<mapsto> St 4, 2 \<mapsto> St 7],
     in_progress := True, event_queue := [1]\<rparr>"

lemma demo_on_legal [simp]: "legal_config demo demo_on"
  by code_simp

lemma demo_swap_legal [simp]: "legal_config demo demo_swap"
  by code_simp

lemma demo_tree:
  "valid_sptr demo (St 1)" "valid_sptr demo (St 3)" "valid_sptr demo (St 4)"
  "valid_sptr demo (St 6)" "valid_sptr demo (St 7)"
  "parent_of demo (St 1) = Some Root" "parent_of demo (St 3) = Some (St 2)"
  "parent_of demo (St 6) = Some (St 5)" "length (p_events demo) = 3" "length (p_states demo) = 8"
  by (simp_all add: demo_def plain_state_def)

lemma demo_on_sound [simp]: "sound demo demo_on"
proof -
  have "typed_child demo [Root \<mapsto> St 1, St 2 \<mapsto> St 3, St 5 \<mapsto> St 6]"
    by (intro typed_child_upd demo_tree) (simp add: typed_child_def)
  then have "typed demo demo_on"
    by (simp add: typed_def demo_on_def) (simp add: init_mstate_def)
  then show ?thesis
    by (simp add: sound_def accounted_def at_rest_def) (simp add: demo_on_def init_mstate_def)
qed

lemma demo_swap_chain [simp]: "event_chain demo (Some 1) = [1]" "event_chain demo (Some (Suc 0)) = [1]"
  by code_simp+

lemma demo_swap_ids [simp]: "transition_ids demo 1 = [1, 2]" "transition_ids demo (Suc 0) = [1, 2]"
  by code_simp+

lemma demo_swap_sound [simp]: "sound demo demo_swap"
proof -
  have t: "typed demo demo_on" using demo_on_sound by (rule sound_typed)
  have "typed demo demo_swap"
    unfolding typed_def
  proof (intro conjI allI impI)
    show "typed_child demo (active_child demo_swap)" "typed_child demo (last_child demo_swap)"
      using t by (simp_all add: demo_swap_def typed_def)
    show "st_state demo_swap s \<in> {STATE_INACTIVE, STATE_ACTIVE, STATE_ACTIVE_DISABLED}" for s
      using t by (simp add: demo_swap_def typed_def)
    show "valid_sptr demo s" if "target demo_swap i = Some s" for i s
      using that demo_tree
      by (auto simp: demo_swap_def demo_on_def init_mstate_def split: if_splits simp del: valid_sptr.simps)
    show "e < length (p_events demo)" "i \<in> set (transition_ids demo e)" if "taken demo_swap i = Some e" for i e
      using that demo_tree(9)
      by (auto simp: demo_swap_def demo_on_def init_mstate_def split: if_splits)
  qed
  then show ?thesis
    by (simp add: sound_def accounted_def derived_in_def demo_swap_def) (simp add: demo_tree)
qed

lemma demo_calm [simp]: "calm demo"
  by (rule calm_idle) (simp, code_simp)

lemma demo_swap_stepping [simp]: "stepping demo demo_swap"
proof -
  have "aimed demo demo_swap"
    by (auto simp: aimed_def demo_swap_def demo_on_def init_mstate_def demo_def transition_of_def move_to_def)
  then show ?thesis by (simp add: stepping_def) (simp add: demo_swap_def)
qed

lemma demo_swap_ready [simp]: "step_ready demo demo_swap"
  by code_simp

text \<open>The same in the middle of a broadcast of \<^verbatim>\<open>leave\<close>, which marks all three transitions.\<close>

definition demo_leave :: "(nat, nat) mstate" where
  "demo_leave = demo_on\<lparr>
     st_state := (st_state demo_on)(St 1 := STATE_ACTIVE_DISABLED, St 3 := STATE_ACTIVE_DISABLED,
       St 6 := STATE_ACTIVE_DISABLED),
     ev_in_progress := (\<lambda>e. if e = 1 \<or> e = 2 then 1 else 0),
     taken := [3 \<mapsto> 2, 1 \<mapsto> 2, 2 \<mapsto> 2], target := [3 \<mapsto> St 0, 1 \<mapsto> St 4, 2 \<mapsto> St 7],
     in_progress := True, event_queue := [2]\<rparr>"

lemma demo_leave_facts [simp]:
  "event_chain demo (Some 2) = [2, 1]" "transition_ids demo 2 = [3, 1, 2]" "valid_sptr demo (St 0)"
  by code_simp+

lemma demo_leave_legal [simp]: "legal_config demo demo_leave"
  by code_simp

lemma demo_leave_stepping [simp]: "stepping demo demo_leave"
proof -
  have t: "typed demo demo_on" using demo_on_sound by (rule sound_typed)
  have "typed demo demo_leave"
    unfolding typed_def
  proof (intro conjI allI impI)
    show "typed_child demo (active_child demo_leave)" "typed_child demo (last_child demo_leave)"
      using t by (simp_all add: demo_leave_def typed_def)
    show "st_state demo_leave s \<in> {STATE_INACTIVE, STATE_ACTIVE, STATE_ACTIVE_DISABLED}" for s
      using t by (simp add: demo_leave_def typed_def)
    show "valid_sptr demo s" if "target demo_leave i = Some s" for i s
      using that demo_tree demo_leave_facts(3)
      by (auto simp: demo_leave_def demo_on_def init_mstate_def split: if_splits simp del: valid_sptr.simps)
    show "e < length (p_events demo)" "i \<in> set (transition_ids demo e)" if "taken demo_leave i = Some e" for i e
      using that demo_tree(9)
      by (auto simp: demo_leave_def demo_on_def init_mstate_def split: if_splits)
  qed
  then have "sound demo demo_leave"
    by (simp add: sound_def accounted_def derived_in_def demo_leave_def) (simp add: demo_tree)
  moreover have "aimed demo demo_leave"
    by (auto simp: aimed_def demo_leave_def demo_on_def init_mstate_def demo_def transition_of_def move_to_def)
  ultimately show ?thesis by (simp add: stepping_def) (simp add: demo_leave_def)
qed

end
