(* ===== verification/Chsm_Session.thy ===== *)
theory Chsm_Session
  imports Chsm_Step
begin

text \<open>
  Sessions: what the program around a machine can do with it, as a step relation, and the
  facts about single operations that the properties of the run-time library combine:
  which transitions a broadcast selects, which child a cluster enters, how an outer
  transition dominates an inner one.
\<close>

section \<open>Reachable machines\<close>

inductive reachable :: "('u, 'p) program \<Rightarrow> 'u \<Rightarrow> ('u, 'p) mstate \<Rightarrow> bool"
  for p :: "('u, 'p) program" and u :: 'u where
  construct: "reachable p u (init_mstate u)"
| start: "reachable p u m \<Longrightarrow> machine_enter n p t m = Inr (b, m') \<Longrightarrow> reachable p u m'"
| stop: "reachable p u m \<Longrightarrow> machine_exit n p t m = Inr (b, m') \<Longrightarrow> reachable p u m'"
| send: "reachable p u m \<Longrightarrow> e < length (p_events p) \<Longrightarrow> broadcast n p e pb m = Inr m' \<Longrightarrow>
    reachable p u m'"
| forget: "reachable p u m \<Longrightarrow> valid_sptr p s \<Longrightarrow> cluster_clear p s m = Inr m' \<Longrightarrow> reachable p u m'"
| forget_all: "reachable p u m \<Longrightarrow> valid_sptr p s \<Longrightarrow> deep_clear n p s m = Inr m' \<Longrightarrow> reachable p u m'"
| user: "reachable p u m \<Longrightarrow> reachable p u (m\<lparr>udata := u'\<rparr>)"

lemma keptD: "kept p m r \<Longrightarrow> r = Inr m' \<Longrightarrow> keeps p m m'"
  by (simp add: kept_def)

lemma kept2D: "kept2 p m r \<Longrightarrow> r = Inr (b, m') \<Longrightarrow> keeps p m m'"
  by (simp add: kept2_def)

lemma keeps_at_rest: "keeps p m m' \<Longrightarrow> at_rest m \<Longrightarrow> sound p m' \<and> at_rest m'"
  by (auto simp: keeps_def sound_def at_rest_def)

lemma reachable_sound:
  assumes "wf_program p"
  shows "reachable p u m \<Longrightarrow> sound p m \<and> at_rest m"
proof (induction rule: reachable.induct)
  case construct
  then show ?case using sound_init [OF assms] by (simp add: at_rest_def init_mstate_def)
next
  case (start m n t b m')
  then have "keeps p m m'"
    using kept2D [OF acct.enter_kept] by (force simp: machine_enter_def enter_def)
  then show ?case using keeps_at_rest start.IH by blast
next
  case (stop m n t b m')
  then have "keeps p m m'"
    using kept2D [OF acct.exit_kept] by (force simp: machine_exit_def exit_def)
  then show ?case using keeps_at_rest stop.IH by blast
next
  case (send m e n pb m')
  then have "keeps p m m'"
    using keptD [OF acct.broadcast_kept] by (force simp: broadcast_def)
  then show ?case using keeps_at_rest send.IH by blast
next
  case (forget m s m')
  then show ?case using keptD [OF acct.cluster_clear_kept] keeps_at_rest by blast
next
  case (forget_all m s n m')
  then show ?case using keptD [OF acct.deep_clear_kept] keeps_at_rest by blast
next
  case (user m u')
  then show ?case using keeps_at_rest [OF keeps_updates(1) [of p m u']] by simp
qed

section \<open>The selection of transitions\<close>

text \<open>The machine as \<^verbatim>\<open>event::broadcast\<close> hands it to the precondition and the search.\<close>

definition armed ::
  "('u, 'p) program \<Rightarrow> event_id \<Rightarrow> 'p option \<Rightarrow> ('u, 'p) mstate \<Rightarrow> ('u, 'p) mstate" where
  "armed p e pb m = (mark_in_progress p e m)\<lparr>ev_param := (ev_param m)(e := pb)\<rparr>"

lemma broadcast_unfold:
  assumes "wf_bases p" "e < length (p_events p)"
  shows "broadcast (Suc n) p e pb m =
    (if ev_in_progress m e > 0 then Inr m
     else rbind (if precondition_true p e pb (armed p e pb m) then find_transition p e (armed p e pb m)
                 else Inr (False, armed p e pb m))
       (\<lambda>(found, m). if found then algorithm (ops_at n p) (m\<lparr>event_queue := event_queue m @ [e]\<rparr>)
                     else Inr (broadcasted p e m)))"
proof -
  have "ev_param (mark_in_progress p e m) = ev_param m"
    using mark_in_progress_eq [OF event_chain_distinct [OF assms], of m] by simp
  then show ?thesis by (simp add: run_equations broadcast_body_def Let_def armed_def)
qed

lemma broadcasted_armed:
  assumes "wf_bases p" "e < length (p_events p)"
  shows "broadcasted p e (armed p e pb m) = m\<lparr>ev_param := (ev_param m)(e := pb)\<rparr>"
  using broadcasted_mark [OF assms, of "armed p e pb m" m]
    mark_in_progress_eq [OF event_chain_distinct [OF assms], of m] by (simp add: armed_def)

text \<open>
  The loop of \<open>find_transition\<close> after the transitions \<open>ys\<close>: a transition newly marked
  has disabled its source state, so no two of them leave the same state.
\<close>

definition selected ::
  "('u, 'p) program \<Rightarrow> event_id \<Rightarrow> ('u, 'p) mstate \<Rightarrow> ('u, 'p) mstate \<Rightarrow> transition_id \<Rightarrow> bool" where
  "selected p e m m' t \<longleftrightarrow> \<not> is_internal (transition_of p t) \<and> taken m t = None \<and> taken m' t = Some e"

lemma selected_same [simp]: "\<not> selected p e m m t"
  by (auto simp: selected_def)

definition choosing ::
  "('u, 'p) program \<Rightarrow> event_id \<Rightarrow> ('u, 'p) mstate \<Rightarrow> transition_id list \<Rightarrow>
     bool \<times> ('u, 'p) mstate \<Rightarrow> bool" where
  "choosing p e m ys st \<longleftrightarrow>
     (\<forall>t. t \<notin> set ys \<longrightarrow> taken (snd st) t = taken m t) \<and>
     (\<forall>t. selected p e m (snd st) t \<longrightarrow>
        active m (source p t) \<and> st_state (snd st) (source p t) = STATE_ACTIVE_DISABLED) \<and>
     (\<forall>t t'. selected p e m (snd st) t \<longrightarrow> selected p e m (snd st) t' \<longrightarrow> t \<noteq> t' \<longrightarrow>
        source p t \<noteq> source p t') \<and>
     (\<forall>s. active (snd st) s = active m s) \<and>
     (\<not> fst st \<longrightarrow> snd st = m)"

lemma try_transition_choosing:
  assumes p: "static_targets p" and t: "t < length (p_transitions p)" "t \<notin> set ys"
    and st: "choosing p e m ys st"
  shows "wlp (try_transition p e t st) (choosing p e m (ys @ [t]))"
proof -
  obtain found m1 where st': "st = (found, m1)" by (cases st)
  have tr: "tr_target (transition_of p t) = None"
    using p t(1) by (auto simp: static_targets_def transition_of_def Option.is_none_def)
  have same: "choosing p e m (ys @ [t]) (found, m1)" using st st' by (auto simp: choosing_def)
  have tk: "taken m1 t = taken m t" using st t(2) st' by (simp add: choosing_def)
  have act: "active m1 s = active m s" for s using st st' by (simp add: choosing_def)
  show ?thesis
  proof (cases "st_state m1 (source p t) = STATE_ACTIVE")
    case True
    have a: "active m (source p t)" using True act [of "source p t"] by (simp add: active_flag)
    have fresh: "source p t' \<noteq> source p t" if "selected p e m m1 t'" for t'
      using st st' that True by (auto simp: choosing_def)
    have int: "choosing p e m (ys @ [t]) (True, mark_taken e t m1)" if "is_internal (transition_of p t)"
    proof -
      have "selected p e m (mark_taken e t m1) t' = selected p e m m1 t'" for t'
        using that by (auto simp: selected_def mark_taken_def)
      moreover have "active (mark_taken e t m1) = active m1" by (simp add: active_flag fun_eq_iff)
      ultimately show ?thesis using st st' by (auto simp: choosing_def mark_taken_def)
    qed
    have ext: "choosing p e m (ys @ [t]) (True, choose_target t (source p t) to (mark_taken e t m1))"
      (is "choosing _ _ _ _ (True, ?m)") if "\<not> is_internal (transition_of p t)" for "to"
    proof -
      have sel: "selected p e m ?m t' \<longleftrightarrow> selected p e m m1 t' \<or>
          t' = t \<and> taken m t = None" for t'
        using that tk by (auto simp: selected_def mark_taken_def choose_target_def set_state_def)
      have stt: "st_state ?m s = (if s = source p t then STATE_ACTIVE_DISABLED else st_state m1 s)" for s
        by (simp add: choose_target_def set_state_def)
      have "active ?m s = active m s" for s
        using a act by (simp add: active_flag stt)
      moreover have "taken ?m t' = taken m t'" if "t' \<notin> set (ys @ [t])" for t'
        using st st' that by (simp add: choosing_def choose_target_def set_state_def mark_taken_def)
      moreover have "active m (source p t') \<and> st_state ?m (source p t') = STATE_ACTIVE_DISABLED"
        if "selected p e m ?m t'" for t'
        using that st st' a unfolding sel stt choosing_def by auto
      moreover have "source p t1 \<noteq> source p t2"
        if "selected p e m ?m t1" "selected p e m ?m t2" "t1 \<noteq> t2" for t1 t2
        using that fresh [of t1] fresh [of t2] st st' unfolding sel choosing_def by auto
      ultimately show ?thesis unfolding choosing_def fst_conv snd_conv by blast
    qed
    show ?thesis
      using same int ext tr
      by (auto simp: st' try_transition_def Let_def source_def [symmetric]
          split: outcome.split bool.split option.split)
  next
    case False
    then show ?thesis using same by (simp add: st' try_transition_def Let_def source_def)
  qed
qed

lemma find_transition_choosing:
  assumes p: "wf_program p" "static_targets p" and e: "e < length (p_events p)"
  shows "wlp (find_transition p e m) (choosing p e m (transition_ids p e))"
  unfolding find_transition_def
proof (rule wlp_iter_res_split)
  fix ys t zs and st :: "bool \<times> ('a, 'b) mstate"
  assume ts: "transition_ids p e = ys @ t # zs" and st: "choosing p e m ys st"
  have "t < length (p_transitions p)" "t \<notin> set ys"
    using ts wf_programD(5,6) [OF p(1) e] by auto
  then show "wlp (try_transition p e t st) (choosing p e m (ys @ [t]))"
    using try_transition_choosing [OF p(2) _ _ st] by blast
qed (simp add: choosing_def)

section \<open>The child a cluster enters\<close>

definition default_child :: "('u, 'p) program \<Rightarrow> ('u, 'p) mstate \<Rightarrow> sptr \<Rightarrow> sptr" where
  "default_child p m s =
     (if history (kind_of p s) then (case last_child m s of Some c \<Rightarrow> c | None \<Rightarrow> hd (children p s))
      else hd (children p s))"

lemma default_child_in:
  assumes m: "quiet p m" and s: "valid_sptr p s" "kind_of p s = Cluster h cs"
  shows "\<not> parent_empty p s" "default_child p m s \<in> set (children p s)"
proof -
  have "s \<in> set (all_states p)" using s(1) set_all_states [of p] by blast
  then show ne: "\<not> parent_empty p s"
    using m s(2) unfolding quiet_def no_empty_parents_def parent_empty_def by fastforce
  show "default_child p m s \<in> set (children p s)"
  proof (cases "h \<and> last_child m s \<noteq> None")
    case True
    then show ?thesis
      using quiet_sound [OF m] typed_childD [of p "last_child m" s "default_child p m s"] wf_child_iff [OF quiet_wf [OF m] s(1)] s(2)
      by (auto simp: default_child_def sound_def typed_def)
  next
    case False
    then show ?thesis
      using ne hd_in_set [of "children p s"] s(2)
      by (auto simp: default_child_def parent_empty_def split: option.split)
  qed
qed

lemma cluster_enter_child_eq:
  assumes "\<not> parent_empty p s"
  shows "cluster_enter_child p ops s t None m =
    rbind (op_enter ops (default_child p m s) t None
        (m\<lparr>active_child := (active_child m)(s := Some (default_child p m s)),
           last_child := (last_child m)(s := Some (default_child p m s))\<rparr>))
      (\<lambda>(_, m). Inr (True, m))"
proof -
  have eq: "m\<lparr>last_child := (last_child m)(s := Some c), active_child := f\<rparr> =
      m\<lparr>active_child := f, last_child := (last_child m)(s := Some c)\<rparr>" for c f
    by simp
  have same: "(last_child m)(s := Some c) = last_child m" if "last_child m s = Some c" for c
    using that by auto
  show ?thesis
    using parent_front_eq [OF assms]
    by (auto simp: cluster_enter_child_def cluster_clear_def default_child_def eq same
        split: option.split)
qed

section \<open>Dominance\<close>

text \<open>A transition that exits an outer state disarms a later one of an inner state.\<close>

lemma exit_from_dominates:
  assumes s: "stepping p m" and td: "tidy p m" and n: "2 * length (p_states p) + 3 \<le> n"
    and t1: "t1 < length (p_transitions p)" "\<not> is_internal (transition_of p t1)"
      "taken m t1 = Some e" "active m (source p t1)"
    and t2: "taken m t2 = Some e" "valid_sptr p (source p t2)" "below p (exit_root p t1) (source p t2)"
    and e: "e \<in> set (event_queue m)"
  shows "wp (exit_from p (ops_at n p) e t1 m) (\<lambda>m1. \<not> active m1 (source p t2) \<and>
    exit_from p (ops_at n p) e t2 m1 = Inr (m1\<lparr>taken := (taken m1)(t2 := None)\<rparr>))"
proof -
  have mv: "t1 \<in> set (moving p m)" using t1 e by (simp add: moving_def)
  note v = moving_ends [OF s mv]
  have q: "quiet p m" "in_progress m" using s by (simp_all add: stepping_def quiet_def)
  note p = quiet_wf [OF q(1)]
  obtain k where k: "n = Suc k" using n by (cases n) auto
  have tgt: "target m t1 = Some (dest p t1)" using s t1 v(4) by (auto simp: stepping_def aimed_def)
  have ex: "wp (op_exit (ops_at n p) (source p t1) (Ev e) (target m t1) m)
      (\<lambda>(b, m'). b \<and> exited p (exit_root p t1) m m' \<and> steady p m m')"
    unfolding tgt exit_root_def
    by (rule exit_up [OF p v(1,2)]) (use q td t1(4) n v(1) in \<open>auto simp: rank_less_iff\<close>)
  have fin: "\<not> active m2 (source p t2) \<and>
      exit_from p (ops_at n p) e t2 m2 = Inr (m2\<lparr>taken := (taken m2)(t2 := None)\<rparr>)"
    if "exited p (exit_root p t1) m m1" "same_config m1 m2" "steady p m m2" for m1 m2
  proof -
    have "\<not> active m2 (source p t2)" using that t2(2,3) by (simp add: exited_def same_config_def)
    moreover have "taken m2 t2 = Some e"
      using that(3) q(2) t2(1) by (simp add: steady_def marks_kept_def)
    ultimately show ?thesis by (simp add: exit_from_def Let_def source_def)
  qed
  have "wp (case tr_action (transition_of p t1) of
        Some a \<Rightarrow> if b then run_action p (ops_at n p) (a e m1) m1 else Inr m1
      | None \<Rightarrow> Inr m1) (\<lambda>m1. \<not> active m1 (source p t2) \<and>
        exit_from p (ops_at n p) e t2 m1 = Inr (m1\<lparr>taken := (taken m1)(t2 := None)\<rparr>))"
    if ex1: "exited p (exit_root p t1) m m1" "steady p m m1" for b m1
  proof -
    have q1: "quiet p m1" "in_progress m1"
      using q quiet_steady [OF _ ex1(2)] ex1(2) by (auto simp: steady_def keeps_def)
    show ?thesis
      using transition_action_calmly [OF q1 s t1(1), of _ k e m1] fin [OF ex1(1)] ex1(2) steady_trans [OF ex1(2)]
      by (auto simp: k calmly_def split: option.split elim!: wp_mono)
  qed
  then show ?thesis
    using t1 ex by (auto simp: exit_from_def [of p "ops_at n p" e t1] Let_def source_def [of p t1] elim!: wp_mono)
qed

end
