(* ===== verification/Chsm_Library.thy ===== *)
theory Chsm_Library
  imports Chsm_Session
begin

text \<open>
  The rest of the library's interface (\<^verbatim>\<open>chsm.h\<close>, \<^verbatim>\<open>machine.cpp\<close>): the iterators over
  the states of a machine and the children of a parent, the comparison of events, the
  debugging flags, and the dump of the current state.
\<close>

section \<open>Iterators\<close>

text \<open>
  An STL-style iterator holds a pointer into a constant array; it is modelled by the rest
  of the array.  Two iterators are equal when they point at the same element, so one that
  points at the array's sentinel equals \<^verbatim>\<open>end()\<close>.
\<close>

type_synonym 'a array_iter = "'a list"

definition pointee :: "'a array_iter \<Rightarrow> 'a option" where
  "pointee it = (case it of [] \<Rightarrow> None | x # _ \<Rightarrow> Some x)"

definition machine_begin :: "('u, 'p) program \<Rightarrow> sptr array_iter" where
  "machine_begin p = map St [0..<length (p_states p)]"

definition machine_end :: "sptr array_iter" where
  "machine_end = []"

definition machine_iter_next :: "sptr array_iter \<Rightarrow> sptr array_iter" where
  "machine_iter_next it = tl it"

definition machine_iter_post :: "sptr array_iter \<Rightarrow> sptr array_iter \<times> sptr array_iter" where
  "machine_iter_post it = (it, tl it)"

definition machine_iter_eq :: "sptr array_iter \<Rightarrow> sptr array_iter \<Rightarrow> bool" where
  "machine_iter_eq i j \<longleftrightarrow> pointee i = pointee j"

definition parent_begin :: "('u, 'p) program \<Rightarrow> sptr \<Rightarrow> state_id array_iter" where
  "parent_begin p s = child_list (kind_of p s)"

definition parent_end :: "state_id array_iter" where
  "parent_end = []"

definition parent_iter_next :: "state_id array_iter \<Rightarrow> state_id array_iter" where
  "parent_iter_next it = tl it"

definition parent_iter_post :: "state_id array_iter \<Rightarrow> state_id array_iter \<times> state_id array_iter" where
  "parent_iter_post it = (it, tl it)"

definition parent_iter_eq :: "state_id array_iter \<Rightarrow> state_id array_iter \<Rightarrow> bool" where
  "parent_iter_eq i j \<longleftrightarrow> pointee i = pointee j"

text \<open>
  What a range-based \<^verbatim>\<open>for\<close> loop needs of an iterator, and the elements it then visits.
\<close>

primrec range_for ::
  "('i \<Rightarrow> 'i \<Rightarrow> bool) \<Rightarrow> ('i \<Rightarrow> 'i) \<Rightarrow> 'i \<Rightarrow> ('i \<Rightarrow> 'e) \<Rightarrow> nat \<Rightarrow> 'i \<Rightarrow> 'e list" where
  "range_for eq next_iter end_iter deref 0 i = []"
| "range_for eq next_iter end_iter deref (Suc n) i =
     (if eq i end_iter then [] else deref i # range_for eq next_iter end_iter deref n (next_iter i))"

locale forward_iterator =
  fixes elems :: "'i \<Rightarrow> 'e list" and eq :: "'i \<Rightarrow> 'i \<Rightarrow> bool" and next_iter :: "'i \<Rightarrow> 'i"
    and end_iter :: 'i and deref :: "'i \<Rightarrow> 'e"
  assumes at_end: "eq i end_iter \<longleftrightarrow> elems i = []"
    and advance: "elems i \<noteq> [] \<Longrightarrow> elems (next_iter i) = tl (elems i)"
    and current: "elems i \<noteq> [] \<Longrightarrow> deref i = hd (elems i)"
begin

lemma range_for_all: "length (elems i) \<le> n \<Longrightarrow> range_for eq next_iter end_iter deref n i = elems i"
proof (induction n arbitrary: i)
  case (Suc n)
  then show ?case
    by (cases "elems i = []") (auto simp: at_end advance current)
qed simp

end

definition machine_deref :: "sptr array_iter \<Rightarrow> sptr" where
  "machine_deref it = hd it"

definition parent_deref :: "state_id array_iter \<Rightarrow> sptr" where
  "parent_deref it = St (hd it)"

interpretation machine_it: forward_iterator
  "\<lambda>it. it" machine_iter_eq machine_iter_next machine_end machine_deref
  by unfold_locales
    (auto simp: machine_iter_eq_def machine_end_def machine_iter_next_def machine_deref_def pointee_def
      split: list.splits)

interpretation parent_it: forward_iterator
  "map St" parent_iter_eq parent_iter_next parent_end parent_deref
  by unfold_locales
    (auto simp: parent_iter_eq_def parent_end_def parent_iter_next_def parent_deref_def pointee_def
      map_tl hd_map split: list.splits)

text \<open>\<^verbatim>\<open>for ( auto &child : *this )\<close> in \<^verbatim>\<open>set.cpp\<close> and \<^verbatim>\<open>parent.cpp\<close>.\<close>

lemma parent_for_children:
  "range_for parent_iter_eq parent_iter_next parent_end parent_deref
     (length (children p s)) (parent_begin p s) = children p s"
  using parent_it.range_for_all [of "parent_begin p s"] by (simp add: parent_begin_def)

section \<open>Events\<close>

text \<open>Events compare by address, and there is one object per event of a machine.\<close>

definition event_equal :: "nat \<times> event_id \<Rightarrow> nat \<times> event_id \<Rightarrow> bool" where
  "event_equal i j \<longleftrightarrow> i = j"

definition event_empty :: "('u, 'p) program \<Rightarrow> event_id \<Rightarrow> bool" where
  "event_empty p e \<longleftrightarrow> ed_transitions (event_of p e) = []"

section \<open>Debugging\<close>

record debug_members =
  debug_indent :: "32 word"
  debug_state :: "32 word"

definition DEBUG_NONE :: "32 word" where "DEBUG_NONE = 0"
definition DEBUG_ENTER_EXIT :: "32 word" where "DEBUG_ENTER_EXIT = 1"
definition DEBUG_EVENTS :: "32 word" where "DEBUG_EVENTS = 2"
definition DEBUG_ALGORITHM :: "32 word" where "DEBUG_ALGORITHM = 4"
definition DEBUG_ALL :: "32 word" where "DEBUG_ALL = NOT 0"

definition debug_get :: "debug_members \<Rightarrow> 32 word" where
  "debug_get d = debug_state d"

definition debug_set :: "32 word \<Rightarrow> debug_members \<Rightarrow> 32 word \<times> debug_members" where
  "debug_set w d = (let temp = debug_state d in (temp, d\<lparr>debug_state := w\<rparr>))"

definition is_debug :: "32 word \<Rightarrow> debug_members \<Rightarrow> bool" where
  "is_debug w d \<longleftrightarrow> (debug_state d AND w) \<noteq> 0"

definition DEBUG_INDENT_SIZE :: "32 word" where "DEBUG_INDENT_SIZE = 2"

text \<open>\<^verbatim>\<open>machine::dout\<close>: a bar and the indentation, counted down in an \<^verbatim>\<open>unsigned\<close>.\<close>

definition dout :: "debug_members \<Rightarrow> string" where
  "dout d = CHR ''|'' # replicate (unat (debug_indent d * DEBUG_INDENT_SIZE)) (CHR '' '')"

definition newline :: string where
  "newline = [CHR 0x0A]"

definition dump_line :: "('u, 'p) program \<Rightarrow> ('u, 'p) mstate \<Rightarrow> debug_members \<Rightarrow> sptr \<Rightarrow> string" where
  "dump_line p m d s =
     dout d @ '' '' @ (if active m s then ''*'' else '' '') @ sd_name (state_of p s) @ newline"

text \<open>\<^verbatim>\<open>machine::dump_state\<close>: the states in the order of the table; the root is not in it.\<close>

definition dump_state :: "('u, 'p) program \<Rightarrow> ('u, 'p) mstate \<Rightarrow> debug_members \<Rightarrow> string" where
  "dump_state p m d = dout d @ ''current state:'' @ newline @
     concat (map (dump_line p m d) 
       (range_for machine_iter_eq machine_iter_next machine_end machine_deref
         (length (p_states p)) (machine_begin p)))"

lemma dump_state_lines:
  "dump_state p m d = dout d @ ''current state:'' @ newline @
     concat (map (\<lambda>i. dump_line p m d (St i)) [0..<length (p_states p)])"
  using machine_it.range_for_all [of "machine_begin p" "length (p_states p)"]
  by (simp add: dump_state_def machine_begin_def o_def)

lemma is_debug_set:
  "is_debug w (snd (debug_set DEBUG_ALL d)) \<longleftrightarrow> w \<noteq> 0"
  "\<not> is_debug w (snd (debug_set DEBUG_NONE d))"
  by (simp_all add: is_debug_def debug_set_def DEBUG_ALL_def DEBUG_NONE_def)

lemma debug_restore:
  "snd (debug_set (fst (debug_set w d)) (snd (debug_set w d))) = d"
  by (simp add: debug_set_def)

end
