(* ===== verification/Chsm_Properties.thy ===== *)
theory Chsm_Properties
  imports Chsm_Machines Chsm_Library
begin

text \<open>
  The properties of the run-time library, each with an instance on a machine of
  \<open>Chsm_Machines\<close>, and the inputs on which the library does not do what it means to.
\<close>

lemma demo_size [simp]: "length (p_states demo) = 8" "length (p_events demo) = 3"
  by (simp_all add: demo_tree)

lemma demo_on_quiet [simp]: "quiet demo demo_on"
  by (simp add: quiet_def)

lemma demo_on_tidy [simp]: "tidy demo demo_on" "tidy demo demo_swap"
  using demo_on_legal demo_swap_legal by (simp_all add: legal_config_iff)

section \<open>Configurations\<close>

text \<open>C6: \<^verbatim>\<open>machine::enter\<close> on a machine that was just constructed
  returns true and leaves a legal configuration, with nothing queued and the algorithm not
  running, if the tables are well-formed, every cluster and every set has a child and no enter or
  exit event or action is attached to any state. Fuel linear in the number of states is
  enough.\<close>

theorem start_is_legal:
  assumes "wf_program p" "no_empty_parents p" "hookless p" "length (p_states p) + 2 \<le> n"
  shows "\<exists>m'. machine_enter n p trigger (init_mstate u) = Inr (True, m') \<and>
    legal_config p m' \<and> event_queue m' = [] \<and> \<not> in_progress m'"
proof -
  let ?m = "init_mstate u :: ('a, 'b) mstate"
  have "quiet p ?m" using assms sound_init by (simp add: quiet_def)
  moreover have "at_rest ?m" by (simp add: at_rest_def init_mstate_def)
  ultimately show ?thesis
    using start_legal [of p ?m n trigger] init_inactive [of p u] assms(4)
    by (auto simp: wp_iff dest!: steady_keeps keeps_at_rest) (auto simp: at_rest_def)
qed

theorem start_is_legal_witness:
  "\<exists>m'. machine_enter 10 demo Prime (init_mstate 0) = Inr (True, m') \<and> legal_config demo m'"
  using start_is_legal [of demo 10 Prime 0] by auto

text \<open>C7: \<^verbatim>\<open>machine::exit\<close> on a machine in a legal configuration
  returns true and leaves no state active, if every cluster and every set has a child, no enter or
  exit event or action is attached to any state, and the tables are well-formed and pointers and
  counters as the library keeps them (\<open>sound\<close>).\<close>

theorem stop_leaves_nothing_active:
  assumes "sound p m" "no_empty_parents p" "hookless p" "legal_config p m"
    and "length (p_states p) + 2 \<le> n"
  shows "\<exists>m'. machine_exit n p trigger m = Inr (True, m') \<and>
    (\<forall>s. valid_sptr p s \<longrightarrow> \<not> active m' s)"
  using stop_inactive [of p m n trigger] assms
  by (auto simp: wp_iff quiet_def legal_config_iff)

theorem stop_leaves_nothing_active_witness:
  "\<exists>m'. machine_exit 10 demo Prime demo_on = Inr (True, m') \<and> \<not> active m' (St 6)"
  using stop_leaves_nothing_active [of demo demo_on 10 Prime] demo_tree by auto

text \<open>C8: \<^verbatim>\<open>state::exit\<close> of an active state, with a target,
  deactivates exactly the subtree of the highest ancestor that has to be left: the climb stops at
  the first parent that is also an ancestor of the target. Assumed of the machine
  (\<open>quiet\<close>): the tables are well-formed and pointers and counters as the library
  keeps them; every cluster and set has a child; and either no enter or exit event or action is
  attached to any state, or the exit happens inside the algorithm, no target is computed at run
  time and attached code only broadcasts. Assumed of the configuration (\<open>tidy\<close>): the
  parent of an active state is active, and an active cluster notes one of its children and has no
  active child but the noted one.\<close>

theorem exit_climbs_to_common_ancestor:
  assumes "quiet p m" "tidy p m" "valid_sptr p s" "valid_sptr p to" "active m s"
    and "rank s + length (p_states p) + 2 \<le> n"
  shows "\<exists>m'. exit n p s trigger (Some to) m = Inr (True, m') \<and> tidy p m' \<and>
    (\<forall>x. valid_sptr p x \<longrightarrow> active m' x = (active m x \<and> \<not> below p (exit_top p to s) x))"
proof -
  have "wp (exit n p s trigger (Some to) m)
      (\<lambda>(b, m'). b \<and> exited p (exit_top p to s) m m' \<and> steady p m m')"
    unfolding exit_def by (rule exit_up [OF quiet_wf [OF assms(1)] assms(3,4,1,2,5,6)])
  then obtain m' where m': "exit n p s trigger (Some to) m = Inr (True, m')"
    "exited p (exit_top p to s) m m'" by (auto simp: wp_iff)
  then show ?thesis
    using exited_tidy [OF quiet_wf [OF assms(1)] assms(2) m'(2)] by (auto simp: exited_def)
qed

lemma demo_exit_top: "exit_top demo (St 0) (St 3) = St 1" "below demo (St (Suc 0)) (St 6)"
  "active demo_on (St 3)" "valid_sptr demo (St 0)"
  by code_simp+

theorem exit_climbs_to_common_ancestor_witness:
  "\<exists>m'. exit 20 demo (St 3) Prime (Some (St 0)) demo_on = Inr (True, m') \<and> \<not> active m' (St 6)"
  using exit_climbs_to_common_ancestor [OF demo_on_quiet demo_on_tidy(1) demo_tree(2) demo_exit_top(4,3),
      of 20 Prime] demo_tree(4)
  by (auto simp: demo_exit_top simp del: valid_sptr.simps)

text \<open>C9: \<^verbatim>\<open>state::enter\<close> builds a complete subtree. Let
  \<open>v\<close> be a state with nothing active at or below it, whose parent is active and, if
  the parent is a cluster, has a noted child that is inactive (\<open>permits\<close>:
  \<open>v\<close> has no active sibling in a cluster); let \<open>s\<close> be \<open>v\<close>
  or below it, with only clusters on the way from \<open>v\<close> down to \<open>s\<close>, but
  for the direct parent of \<open>s\<close>, which may be a set. Then entering \<open>s\<close>
  leaves \<open>s\<close> active, \<open>v\<close> and everything below it in complete
  configurations, and the activity of every other state as it was. Assumed of the machine
  (\<open>quiet\<close>): the tables are well-formed and pointers and counters as the library
  keeps them; every cluster and set has a child; and either no enter or exit event or action is
  attached to any state, or the entry happens inside the algorithm, no target is computed at run
  time and attached code only broadcasts.\<close>

theorem enter_completes_subtree:
  assumes "quiet p m" "permits p m v"
    and "\<forall>x. valid_sptr p x \<longrightarrow> below p v x \<longrightarrow> \<not> active m x"
    and "valid_sptr p s" "entry_path p v s" "rank s + length (p_states p) + 3 \<le> n"
  shows "\<exists>b m'. enter n p s trigger None m = Inr (b, m') \<and> active m' s \<and>
    (\<forall>x. valid_sptr p x \<longrightarrow>
      (if below p v x then tidy_at p m' x \<and> node_ok p m' x else active m' x = active m x))"
  using enter_target [of p m v s n trigger] assms
  by (auto simp: wp_iff enter_def entered_def framed_def complete_at_def)

definition demo_a :: "(nat, nat) mstate" where
  "demo_a = demo_on\<lparr>st_state := (\<lambda>s. if s = Root then STATE_ACTIVE else STATE_INACTIVE)\<rparr>"

lemma demo_a_quiet [simp]: "quiet demo demo_a"
  using demo_on_sound
  by (auto simp: quiet_def sound_def demo_a_def typed_def accounted_def at_rest_def)

lemma demo_a_enter: "permits demo demo_a (St 1)" "entry_path demo (St 1) (St 2)" "below demo (St 1) (St 6)"
  by code_simp+

theorem enter_completes_subtree_witness:
  "\<exists>b m'. enter 20 demo (St 2) Prime None demo_a = Inr (b, m') \<and> active m' (St 2) \<and>
    node_ok demo m' (St 6)"
proof -
  have "\<not> active demo_a x" if "below demo (St 1) x" for x
    using that demo_wf by (auto simp: demo_a_def active_flag below_def wf_program_def)
  then show ?thesis
    using enter_completes_subtree [of demo demo_a "St 1" "St 2" 20 Prime] demo_tree demo_a_enter
    by (fastforce simp del: valid_sptr.simps simp: rank_less_iff)
qed







section \<open>Broadcasting\<close>

text \<open>C11: whenever no call of the library is running, whatever the user's code and the
  program around the machine have done before, no event is queued or in progress and the
  algorithm is not running: no broadcast is ever lost half-way or left behind.\<close>

theorem sessions_end_quiescent:
  assumes "wf_program p" "reachable p u m"
  shows "event_queue m = [] \<and> \<not> in_progress m \<and> (\<forall>e. ev_in_progress m e = 0)"
  using reachable_sound [OF assms] by (simp add: sound_def accounted_def at_rest_def)

definition demo_session :: "(nat, nat) mstate" where
  "demo_session = (case rbind (machine_enter 20 demo Prime (init_mstate 0))
     (\<lambda>(_, m). broadcast 20 demo 0 None m) of Inr m \<Rightarrow> m | Inl _ \<Rightarrow> init_mstate 0)"

lemma demo_session_reachable: "reachable demo 0 demo_session"
proof (cases "rbind (machine_enter 20 demo Prime (init_mstate 0)) (\<lambda>(_, m). broadcast 20 demo 0 None m)")
  case (Inr m)
  then obtain b m1 where "machine_enter 20 demo Prime (init_mstate 0) = Inr (b, m1)"
    "broadcast 20 demo 0 None m1 = Inr m" by auto
  then have "reachable demo 0 m"
    using reachable.send [OF reachable.start [OF reachable.construct]] by fastforce
  then show ?thesis using Inr by (simp add: demo_session_def del: rbind_Inr_iff)
qed (simp add: demo_session_def reachable.construct)

theorem sessions_end_quiescent_witness:
  "event_queue demo_session = [] \<and> active demo_session (St 6)"
proof
  show "event_queue demo_session = []"
    using sessions_end_quiescent [OF demo_wf demo_session_reachable] by simp
  show "active demo_session (St 6)" by code_simp
qed

text \<open>C12: the iterator over an event's transitions visits the event's own transitions and
  then those of its base events, nearest base first, each once and in the order of the
  tables.\<close>

theorem iterator_visits_own_then_inherited:
  assumes "wf_bases p" "e < length (p_events p)" "length (transition_ids p e) \<le> n"
  shows "iter_run n p (iter_begin p e) = ed_transitions (event_of p e) @
    (case ed_base (event_of p e) of None \<Rightarrow> [] | Some b \<Rightarrow> iter_run n p (iter_begin p b))"
proof (cases "ed_base (event_of p e)")
  case None
  then show ?thesis
    using iter_run_transition_ids [OF assms] by (simp add: transition_ids_def event_chain_unfold [OF assms(1,2)])
next
  case (Some b)
  have b: "b < length (p_events p)" using wf_base_less [OF assms(1,2) Some] assms(2) by simp
  have ids: "transition_ids p e = ed_transitions (event_of p e) @ transition_ids p b"
    by (rule transition_ids_derived [OF assms(1,2) Some])
  then show ?thesis
    using Some iter_run_transition_ids [OF assms] iter_run_transition_ids [OF assms(1) b] assms(3) by simp
qed

theorem iterator_visits_own_then_inherited_witness:
  "iter_run 5 demo (iter_begin demo 2) = [3, 1, 2]"
proof -
  have "ed_transitions (event_of demo 2) = [3]" "ed_base (event_of demo 2) = Some 1"
    "length (transition_ids demo 2) \<le> 5" "iter_run 5 demo (iter_begin demo 1) = [1, 2]"
    by code_simp+
  then show ?thesis using iterator_visits_own_then_inherited [of demo 2 5] by simp
qed




text \<open>C14: in a machine with well-formed tables and no targets computed at run time, a
  broadcast, of an event not in progress, for which no transition is found leaves the machine
  exactly as it was, but for the parameter block of its event: no mark, no disabled state and no
  counter stays behind.\<close>

theorem cancelled_broadcast_leaves_no_trace:
  assumes "wf_program p" "static_targets p" "e < length (p_events p)" "ev_in_progress m e = 0"
    and "find_transition p e (armed p e pb m) = Inr (False, m1)"
  shows "broadcast (Suc n) p e pb m = Inr (m\<lparr>ev_param := (ev_param m)(e := pb)\<rparr>)"
proof -
  note b = wf_programD(3) [OF assms(1)]
  have "m1 = armed p e pb m"
    using wlpD [OF find_transition_choosing [OF assms(1-3)] assms(5)] by (simp add: choosing_def)
  then show ?thesis
    using assms(4,5) broadcasted_armed [OF b assms(3)]
    by (simp add: broadcast_unfold [OF b assms(3)] del: rbind_Inr_iff)
qed

theorem cancelled_broadcast_leaves_no_trace_witness:
  "broadcast 1 demo 0 None demo_on = Inr (demo_on\<lparr>ev_param := (ev_param demo_on)(0 := None)\<rparr>)"
proof -
  let ?r = "find_transition demo 0 (armed demo 0 None demo_on)"
  have "case ?r of Inl _ \<Rightarrow> False | Inr (found, _) \<Rightarrow> \<not> found" by code_simp
  then obtain m1 where "?r = Inr (False, m1)" by (cases ?r) auto
  moreover have "ev_in_progress demo_on 0 = 0" by code_simp
  ultimately show ?thesis
    using cancelled_broadcast_leaves_no_trace [of demo 0 demo_on None m1 0] by simp
qed

lemma queued_blocks:
  assumes "sound p m" "d \<in> set (event_queue m)" "e \<in> set (event_chain p (Some d))"
  shows "broadcast (Suc n) p e pb m = Inr m"
proof -
  have "derived_in p e (event_queue m) \<noteq> 0"
    using assms(2,3) by (auto simp: derived_in_def filter_empty_conv)
  then have "ev_in_progress m e > 0" using assms(1) by (simp add: sound_def accounted_def)
  then show ?thesis by (simp add: run_equations broadcast_body_def)
qed

text \<open>C15: inside the algorithm, a broadcast that queues an event blocks broadcasts of that event
  and of all its base events.  Let \<open>d\<close> not be in progress, let its precondition hold, and let a
  broadcast of it find a transition: the event is appended to the queue, and after whatever calls
  an action makes next (it may broadcast, enter, exit and clear as it likes) a broadcast of \<open>d\<close> or
  of one of its base events returns at once and changes nothing.  Assumed before the broadcast: the
  tables are well-formed and pointers and counters as the library keeps them (\<open>sound\<close>).\<close>

theorem no_rebroadcast_while_queued:
  assumes m: "sound p m" "in_progress m" and d: "d < length (p_events p)" "ev_in_progress m d = 0"
    and f: "precondition_true p d pb (armed p d pb m)"
      "find_transition p d (armed p d pb m) = Inr (True, m1)"
    and e: "e \<in> set (event_chain p (Some d))"
  shows "\<exists>m2. broadcast (Suc n) p d pb m = Inr m2 \<and> event_queue m2 = event_queue m @ [d] \<and>
    (\<forall>a i m3. run_action p (ops_at i p) a m2 = Inr m3 \<longrightarrow>
      (\<forall>k pb'. broadcast (Suc k) p e pb' m3 = Inr m3))"
proof -
  have arm: "typed p (armed p d pb m)" "in_progress (armed p d pb m)"
      "event_queue (armed p d pb m) = event_queue m"
    using m mark_in_progress_eq [OF event_chain_distinct [OF wf_parts(3) [OF m(1)] d(1)], of m]
    by (simp_all add: armed_def sound_def)
  let ?m2 = "m1\<lparr>event_queue := event_queue m @ [d]\<rparr>"
  have "marks_only (armed p d pb m) m1"
    using wlpD [OF find_transition_keeps [OF sound_wf [OF m(1)] d(1) arm(1)] f(2)] by simp
  then have b: "broadcast (Suc n) p d pb m = Inr ?m2" "in_progress ?m2"
    using f d(2) arm
    by (simp_all add: broadcast_unfold [OF wf_parts(3) [OF m(1)] d(1)] algorithm_def marks_only_def
        del: rbind_Inr_iff)
  have s: "sound p ?m2"
    using acct.broadcast_body_kept [OF m(1) d(1), of n pb] b(1)
    by (simp add: run_equations kept_def wlp_iff keeps_def)
  have "broadcast (Suc k) p e pb' m3 = Inr m3" if "run_action p (ops_at i p) a ?m2 = Inr m3" for a i m3 k pb'
  proof -
    have k: "keeps p ?m2 m3" using acct.run_action_kept [OF s] that by (simp add: kept_def wlp_iff)
    then have "d \<in> set (event_queue m3)" using b(2) by (auto simp: keeps_def prefix_def)
    then show ?thesis by (rule queued_blocks [OF keeps_sound [OF k] _ e])
  qed
  then show ?thesis using b(1) by auto
qed

definition demo_busy :: "(nat, nat) mstate" where
  "demo_busy = demo_on\<lparr>in_progress := True\<rparr>"

lemma demo_busy_sound: "sound demo demo_busy"
  using demo_on_sound by (simp add: demo_busy_def sound_def)

lemma demo_busy_search:
  "case find_transition demo 2 (armed demo 2 None demo_busy) of Inl _ \<Rightarrow> False | Inr (found, _) \<Rightarrow> found"
  "ev_in_progress demo_busy 2 = 0" "in_progress demo_busy"
  "precondition_true demo 2 None (armed demo 2 None demo_busy)"
  by code_simp+

theorem no_rebroadcast_while_queued_witness:
  "\<exists>m2. broadcast 1 demo 2 None demo_busy = Inr m2 \<and> event_queue m2 = [2] \<and>
    (\<forall>u. broadcast 1 demo 1 None (m2\<lparr>udata := u\<rparr>) = Inr (m2\<lparr>udata := u\<rparr>))"
proof -
  obtain m1 where "find_transition demo 2 (armed demo 2 None demo_busy) = Inr (True, m1)"
    using demo_busy_search(1)
    by (cases "find_transition demo 2 (armed demo 2 None demo_busy)") auto
  from no_rebroadcast_while_queued [OF demo_busy_sound demo_busy_search(3) _ demo_busy_search(2,4) this,
      of 1 0]
  obtain m2 where m2: "broadcast 1 demo 2 None demo_busy = Inr m2"
      "event_queue m2 = event_queue demo_busy @ [2]"
      "\<And>a i m3 k pb'. run_action demo (ops_at i demo) a m2 = Inr m3 \<Longrightarrow>
        broadcast (Suc k) demo 1 pb' m3 = Inr m3"
    by (auto simp: demo_tree)
  have "event_queue demo_busy = []" by code_simp
  moreover have "broadcast (Suc 0) demo 1 None (m2\<lparr>udata := u\<rparr>) = Inr (m2\<lparr>udata := u\<rparr>)" for u
    by (rule m2(3) [of 0 "UReturn u"]) simp
  ultimately show ?thesis using m2(1,2) by auto
qed

text \<open>C16: the transition of an outer state dominates those of inner states: once it has
  exited, a later transition of the same micro-step whose source was below it is unmarked
  in Phase I, without an exit and without its action.  Assumed (\<open>stepping\<close>, \<open>tidy\<close>): the tables are
  well-formed, every cluster and set has a child, no target is computed at run time, attached code
  only broadcasts, the algorithm is running, pointers and counters are as the library keeps them,
  parents of active states are active and active clusters have no active child but the noted one.\<close>

theorem outer_transition_dominates:
  assumes "stepping p m" "tidy p m" "2 * length (p_states p) + 3 \<le> n"
    and "t1 < length (p_transitions p)" "\<not> is_internal (transition_of p t1)"
    and "taken m t1 = Some e" "active m (source p t1)"
    and "taken m t2 = Some e" "valid_sptr p (source p t2)" "below p (exit_root p t1) (source p t2)"
    and "e \<in> set (event_queue m)"
  shows "\<exists>m1. exit_from p (ops_at n p) e t1 m = Inr m1 \<and> \<not> active m1 (source p t2) \<and>
    exit_from p (ops_at n p) e t2 m1 = Inr (m1\<lparr>taken := (taken m1)(t2 := None)\<rparr>)"
  using exit_from_dominates [OF assms(1-3) assms(4-7) assms(8-10) assms(11)] by (simp add: wp_iff)

lemma demo_leave_moves:
  "3 < length (p_transitions demo)" "\<not> is_internal (transition_of demo 3)"
  "taken demo_leave 3 = Some 2" "active demo_leave (source demo 3)"
  "taken demo_leave 1 = Some 2" "valid_sptr demo (source demo 1)"
  "below demo (exit_root demo 3) (source demo 1)"
  by code_simp+

theorem outer_transition_dominates_witness:
  "\<exists>m1. exit_from demo (ops_at 19 demo) 2 3 demo_leave = Inr m1 \<and> \<not> active m1 (St 3)"
proof -
  have "tidy demo demo_leave" using demo_leave_legal unfolding legal_config_iff by blast
  moreover have "(2::nat) \<in> set (event_queue demo_leave)" "source demo 1 = St 3" by code_simp+
  ultimately show ?thesis
    using outer_transition_dominates [OF demo_leave_stepping _ _ demo_leave_moves, of 19] by auto
qed

text \<open>C17: \<^verbatim>\<open>transition::is_legal\<close> decides whether the nearest
  common ancestor of the two states is not a set.\<close>

theorem legal_iff_ancestor_not_set:
  assumes "wf_states p" "valid_sptr p a" "valid_sptr p b"
  shows "is_legal p (Some a) (Some b) \<longleftrightarrow>
    (\<forall>c. nearest_common p a b c \<longrightarrow> \<not> is_set (kind_of p c))"
  using is_legal_iff [OF assms] .

theorem legal_iff_ancestor_not_set_witness:
  "\<not> is_legal demo (Some (St 3)) (Some (St 6))"
proof -
  have "nearest_common demo (St 3) (St 6) (St 1)" "is_set (kind_of demo (St 1))" by code_simp+
  then show ?thesis
    using legal_iff_ancestor_not_set [of demo "St 3" "St 6"] demo_tree by auto
qed

end
