(* ===== verification/Chsm_Iterators.thy ===== *)
theory Chsm_Iterators
  imports Chsm_Machines
begin

text \<open>
  The loops of \<^verbatim>\<open>machine::algorithm\<close> hold an iterator \<^verbatim>\<open>e_it\<close> into the queue, a
  \<^verbatim>\<open>std::deque\<close>, while the code they run may broadcast; \<^verbatim>\<open>event::broadcast\<close> then calls
  \<^verbatim>\<open>push_back\<close>, which ends the validity of every iterator into the deque.  \<open>micro_step\<close>
  of \<open>Chsm_Run\<close> reads the queue by position, as if the iterator stayed valid.
  \<open>walking_step\<close> is the same turn with the iterator as the standard has it: to read
  through it or to advance it after the queue has grown is an error.  Both agree on exactly the
  turns during which no event is queued.
\<close>

section \<open>Iterators into the queue\<close>

text \<open>The position, and the size of the queue when the iterator was obtained: in the phases
  that hold iterators the queue changes by \<^verbatim>\<open>push_back\<close> only.\<close>

record queue_iterator =
  it_pos :: nat
  it_size :: nat

definition queue_begin :: "('u, 'p) mstate \<Rightarrow> queue_iterator" where
  "queue_begin m = \<lparr>it_pos = 0, it_size = length (event_queue m)\<rparr>"

definition it_valid :: "queue_iterator \<Rightarrow> ('u, 'p) mstate \<Rightarrow> bool" where
  "it_valid it m \<longleftrightarrow> it_size it = length (event_queue m)"

definition it_deref :: "queue_iterator \<Rightarrow> ('u, 'p) mstate \<Rightarrow> err + event_id" where
  "it_deref it m =
     (if it_valid it m \<and> it_pos it < length (event_queue m) then Inr (event_queue m ! it_pos it)
      else Inl BadAccess)"

definition it_advance :: "queue_iterator \<Rightarrow> ('u, 'p) mstate \<Rightarrow> err + queue_iterator" where
  "it_advance it m = (if it_valid it m then Inr (it\<lparr>it_pos := Suc (it_pos it)\<rparr>) else Inl BadAccess)"

text \<open>\<^verbatim>\<open>for ( i = 0, e_it = begin(); i < events_in_step; ++i, ++e_it )\<close>, with \<open>k\<close> turns left.\<close>

primrec walk_queue ::
  "nat \<Rightarrow> (event_id \<Rightarrow> ('u, 'p) mstate \<Rightarrow> err + ('u, 'p) mstate) \<Rightarrow> queue_iterator \<Rightarrow>
     ('u, 'p) mstate \<Rightarrow> err + ('u, 'p) mstate" where
  "walk_queue 0 f it m = Inr m"
| "walk_queue (Suc k) f it m =
     rbind (it_deref it m) (\<lambda>e.
     rbind (f e m) (\<lambda>m.
     rbind (it_advance it m) (\<lambda>it. walk_queue k f it m)))"

definition exit_event ::
  "('u, 'p) program \<Rightarrow> ('u, 'p) ops \<Rightarrow> event_id \<Rightarrow> ('u, 'p) mstate \<Rightarrow> err + ('u, 'p) mstate" where
  "exit_event p ops e m = iter_res (exit_from p ops e) (transition_ids p e) (share_params p e m)"

definition enter_event ::
  "('u, 'p) program \<Rightarrow> ('u, 'p) ops \<Rightarrow> event_id \<Rightarrow> ('u, 'p) mstate \<Rightarrow> err + ('u, 'p) mstate" where
  "enter_event p ops e m = iter_res (enter_to p ops e) (transition_ids p e) m"

definition walking_step ::
  "('u, 'p) program \<Rightarrow> ('u, 'p) ops \<Rightarrow> ('u, 'p) mstate \<Rightarrow> err + ('u, 'p) mstate" where
  "walking_step p ops m =
     (let events_in_step = length (event_queue m) in
      rbind (walk_queue events_in_step (exit_event p ops) (queue_begin m) m) (\<lambda>m.
      rbind (walk_queue events_in_step (enter_event p ops) (queue_begin m) m) (\<lambda>m.
      phase_dequeue events_in_step p m)))"

section \<open>Agreement with the loops over positions\<close>

lemma phases_by_event:
  "phase_exit p ops evs m = iter_res (exit_event p ops) evs m"
  "phase_enter p ops evs m = iter_res (enter_event p ops) evs m"
  by (simp_all add: phase_exit_def phase_enter_def exit_event_def [abs_def] enter_event_def [abs_def])

lemma iter_res_one: "iter_res f [x] s = f x s"
  by (cases "f x s") simp_all

lemma by_event_kept:
  assumes "sound p m"
  shows "kept p m (exit_event p (ops_at n p) e m)" "kept p m (enter_event p (ops_at n p) e m)"
  using acct.phase_exit_kept [OF assms, of n "[e]"] acct.phase_enter_kept [OF assms, of n "[e]"]
  by (simp_all only: phases_by_event iter_res_one)

lemma keeps_length:
  "keeps p m m' \<Longrightarrow> in_progress m \<Longrightarrow> length (event_queue m') = length (event_queue m) \<Longrightarrow>
    event_queue m' = event_queue m"
  by (auto simp: keeps_def prefix_def)

text \<open>A loop through the iterator ends without an error exactly if the loop over the
  events does and nothing was queued meanwhile; then both end alike.\<close>

lemma walk_queue_iff:
  assumes f: "\<And>e m. sound p m \<Longrightarrow> kept p m (f e m)"
    and "sound p m" "in_progress m" "it_size it = length (event_queue m)"
    and "it_pos it + k = length (event_queue m)"
  shows "walk_queue k f it m = Inr m' \<longleftrightarrow>
    iter_res f (drop (it_pos it) (event_queue m)) m = Inr m' \<and> event_queue m' = event_queue m"
  using assms(2-)
proof (induction k arbitrary: it m)
  case (Suc k)
  let ?i = "it_pos it" and ?q = "event_queue m"
  have i: "?i < length ?q" using Suc.prems by simp
  note d = Cons_nth_drop_Suc [OF i, symmetric]
  have e: "it_deref it m = Inr (?q ! ?i)" using i Suc.prems by (simp add: it_deref_def it_valid_def)
  show ?case
  proof (cases "f (?q ! ?i) m")
    case (Inl x)
    then show ?thesis by (simp add: e d)
  next
    case (Inr m1)
    then have k1: "keeps p m m1" using f [OF Suc.prems(1), of "?q ! ?i"] by (simp add: kept_def)
    show ?thesis
    proof (cases "event_queue m1 = ?q")
      case True
      have "sound p m1" "in_progress m1" using k1 Suc.prems(2) by (simp_all add: keeps_def)
      then have "walk_queue k f (it\<lparr>it_pos := Suc ?i\<rparr>) m1 = Inr m' \<longleftrightarrow>
          iter_res f (drop (Suc ?i) ?q) m1 = Inr m' \<and> event_queue m' = ?q"
        using Suc.IH [of m1 "it\<lparr>it_pos := Suc ?i\<rparr>"] Suc.prems True by simp
      then show ?thesis using Suc.prems True by (simp add: e d Inr it_advance_def it_valid_def)
    next
      case False
      have "\<not> it_valid it m1"
        using False keeps_length [OF k1 Suc.prems(2)] Suc.prems(3) by (auto simp: it_valid_def)
      moreover have "event_queue m2 \<noteq> ?q" if "iter_res f (drop (Suc ?i) ?q) m1 = Inr m2" for m2
      proof
        assume q: "event_queue m2 = ?q"
        have "kept p m1 (iter_res f (drop (Suc ?i) ?q) m1)"
          by (rule kept_iter [OF f keeps_sound [OF k1]])
        then have "keeps p m1 m2" using that by (simp add: kept_def)
        then have "prefix ?q (event_queue m1)" "prefix (event_queue m1) ?q"
          using k1 Suc.prems(2) q by (auto simp: keeps_def)
        then show False using False prefix_order.antisym by metis
      qed
      ultimately show ?thesis by (auto simp: e d Inr it_advance_def)
    qed
  qed
qed auto

lemma walk_phases:
  assumes "sound p m" "in_progress m"
  shows "walk_queue (length (event_queue m)) (exit_event p (ops_at n p)) (queue_begin m) m = Inr m' \<longleftrightarrow>
      phase_exit p (ops_at n p) (event_queue m) m = Inr m' \<and> event_queue m' = event_queue m"
    "walk_queue (length (event_queue m)) (enter_event p (ops_at n p)) (queue_begin m) m = Inr m' \<longleftrightarrow>
      phase_enter p (ops_at n p) (event_queue m) m = Inr m' \<and> event_queue m' = event_queue m"
  using walk_queue_iff [OF by_event_kept(1) assms, of "queue_begin m" "length (event_queue m)"]
    walk_queue_iff [OF by_event_kept(2) assms, of "queue_begin m" "length (event_queue m)"]
  by (simp_all add: queue_begin_def phases_by_event)

text \<open>The queue during a turn.\<close>

lemma queue_in_turn:
  assumes m: "sound p m" "in_progress m"
    and "phase_exit p (ops_at n p) (event_queue m) m = Inr b"
    and "phase_enter p (ops_at n p) (event_queue m) b = Inr c"
    and "phase_dequeue (length (event_queue m)) p c = Inr m'"
  shows "sound p b" "in_progress b" "prefix (event_queue m) (event_queue b)"
    "prefix (event_queue b) (event_queue c)"
    "event_queue m' = drop (length (event_queue m)) (event_queue c)"
proof -
  have 1: "keeps p m b" using acct.phase_exit_kept [OF m(1)] assms(3) by (simp add: kept_def wlp_iff)
  then show b: "sound p b" "in_progress b" "prefix (event_queue m) (event_queue b)"
    using m by (simp_all add: keeps_def)
  have 2: "keeps p b c" using acct.phase_enter_kept [OF b(1)] assms(4) by (simp add: kept_def wlp_iff)
  then show "prefix (event_queue b) (event_queue c)" using b by (simp add: keeps_def)
  then have "length (event_queue m) \<le> length (event_queue c)"
    using b(3) prefix_length_le le_trans by blast
  then show "event_queue m' = drop (length (event_queue m)) (event_queue c)"
    using acct.phase_dequeue_drains [of p c "length (event_queue m)"] assms(5) 2 b
    by (auto simp: keeps_def wp_iff)
qed

lemma walking_step_iff:
  assumes m: "sound p m" "in_progress m"
  shows "walking_step p (ops_at n p) m = Inr m' \<longleftrightarrow>
    micro_step p (ops_at n p) m = Inr m' \<and> event_queue m' = []"
proof
  assume "walking_step p (ops_at n p) m = Inr m'"
  then obtain b c where bc: "phase_exit p (ops_at n p) (event_queue m) m = Inr b" "event_queue b = event_queue m"
      "walk_queue (length (event_queue m)) (enter_event p (ops_at n p)) (queue_begin b) b = Inr c"
      "phase_dequeue (length (event_queue m)) p c = Inr m'"
    by (auto simp: walking_step_def Let_def walk_phases(1) [OF m])
  have "keeps p m b" using acct.phase_exit_kept [OF m(1)] bc(1) by (simp add: kept_def wlp_iff)
  then have "sound p b" "in_progress b" using m by (simp_all add: keeps_def)
  then have c: "phase_enter p (ops_at n p) (event_queue m) b = Inr c" "event_queue c = event_queue m"
    using bc(2,3) walk_phases(2) [of p b n c] by simp_all
  show "micro_step p (ops_at n p) m = Inr m' \<and> event_queue m' = []"
    using bc(1,4) c queue_in_turn(5) [OF m bc(1) c(1) bc(4)] by (simp add: micro_step_def Let_def)
next
  assume r: "micro_step p (ops_at n p) m = Inr m' \<and> event_queue m' = []"
  then obtain b c where bc: "phase_exit p (ops_at n p) (event_queue m) m = Inr b"
      "phase_enter p (ops_at n p) (event_queue m) b = Inr c"
      "phase_dequeue (length (event_queue m)) p c = Inr m'"
    by (auto simp: micro_step_def Let_def)
  note q = queue_in_turn [OF m bc]
  have "length (event_queue c) \<le> length (event_queue m)" using q(5) r by simp
  then have e: "event_queue b = event_queue m" "event_queue c = event_queue m"
    using q(3,4) by (auto simp: prefix_def)
  then show "walking_step p (ops_at n p) m = Inr m'"
    using bc walk_phases [OF m] walk_phases(2) [OF q(1,2)] by (simp add: walking_step_def Let_def)
qed

text \<open>C5: a turn of the loop in \<^verbatim>\<open>machine::algorithm\<close> that holds
  deque iterators, each push to the queue ending their validity, goes through exactly if the turn
  that reads the queue by position does and leaves the queue empty, which means that no code it
  ran queued an event; both turns then end in the same machine. In other words, the turn has
  undefined behaviour as soon as an action of its transitions, or an event attached to a state,
  queues an event. Assumed: the tables are well-formed and pointers and counters as the library
  keeps them (\<open>sound\<close>), and the algorithm is running.\<close>

theorem iterators_stay_valid:
  assumes "sound p m" "in_progress m"
  shows "walking_step p (ops_at n p) m = Inr m' \<longleftrightarrow>
    micro_step p (ops_at n p) m = Inr m' \<and> event_queue m' = []"
  using walking_step_iff [OF assms] .

theorem iterators_stay_valid_witness:
  "\<exists>m'. walking_step demo (ops_at 19 demo) demo_swap = Inr m' \<and> active m' (St 4)"
proof -
  have "case micro_step demo (ops_at 19 demo) demo_swap of Inl _ \<Rightarrow> False
      | Inr m' \<Rightarrow> event_queue m' = [] \<and> active m' (St 4)"
    by code_simp
  then obtain m' where "micro_step demo (ops_at 19 demo) demo_swap = Inr m'" "event_queue m' = []"
      "active m' (St 4)"
    by (cases "micro_step demo (ops_at 19 demo) demo_swap") auto
  moreover have "in_progress demo_swap" using demo_swap_stepping by (simp add: stepping_def)
  ultimately show ?thesis using iterators_stay_valid [of demo demo_swap 19 m'] by auto
qed

end
