(* ===== verification/Chsm_Flaws.thy ===== *)
theory Chsm_Flaws
  imports Chsm_Iterators
begin

text \<open>
  Inputs on which the run-time library leaves the configurations it means to maintain, or
  dereferences a null pointer.  Each machine is one the compiler accepts; each run is
  evaluated in the kernel.
\<close>

text \<open>
  A transition to \<^verbatim>\<open>s.x.c\<close> from outside the set \<^verbatim>\<open>s\<close>: the set, entered on behalf of
  \<^verbatim>\<open>s.x\<close>, enters all its children and with \<^verbatim>\<open>s.x\<close> its default child \<^verbatim>\<open>s.x.b\<close>; then
  \<^verbatim>\<open>s.x.c\<close> becomes active without asking.  Two children of a cluster are active.
\<close>

lemma deep_entry_activates_two_children:
  "actives deep (rbind (machine_enter 12 deep Prime (init_mstate 0)) (\<lambda>(_, m). broadcast 12 deep 0 None m))
    = Some [Root, St 1, St 2, St 3, St 4, St 5, St 6]"
  by code_simp

text \<open>Such a machine does not come to rest: after \<^verbatim>\<open>machine::exit\<close> a state is still active.\<close>

lemma deep_entry_survives_exit:
  "actives deep (rbind (rbind (machine_enter 12 deep Prime (init_mstate 0))
      (\<lambda>(_, m). broadcast 12 deep 0 None m)) (\<lambda>m. rbind (machine_exit 12 deep Prime m) (\<lambda>(_, m). Inr m)))
    = Some [St 4]"
  by code_simp

text \<open>
  \<^verbatim>\<open>state::enter\<close> ignores the result of \<^verbatim>\<open>parent_of()->enter()\<close>: when the parent is
  denied permission, the state becomes active all the same, below an inactive parent.
\<close>

lemma denied_parent_activates_child:
  "actives denied (rbind (machine_enter 12 denied Prime (init_mstate 0))
      (\<lambda>(_, m). broadcast 12 denied 0 None m)) = Some [Root, St 0, St 2, St 4]"
  by code_simp

text \<open>
  An enter event broadcast by \<^verbatim>\<open>machine::enter\<close> runs the algorithm at once, inside the
  entering: the half-entered cluster \<^verbatim>\<open>s.q\<close> is exited through its null
  \<^verbatim>\<open>active_child_\<close>.
\<close>

lemma enter_event_during_start_crashes:
  "(case machine_enter 12 eager Prime (init_mstate 0) of Inl e \<Rightarrow> e = BadAccess | Inr _ \<Rightarrow> False)"
  by code_simp

text \<open>
  A transition whose target function returns null is skipped but stays marked; Phase II of
  the same event dereferences its null target.
\<close>

lemma skipped_transition_crashes:
  "(case rbind (machine_enter 12 nowhere Prime (init_mstate 0)) (\<lambda>(_, m). broadcast 12 nowhere 0 None m)
    of Inl e \<Rightarrow> e = BadAccess | Inr _ \<Rightarrow> False)"
  by code_simp

text \<open>
  \<^verbatim>\<open>cluster::enter\<close> guards against a cluster without children, \<^verbatim>\<open>cluster::exit\<close> does not.
\<close>

lemma empty_cluster_exit_crashes:
  "(case rbind (machine_enter 12 hollow Prime (init_mstate 0)) (\<lambda>(_, m). machine_exit 12 hollow Prime m)
    of Inl e \<Rightarrow> e = BadAccess | Inr _ \<Rightarrow> False)"
  by code_simp

lemma empty_cluster_clear_crashes:
  "(case cluster_clear hollow (St 0) (init_mstate 0) of Inl e \<Rightarrow> e = BadAccess | Inr _ \<Rightarrow> False)"
  by code_simp

text \<open>
  The action of \<^verbatim>\<open>start\<close> queues two events while Phase I holds an iterator into the queue:
  advancing the iterator is undefined.  A turn that reads the queue by position goes through.
\<close>

definition denied_turn :: "err + (nat, nat) mstate" where
  "denied_turn = rbind (machine_enter 12 denied Prime (init_mstate 0)) (\<lambda>(_, m).
     rbind (find_transition denied 0 (mark_in_progress denied 0 m)) (\<lambda>(_, m).
       Inr (m\<lparr>event_queue := [0], in_progress := True\<rparr>)))"

lemma queued_event_ends_iterator:
  "(case rbind denied_turn (walking_step denied (ops_at 12 denied)) of Inl e \<Rightarrow> e = BadAccess | Inr _ \<Rightarrow> False)"
  "(case rbind denied_turn (micro_step denied (ops_at 12 denied)) of Inl _ \<Rightarrow> False
    | Inr m \<Rightarrow> event_queue m = [1, 2])"
  by code_simp+

end
