(* ===== verification/Chsmc_Text.thy ===== *)
theory Chsmc_Text
  imports Chsm_Prelude "HOL-Library.Char_ord"
begin

text \<open>
  The string utilities of the compiler (\<^verbatim>\<open>chsmc/util.cpp\<close> and \<^verbatim>\<open>util.h\<close>): path names,
  identifiers, numbers.  A C++ string is a list of characters; a \<^verbatim>\<open>char const*\<close> is the
  list of the characters before its terminating NUL, and an operation that would read or
  write outside its buffer returns \<open>None\<close>.  The character classes are those of the "C"
  locale.  \<^verbatim>\<open>ltoa\<close> hands out its ten static buffers in turn; the pool is an explicit state
  and a returned pointer is the index of its buffer.
\<close>

named_theorems char_class "the code points of a character class"

section \<open>Character classes of the C library\<close>

definition code :: "char \<Rightarrow> nat" where
  "code c = of_char c"

definition isdigit :: "char \<Rightarrow> bool" where
  "isdigit c \<longleftrightarrow> 48 \<le> code c \<and> code c \<le> 57"

definition isupper :: "char \<Rightarrow> bool" where
  "isupper c \<longleftrightarrow> 65 \<le> code c \<and> code c \<le> 90"

definition islower :: "char \<Rightarrow> bool" where
  "islower c \<longleftrightarrow> 97 \<le> code c \<and> code c \<le> 122"

definition isalpha :: "char \<Rightarrow> bool" where
  "isalpha c \<longleftrightarrow> isupper c \<or> islower c"

definition isalnum :: "char \<Rightarrow> bool" where
  "isalnum c \<longleftrightarrow> isalpha c \<or> isdigit c"

definition isspace :: "char \<Rightarrow> bool" where
  "isspace c \<longleftrightarrow> code c = 32 \<or> (9 \<le> code c \<and> code c \<le> 13)"

lemmas class_defs = isdigit_def isupper_def islower_def isalpha_def isalnum_def isspace_def
declare class_defs [char_class]

lemma code_inject [simp]: "code c = code d \<longleftrightarrow> c = d"
  by (simp add: code_def)

lemma code_less [simp]: "code c < 256"
  using of_char_mod_256 [of c, where 'a=nat] by (metis code_def mod_less_divisor zero_less_numeral)

lemma code_char_of: "n < 256 \<Longrightarrow> code (char_of n) = n"
  by (simp add: code_def)

section \<open>Searching a string\<close>

text \<open>\<^verbatim>\<open>std::string::find_last_of\<close> and \<^verbatim>\<open>strrchr\<close>: the last position of a character.\<close>

primrec find_last_of :: "char \<Rightarrow> string \<Rightarrow> nat option" where
  "find_last_of c [] = None"
| "find_last_of c (x # xs) = (case find_last_of c xs of
     Some n \<Rightarrow> Some (Suc n)
   | None \<Rightarrow> (if x = c then Some 0 else None))"

lemma find_last_of_None: "find_last_of c s = None \<longleftrightarrow> c \<notin> set s"
  by (induction s) (auto split: option.splits)

lemma find_last_of_absent [simp]: "c \<notin> set s \<Longrightarrow> find_last_of c s = None"
  by (simp add: find_last_of_None)

lemma find_last_of_Some:
  "find_last_of c s = Some n \<longleftrightarrow> n < length s \<and> s ! n = c \<and> c \<notin> set (drop (Suc n) s)"
proof (induction s arbitrary: n)
  case (Cons x xs)
  show ?case
  proof (cases "find_last_of c xs")
    case None
    then have "c \<notin> set xs" by (simp add: find_last_of_None)
    then show ?thesis
      by (cases n) (auto simp: None dest: nth_mem in_set_dropD)
  next
    case (Some m)
    then have m: "m < length xs" "xs ! m = c" "c \<notin> set (drop (Suc m) xs)"
      by (simp_all add: Cons.IH)
    show ?thesis
    proof
      assume "find_last_of c (x # xs) = Some n"
      with Some m show "n < length (x # xs) \<and> (x # xs) ! n = c \<and> c \<notin> set (drop (Suc n) (x # xs))"
        by auto
    next
      assume n: "n < length (x # xs) \<and> (x # xs) ! n = c \<and> c \<notin> set (drop (Suc n) (x # xs))"
      with m have "n \<noteq> 0" by (metis drop0 drop_Suc_Cons nth_mem)
      then obtain k where k: "n = Suc k" by (cases n) auto
      with n have "find_last_of c xs = Some k" by (simp add: Cons.IH)
      with Some k show "find_last_of c (x # xs) = Some n" by simp
    qed
  qed
qed simp

lemma find_last_ofD:
  assumes "find_last_of c s = Some n"
  shows "n < length s" "s ! n = c" "c \<notin> set (drop (Suc n) s)"
  using assms by (simp_all add: find_last_of_Some)

lemma find_last_of_split:
  assumes "find_last_of c s = Some n"
  shows "s = take n s @ c # drop (Suc n) s"
  using assms unfolding find_last_of_Some by (metis id_take_nth_drop)

lemma find_last_of_append:
  "find_last_of c (xs @ ys) = (case find_last_of c ys of
     Some n \<Rightarrow> Some (length xs + n) | None \<Rightarrow> find_last_of c xs)"
  by (induction xs) (auto simp del: find_last_of_absent split: option.splits)

section \<open>Path names\<close>

text \<open>The \<^verbatim>\<open>char const*\<close> overload keeps a trailing slash, the \<^verbatim>\<open>std::string\<close> one does not.\<close>

definition base_name_ptr :: "string \<Rightarrow> string" where
  "base_name_ptr path = (case find_last_of CHR ''/'' path of
     Some slash \<Rightarrow> (if Suc slash < length path then drop (Suc slash) path else drop slash path)
   | None \<Rightarrow> path)"

definition base_name :: "string \<Rightarrow> string" where
  "base_name path = (case find_last_of CHR ''/'' path of
     Some slash_pos \<Rightarrow> drop (slash_pos + (if slash_pos < length path then 1 else 0)) path
   | None \<Rightarrow> path)"

definition path_ext :: "string \<Rightarrow> string" where
  "path_ext path = (let temp = base_name path in
     case find_last_of CHR ''.'' temp of
       None \<Rightarrow> []
     | Some dot_pos \<Rightarrow> drop (dot_pos + 1) temp)"

definition path_noext :: "string \<Rightarrow> string" where
  "path_noext path = (case find_last_of CHR ''.'' path of
     None \<Rightarrow> path
   | Some dot_pos \<Rightarrow> (case find_last_of CHR ''/'' path of
       Some slash_pos \<Rightarrow> (if dot_pos < slash_pos then path else take dot_pos path)
     | None \<Rightarrow> take dot_pos path))"

lemma base_name_split:
  "path = (case find_last_of CHR ''/'' path of None \<Rightarrow> [] | Some n \<Rightarrow> take (Suc n) path) @ base_name path"
  by (cases "find_last_of CHR ''/'' path") (simp_all add: base_name_def find_last_ofD)

lemma base_name_no_slash: "CHR ''/'' \<notin> set (base_name path)"
  by (cases "find_last_of CHR ''/'' path")
    (simp_all add: base_name_def find_last_ofD find_last_of_None)

lemma base_name_idem: "base_name (base_name path) = base_name path"
  using base_name_no_slash [of path] by (simp add: base_name_def [of "base_name path"])

text \<open>What the comments of \<^verbatim>\<open>path_ext\<close> and \<^verbatim>\<open>path_noext\<close> promise together.\<close>

lemma path_split_ext:
  assumes "CHR ''.'' \<in> set (base_name path)"
  shows "path_noext path @ CHR ''.'' # path_ext path = path" "CHR ''.'' \<notin> set (path_ext path)"
proof -
  obtain d where d: "find_last_of CHR ''.'' (base_name path) = Some d"
    using assms find_last_of_None by fastforce
  obtain pre where pre: "path = pre @ base_name path"
      "find_last_of CHR ''/'' path = (if pre = [] then None else Some (length pre - 1))"
    using base_name_split [of path] that
    by (fastforce simp: find_last_of_Some split: option.splits)
  have f: "find_last_of CHR ''.'' path = Some (length pre + d)"
    by (subst pre(1), simp add: find_last_of_append d)
  have e: "path_ext path = drop (Suc d) (base_name path)"
    by (simp add: path_ext_def d)
  have "path_noext path = take (length pre + d) path"
    by (auto simp: path_noext_def f pre(2))
  also have "\<dots> = pre @ take d (base_name path)"
    by (subst pre(1)) simp
  finally show "path_noext path @ CHR ''.'' # path_ext path = path"
    using find_last_of_split [OF d] pre(1) by (simp add: e)
  show "CHR ''.'' \<notin> set (path_ext path)"
    using d by (simp add: e find_last_of_Some)
qed

lemma path_split_no_ext:
  assumes "CHR ''.'' \<notin> set (base_name path)"
  shows "path_noext path = path" "path_ext path = []"
proof -
  have none: "find_last_of CHR ''.'' (base_name path) = None"
    using assms by simp
  then show "path_ext path = []" by (simp add: path_ext_def Let_def)
  show "path_noext path = path"
  proof (cases "find_last_of CHR ''/'' path")
    case None
    then have "base_name path = path" by (simp add: base_name_def)
    with none have "find_last_of CHR ''.'' path = None" by simp
    then show ?thesis by (simp add: path_noext_def)
  next
    case (Some n)
    then have sp: "path = take (Suc n) path @ base_name path" "n < length path"
      "path ! n = CHR ''/''"
      using base_name_split [of path] by (simp_all add: find_last_ofD)
    have "find_last_of CHR ''.'' path = find_last_of CHR ''.'' (take (Suc n) path)"
      by (subst sp(1), simp add: find_last_of_append none del: append_take_drop_id)
    moreover have "m < n" if "find_last_of CHR ''.'' (take (Suc n) path) = Some m" for m
    proof -
      have "m < Suc n" "path ! m = CHR ''.''"
        using find_last_ofD [OF that] sp(2) by simp_all
      then show "m < n"
        using sp(3) by (cases "m = n") simp_all
    qed
    ultimately show ?thesis
      using Some by (auto simp: path_noext_def split: option.splits)
  qed
qed

text \<open>\<^verbatim>\<open>operator+\<close> on paths appends; \<^verbatim>\<open>std::filesystem::path\<close> is its native string.\<close>

definition path_plus :: "string \<Rightarrow> string \<Rightarrow> string" where
  "path_plus p s = p @ s"

definition path_plus_char :: "string \<Rightarrow> char \<Rightarrow> string" where
  "path_plus_char p c = p @ [c]"

lemma path_plus_ext:
  assumes "CHR ''.'' \<notin> set (base_name p)" "CHR ''/'' \<notin> set e" "CHR ''.'' \<notin> set e"
  shows "path_ext (path_plus (path_plus_char p CHR ''.'') e) = e"
    "path_noext (path_plus (path_plus_char p CHR ''.'') e) = p"
proof -
  let ?q = "path_plus (path_plus_char p CHR ''.'') e"
  have q: "?q = p @ CHR ''.'' # e"
    by (simp add: path_plus_def path_plus_char_def)
  have none: "find_last_of CHR ''/'' (CHR ''.'' # e) = None"
    using assms(2) by (simp add: find_last_of_None)
  have b: "base_name ?q = base_name p @ CHR ''.'' # e"
  proof (cases "find_last_of CHR ''/'' p")
    case (Some n)
    then have "n < length p" by (simp add: find_last_of_Some)
    with Some none show ?thesis
      by (simp add: q base_name_def find_last_of_append del: find_last_of.simps(2))
  qed (use none in \<open>simp add: q base_name_def find_last_of_append del: find_last_of.simps(2)\<close>)
  have dot: "find_last_of CHR ''.'' (CHR ''.'' # e) = Some 0"
    using assms(3) by simp
  show ext: "path_ext ?q = e"
    by (simp add: path_ext_def b find_last_of_append dot del: find_last_of.simps(2))
  have "CHR ''.'' \<in> set (base_name ?q)" by (simp add: b)
  from path_split_ext(1) [OF this] show "path_noext ?q = p"
    by (simp add: ext) (simp add: q)
qed

section \<open>Suffixes, identifiers and letters\<close>

definition ends_with :: "string \<Rightarrow> string \<Rightarrow> bool" where
  "ends_with s suffix \<longleftrightarrow> length s \<ge> length suffix \<and>
     take (length suffix) (drop (length s - length suffix) s) = suffix"

text \<open>The comment of \<^verbatim>\<open>ends_with\<close> in the header.\<close>

definition has_suffix :: "string \<Rightarrow> string \<Rightarrow> bool" where
  "has_suffix s suffix \<longleftrightarrow> (\<exists>front. s = front @ suffix)"

lemma ends_with_iff: "ends_with s suffix \<longleftrightarrow> has_suffix s suffix"
proof
  assume e: "ends_with s suffix"
  then have "drop (length s - length suffix) s = suffix"
    by (simp add: ends_with_def)
  then have "s = take (length s - length suffix) s @ suffix"
    by (metis append_take_drop_id)
  then show "has_suffix s suffix"
    unfolding has_suffix_def by blast
qed (auto simp: ends_with_def has_suffix_def)

primrec identify_loop :: "string \<Rightarrow> bool \<Rightarrow> string \<Rightarrow> string" where
  "identify_loop [] underscore result = result"
| "identify_loop (c # cs) underscore result =
     (if isalnum c \<or> c = CHR ''_'' then identify_loop cs False (result @ [c])
      else if \<not> underscore then identify_loop cs True (result @ [CHR ''_''])
      else identify_loop cs underscore result)"

definition identify :: "string \<Rightarrow> string" where
  "identify s = identify_loop s False []"

lemma identify_loop_chars:
  "set (identify_loop cs u result) \<subseteq> set result \<union> {c. isalnum c \<or> c = CHR ''_''}"
proof (induction cs arbitrary: u result)
  case (Cons c cs)
  show ?case
    using Cons [of False "result @ [c]"] Cons [of True "result @ [CHR ''_'']"] Cons [of u result]
    by (auto simp: subset_iff)
qed simp

lemma identify_loop_valid:
  "\<forall>c \<in> set cs. isalnum c \<or> c = CHR ''_'' \<Longrightarrow> identify_loop cs u result = result @ cs"
  by (induction cs arbitrary: u result) auto

lemma identify_valid:
  "c \<in> set (identify s) \<Longrightarrow> isalnum c \<or> c = CHR ''_''"
  "identify (identify s) = identify s"
proof -
  have *: "\<forall>c \<in> set (identify s). isalnum c \<or> c = CHR ''_''"
    using identify_loop_chars [of s False "[]"] by (auto simp: identify_def)
  then show "c \<in> set (identify s) \<Longrightarrow> isalnum c \<or> c = CHR ''_''" by blast
  show "identify (identify s) = identify s"
    using identify_loop_valid [OF *, of False "[]"] by (simp add: identify_def)
qed

text \<open>The result need not be a C identifier: a leading digit is kept.\<close>

lemma identify_leading_digit: "identify ''2nd machine.chsmc'' = ''2nd_machine_chsmc''"
  by code_simp

definition opening_char :: "char \<Rightarrow> char" where
  "opening_char c =
     (if c = CHR '')'' then CHR ''(''
      else if c = CHR ''>'' then CHR ''<''
      else if c = CHR '']'' then CHR ''[''
      else if c = CHR ''}'' then CHR ''{''
      else CHR 0x00)"

definition tolower_char :: "char \<Rightarrow> char" where
  "tolower_char c = (if isupper c then char_of (code c + 32) else c)"

text \<open>\<^verbatim>\<open>tolower\<close> of a \<^verbatim>\<open>char const*\<close> appends to its result.  The \<^verbatim>\<open>std::string\<close> overload
  writes through \<^verbatim>\<open>result.begin()\<close> of an empty string: undefined unless there is nothing to
  write.\<close>

definition tolower_ptr :: "string \<Rightarrow> string" where
  "tolower_ptr s = map tolower_char s"

definition tolower_string :: "string \<Rightarrow> string option" where
  "tolower_string s = (if s = [] then Some [] else None)"

lemma tolower_no_upper: "c \<in> set (tolower_ptr s) \<Longrightarrow> \<not> isupper c"
  by (auto simp: tolower_ptr_def tolower_char_def isupper_def code_char_of)

text \<open>\<^verbatim>\<open>clear\<close> of a \<^verbatim>\<open>std::stack\<close>: it pops until the stack is empty.\<close>

fun clear_stack :: "'a list \<Rightarrow> 'a list" where
  "clear_stack (x # xs) = clear_stack xs"
| "clear_stack [] = []"

lemma clear_stack_empty [simp]: "clear_stack s = []"
  by (induction s) auto

end
