(* ===== verification/Chsmc_Mangle.thy ===== *)
theory Chsmc_Mangle
  imports Chsmc_Text
begin

text \<open>
  Numbers as text and the mangling of state names: \<^verbatim>\<open>ltoa\<close> and \<^verbatim>\<open>itoa\<close> of
  \<^verbatim>\<open>chsmc/util.cpp\<close>, \<^verbatim>\<open>mangle\<close> and \<^verbatim>\<open>demangle\<close> of \<^verbatim>\<open>chsmc/mangle.cpp\<close>.
  \<^verbatim>\<open>ltoa\<close> writes into one of ten static buffers of twenty bytes; a value whose digits, sign
  and NUL need more is \<open>None\<close>, and so is the negation of the least \<^verbatim>\<open>long\<close>.  The mangled and
  the demangled name are written into one buffer of 256 bytes; a name that does not fit, a
  read beyond the end of the argument and a write before the buffer are \<open>None\<close>.
\<close>

section \<open>Decimal digits\<close>

definition digit_char :: "nat \<Rightarrow> char" where
  "digit_char d = char_of (d + 48)"

definition digit_value :: "char \<Rightarrow> nat" where
  "digit_value c = code c - 48"

text \<open>The \<^verbatim>\<open>do\<close> loop of \<^verbatim>\<open>ltoa\<close> generates the digits in reverse.\<close>

function rev_digits :: "nat \<Rightarrow> string" where
  "rev_digits n = digit_char (n mod 10) # (if n div 10 = 0 then [] else rev_digits (n div 10))"
  by auto
termination by (relation "measure id") auto

declare rev_digits.simps [simp del]

definition ltoa_text :: "int \<Rightarrow> string option" where
  "ltoa_text n = (let is_neg = (n < 0) in
     if n = - (2 ^ 63) then None
     else let s = rev_digits (nat \<bar>n\<bar>) @ (if is_neg then ''-'' else [])
       in if length s + 1 \<le> 20 then Some (rev s) else None)"

text \<open>The function-static buffers and the index of the next one.\<close>

record ltoa_pool =
  bufs :: "string list"
  buf_b :: nat

definition pool_ok :: "ltoa_pool \<Rightarrow> bool" where
  "pool_ok p \<longleftrightarrow> length (bufs p) = 10 \<and> buf_b p < 10"

text \<open>\<^verbatim>\<open>ltoa\<close> returns the buffer it wrote: its index.  \<^verbatim>\<open>itoa\<close> calls it.\<close>

definition ltoa :: "int \<Rightarrow> ltoa_pool \<Rightarrow> (nat \<times> ltoa_pool) option" where
  "ltoa n p = map_option
     (\<lambda>s. (buf_b p, p \<lparr> bufs := (bufs p)[buf_b p := s], buf_b := (buf_b p + 1) mod 10 \<rparr>))
     (ltoa_text n)"

definition itoa :: "int \<Rightarrow> ltoa_pool \<Rightarrow> (nat \<times> ltoa_pool) option" where
  "itoa n p = ltoa n p"

fun ltoa_calls :: "int list \<Rightarrow> ltoa_pool \<Rightarrow> ltoa_pool option" where
  "ltoa_calls [] p = Some p"
| "ltoa_calls (n # ns) p = Option.bind (ltoa n p) (\<lambda>(i, p'). ltoa_calls ns p')"

lemma ltoa_frame:
  assumes "ltoa n p = Some (i, p')" "pool_ok p"
  shows "pool_ok p'" "i = buf_b p" "buf_b p' = (buf_b p + 1) mod 10"
    "\<And>j. j \<noteq> buf_b p \<Longrightarrow> bufs p' ! j = bufs p ! j" "ltoa_text n = Some (bufs p' ! i)"
  using assms by (auto simp: ltoa_def pool_ok_def)

lemma ltoa_calls_frame:
  assumes "ltoa_calls ns p = Some p'" "pool_ok p" "i < 10"
    "\<forall>k < length ns. i \<noteq> (buf_b p + k) mod 10"
  shows "bufs p' ! i = bufs p ! i"
  using assms
proof (induction ns arbitrary: p)
  case (Cons n ns)
  from Cons.prems(1) obtain j q where q: "ltoa n p = Some (j, q)" "ltoa_calls ns q = Some p'"
    by (auto simp: bind_eq_Some_conv)
  note f = ltoa_frame [OF q(1) Cons.prems(2)]
  have "buf_b p < 10"
    using Cons.prems(2) by (simp add: pool_ok_def)
  then have ni: "i \<noteq> buf_b p"
    using Cons.prems(4) by force
  have "(buf_b q + k) mod 10 = (buf_b p + Suc k) mod 10" for k
    unfolding f(3) mod_add_left_eq by simp
  then have "i \<noteq> (buf_b q + k) mod 10" if "k < length ns" for k
    using Cons.prems(4) [rule_format, of "Suc k"] that by simp
  then show ?case
    using Cons.IH [OF q(2) f(1) Cons.prems(3)] f(4) [OF ni] by simp
qed simp

text \<open>The header's note: a returned string stays valid for the next nine calls.\<close>

lemma ltoa_stable:
  assumes "ltoa n p = Some (i, p1)" "ltoa_calls ns p1 = Some p2" "pool_ok p" "length ns < 10"
  shows "ltoa_text n = Some (bufs p2 ! i)"
proof -
  note f = ltoa_frame [OF assms(1,3)]
  have b: "buf_b p < 10"
    using assms(3) by (simp add: pool_ok_def)
  have "i \<noteq> (buf_b p1 + k) mod 10" if "k < length ns" for k
  proof -
    have "(buf_b p1 + k) mod 10 = (buf_b p + Suc k) mod 10"
      unfolding f(3) mod_add_left_eq by simp
    moreover have "(buf_b p + Suc k) mod 10 \<noteq> buf_b p"
      using b assms(4) that by (cases "buf_b p + Suc k < 10") (auto simp: mod_if)
    ultimately show ?thesis
      by (simp add: f(2))
  qed
  then have "bufs p2 ! i = bufs p1 ! i"
    using ltoa_calls_frame [OF assms(2) f(1)] b f(2) by blast
  with f(5) show ?thesis by simp
qed

section \<open>Reading a number\<close>

text \<open>\<^verbatim>\<open>atoi\<close> of the C library: white space, an optional sign, digits.\<close>

definition digits_value :: "string \<Rightarrow> nat" where
  "digits_value ds = foldl (\<lambda>v c. 10 * v + digit_value c) 0 ds"

definition atoi :: "string \<Rightarrow> int" where
  "atoi s = (case dropWhile isspace s of
     [] \<Rightarrow> 0
   | c # cs \<Rightarrow>
       (if c = CHR ''-'' then - int (digits_value (takeWhile isdigit cs))
        else if c = CHR ''+'' then int (digits_value (takeWhile isdigit cs))
        else int (digits_value (takeWhile isdigit (c # cs)))))"

lemma digit_char_simps [simp]:
  assumes "d < 10"
  shows "digit_value (digit_char d) = d" "isdigit (digit_char d)" "\<not> isspace (digit_char d)"
    "digit_char d \<noteq> CHR ''-''" "digit_char d \<noteq> CHR ''+''" "digit_char d \<noteq> CHR ''.''"
proof -
  have c: "code (digit_char d) = d + 48"
    using assms by (simp add: digit_char_def code_char_of)
  then show "digit_value (digit_char d) = d" "isdigit (digit_char d)" "\<not> isspace (digit_char d)"
    using assms by (simp_all add: digit_value_def char_class)
  show "digit_char d \<noteq> CHR ''-''" "digit_char d \<noteq> CHR ''+''" "digit_char d \<noteq> CHR ''.''"
    using c by (auto simp: code_def dest!: arg_cong [of _ _ code])
qed

lemma rev_digits_digits: "c \<in> set (rev_digits n) \<Longrightarrow> \<exists>d < 10. c = digit_char d"
proof (induction n rule: rev_digits.induct)
  case (1 n)
  from "1.prems" have "c = digit_char (n mod 10) \<or> n div 10 \<noteq> 0 \<and> c \<in> set (rev_digits (n div 10))"
    by (subst (asm) rev_digits.simps) (auto split: if_splits)
  then show ?case
    using "1.IH" by (metis mod_less_divisor zero_less_numeral)
qed

lemma digits_value_rev_digits: "digits_value (rev (rev_digits n)) = n"
proof (induction n rule: rev_digits.induct)
  case (1 n)
  show ?case
    using "1.IH" by (subst rev_digits.simps) (auto simp: digits_value_def)
qed

lemma rev_digits_not_Nil [simp]: "rev_digits n \<noteq> []"
  by (subst rev_digits.simps) simp

lemma length_rev_digits: "length (rev_digits n) \<le> k \<longleftrightarrow> (if k = 0 then False else n < 10 ^ k)"
proof (induction k arbitrary: n)
  case (Suc k)
  have "length (rev_digits n) \<le> Suc k \<longleftrightarrow> n div 10 = 0 \<or> length (rev_digits (n div 10)) \<le> k"
    by (subst rev_digits.simps) simp
  also have "\<dots> \<longleftrightarrow> n div 10 < 10 ^ k"
    using Suc [of "n div 10"] by (cases "n div 10 = 0") auto
  also have "\<dots> \<longleftrightarrow> n < 10 ^ Suc k"
    by (simp add: div_less_iff_less_mult mult.commute)
  finally show ?case by simp
qed simp

text \<open>The decimal text of a number.\<close>

definition decimal :: "nat \<Rightarrow> string" where
  "decimal n = rev (rev_digits n)"

lemma decimal_facts [simp]:
  "digits_value (decimal n) = n" "decimal n \<noteq> []"
  by (simp_all add: decimal_def digits_value_rev_digits)

lemma decimal_chars:
  assumes "c \<in> set (decimal n)"
  shows "isdigit c" "\<not> isspace c" "c \<noteq> CHR ''-''" "c \<noteq> CHR ''+''" "c \<noteq> CHR ''.''"
  using rev_digits_digits [of c n] assms by (auto simp: decimal_def)

lemma length_decimal: "length (decimal n) \<le> k \<longleftrightarrow> (if k = 0 then False else n < 10 ^ k)"
  by (simp add: decimal_def length_rev_digits)

lemma takeWhile_decimal:
  assumes "rest = [] \<or> \<not> isdigit (hd rest)"
  shows "takeWhile isdigit (decimal n @ rest) = decimal n"
proof -
  have "takeWhile isdigit rest = []"
    using assms by (cases rest) auto
  then show ?thesis
    using decimal_chars(1) [of _ n] by (simp add: takeWhile_append2)
qed

lemma atoi_decimal:
  assumes "rest = [] \<or> \<not> isdigit (hd rest)"
  shows "atoi (decimal n @ rest) = int n"
proof -
  obtain c cs where c: "decimal n = c # cs"
    by (cases "decimal n") auto
  then have "c \<in> set (decimal n)" by simp
  note dc = decimal_chars [OF this]
  show ?thesis
    using takeWhile_decimal [OF assms, of n] dc
    by (simp add: atoi_def c) (metis c decimal_facts(1))
qed

lemma not_space_minus: "\<not> isspace CHR ''-''"
  by code_simp

lemma atoi_Nil [simp]: "atoi [] = 0"
  by (simp add: atoi_def)

lemma ltoa_text_nonneg:
  "ltoa_text (int n) = (if n < 10 ^ 19 then Some (decimal n) else None)"
  using length_rev_digits [of n 19] by (auto simp: ltoa_text_def decimal_def Let_def)

lemma ltoa_text_neg:
  assumes "n \<noteq> 0"
  shows "ltoa_text (- int n) = (if n < 10 ^ 18 then Some (CHR ''-'' # decimal n) else None)"
  using length_rev_digits [of n 18] assms by (auto simp: ltoa_text_def decimal_def Let_def)

text \<open>\<^verbatim>\<open>ltoa\<close> is "the opposite of atol" where its buffer suffices.\<close>

lemma atoi_ltoa:
  assumes "- (10 ^ 18) < n" "n < 10 ^ 19"
  obtains s where "ltoa_text n = Some s" "atoi s = n"
proof (cases "n < 0")
  case True
  define m where "m = nat (- n)"
  with True have m: "n = - int m" "m \<noteq> 0" by simp_all
  have "takeWhile isdigit (decimal m) = decimal m"
    using takeWhile_decimal [of "[]" m] by (simp del: takeWhile_eq_all_conv)
  then have "atoi (CHR ''-'' # decimal m) = - int m"
    by (simp add: atoi_def not_space_minus del: takeWhile_eq_all_conv)
  moreover have "m < 10 ^ 18"
    using assms(1) by (simp add: m(1))
  ultimately show ?thesis
    using that m by (simp add: ltoa_text_neg)
next
  case False
  define m where "m = nat n"
  with False have m: "n = int m" by simp
  have "m < 10 ^ 19"
    using assms(2) by (simp add: m)
  then show ?thesis
    using that atoi_decimal [of "[]" m] by (simp add: m ltoa_text_nonneg)
qed

section \<open>Mangling\<close>

lemma rest_shorter:
  "dropWhile P s \<noteq> [] \<Longrightarrow> length (tl (dropWhile P s)) < length s"
  using length_dropWhile_le [of P s] by (cases s) auto

text \<open>The \<^verbatim>\<open>do\<close> loop of \<^verbatim>\<open>mangle\<close>: the length of the name before the next dot, of which
  at most two digits survive, then the name.\<close>

function mangle_loop :: "string \<Rightarrow> string \<Rightarrow> string option" where
  "mangle_loop inp out = (let name = takeWhile (\<lambda>c. c \<noteq> CHR ''.'') inp;
       dot = dropWhile (\<lambda>c. c \<noteq> CHR ''.'') inp; len = length name
     in case ltoa_text (int len) of
          None \<Rightarrow> None
        | Some digits \<Rightarrow>
            (let out' = out @ take (1 + (if len > 9 then 1 else 0)) digits @ name
             in if dot = [] then Some out' else mangle_loop (tl dot) out'))"
  by auto
termination
  by (relation "measure (\<lambda>(inp, out). length inp)") (simp_all add: rest_shorter del: length_tl)

declare mangle_loop.simps [simp del]

definition mangle :: "string \<Rightarrow> string option" where
  "mangle s = (case mangle_loop s ''M'' of
     None \<Rightarrow> None
   | Some out \<Rightarrow> (if length out + 1 \<le> 256 then Some out else None))"

function demangle_loop :: "string \<Rightarrow> string \<Rightarrow> string option" where
  "demangle_loop inp out = (let len = atoi inp in
     if len = 0 then Some out
     else if len < 0 then None
     else let inp' = drop (1 + (if len > 9 then 1 else 0)) inp
       in if length inp' < nat len then None
          else demangle_loop (drop (nat len) inp') (out @ take (nat len) inp' @ ''.''))"
  by auto
termination
proof (relation "measure (\<lambda>(inp, out). length inp)")
  fix inp out :: string and len inp'
  assume "len = atoi inp" "len \<noteq> 0" and inp': "inp' = drop (1 + (if len > 9 then 1 else 0)) inp"
  then have "inp \<noteq> []" by auto
  then show "((drop (nat len) inp', out @ take (nat len) inp' @ ''.''), inp, out)
      \<in> measure (\<lambda>(inp, out). length inp)"
    by (simp add: inp')
qed simp

declare demangle_loop.simps [simp del]

definition demangle :: "string \<Rightarrow> string option" where
  "demangle s = (if s = [] then None
     else let inp = tl s in
       if inp = [] \<or> \<not> isdigit (hd inp) then Some s
       else case demangle_loop inp [] of
           None \<Rightarrow> None
         | Some out \<Rightarrow> (if out = [] \<or> length out > 256 then None else Some (butlast out)))"

text \<open>The dotted components of a state name.\<close>

function components :: "string \<Rightarrow> string list" where
  "components s = takeWhile (\<lambda>c. c \<noteq> CHR ''.'') s #
     (let dot = dropWhile (\<lambda>c. c \<noteq> CHR ''.'') s in if dot = [] then [] else components (tl dot))"
  by auto
termination
  by (relation "measure length") (simp_all add: rest_shorter del: length_tl)

declare components.simps [simp del]

text \<open>What the lexer accepts as a state name, its components at most 99 characters long.\<close>

definition plain_component :: "string \<Rightarrow> bool" where
  "plain_component c \<longleftrightarrow> c \<noteq> [] \<and> length c \<le> 99 \<and> \<not> isdigit (hd c)"

definition state_name :: "string \<Rightarrow> bool" where
  "state_name s \<longleftrightarrow> (\<forall>c \<in> set (components s). plain_component c)"

lemma take_decimal:
  assumes "0 < n" "n \<le> 99"
  shows "take (Suc (if n > 9 then 1 else 0)) (decimal n) = decimal n"
    "length (decimal n) = Suc (if n > 9 then 1 else 0)"
proof -
  have "length (decimal n) \<le> 1 \<longleftrightarrow> n < 10" "length (decimal n) \<le> 2"
    using length_decimal [of n 1] length_decimal [of n 2] assms by simp_all
  moreover have "length (decimal n) > 0" by simp
  ultimately show "length (decimal n) = Suc (if n > 9 then 1 else 0)"
    unfolding if_distrib [of Suc] by (cases "9 < n"; simp only: if_True if_False; linarith)
  then show "take (Suc (if n > 9 then 1 else 0)) (decimal n) = decimal n" by simp
qed

text \<open>Reading back one component.\<close>

lemma demangle_component:
  assumes "plain_component name"
  shows "demangle_loop (decimal (length name) @ name @ rest) out
    = demangle_loop rest (out @ name @ ''.'')"
proof -
  let ?n = "length name"
  have n: "0 < ?n" "?n \<le> 99" "name @ rest \<noteq> []" "\<not> isdigit (hd (name @ rest))"
    using assms by (auto simp: plain_component_def)
  have "atoi (decimal ?n @ name @ rest) = int ?n"
    by (rule atoi_decimal) (use n in simp)
  then show ?thesis
    using take_decimal(2) [OF n(1,2)] n(1) by (subst demangle_loop.simps) (simp add: Let_def)
qed

lemma mangle_loop_step:
  assumes "plain_component (takeWhile (\<lambda>c. c \<noteq> CHR ''.'') inp)"
  shows "mangle_loop inp out = (let name = takeWhile (\<lambda>c. c \<noteq> CHR ''.'') inp;
      dot = dropWhile (\<lambda>c. c \<noteq> CHR ''.'') inp; out' = out @ decimal (length name) @ name
    in if dot = [] then Some out' else mangle_loop (tl dot) out')"
proof -
  let ?n = "length (takeWhile (\<lambda>c. c \<noteq> CHR ''.'') inp)"
  have n: "0 < ?n" "?n \<le> 99"
    using assms by (auto simp: plain_component_def)
  then have "ltoa_text (int ?n) = Some (decimal ?n)"
    by (simp add: ltoa_text_nonneg)
  then show ?thesis
    using take_decimal(1) [OF n] by (subst mangle_loop.simps) (simp add: Let_def)
qed

lemma state_name_tl:
  assumes "state_name s"
  shows "plain_component (takeWhile (\<lambda>c. c \<noteq> CHR ''.'') s)"
    "dropWhile (\<lambda>c. c \<noteq> CHR ''.'') s \<noteq> [] \<Longrightarrow> state_name (tl (dropWhile (\<lambda>c. c \<noteq> CHR ''.'') s))"
  using assms by (simp_all add: state_name_def components.simps [of s] Let_def)

lemma dropWhile_dot:
  "dropWhile (\<lambda>c. c \<noteq> CHR ''.'') s \<noteq> [] \<Longrightarrow>
    dropWhile (\<lambda>c. c \<noteq> CHR ''.'') s = CHR ''.'' # tl (dropWhile (\<lambda>c. c \<noteq> CHR ''.'') s)"
  using hd_dropWhile [of "\<lambda>c. c \<noteq> CHR ''.''" s] by (cases "dropWhile (\<lambda>c. c \<noteq> CHR ''.'') s") auto

lemma demangle_mangle_loop:
  assumes "state_name inp"
  shows "\<exists>t. mangle_loop inp out = Some (out @ t)
    \<and> length inp < length t \<and> length t \<le> 2 * length inp + 1
    \<and> t \<noteq> [] \<and> isdigit (hd t) \<and> (\<forall>acc. demangle_loop t acc = Some (acc @ inp @ ''.''))"
  using assms
proof (induction inp out rule: mangle_loop.induct)
  case (1 inp out)
  define name where "name = takeWhile (\<lambda>c. c \<noteq> CHR ''.'') inp"
  define dot where "dot = dropWhile (\<lambda>c. c \<noteq> CHR ''.'') inp"
  let ?d = "decimal (length name)"
  have sp: "inp = name @ dot" by (simp add: name_def dot_def)
  note sn = state_name_tl [OF "1.prems", folded name_def dot_def]
  have len: "0 < length name" "length name \<le> 99"
    using sn(1) by (auto simp: plain_component_def)
  have lt: "ltoa_text (int (length name)) = Some ?d"
    using len by (simp add: ltoa_text_nonneg)
  have hd: "isdigit (hd (?d @ t))" for t
    using decimal_chars(1) [of "hd ?d" "length name"] by simp
  have dl: "length ?d \<le> Suc (length name)" "0 < length ?d"
    using take_decimal(2) [OF len] len by auto
  show ?case
  proof (cases "dot = []")
    case True
    have "demangle_loop (?d @ name) acc = Some (acc @ inp @ ''.'')" for acc
      using demangle_component [OF sn(1), of "[]" acc] True
      by (simp add: sp demangle_loop.simps [of "[]"])
    moreover have "mangle_loop inp out = Some (out @ ?d @ name)"
      using mangle_loop_step [OF sn(1) [unfolded name_def], of out] True
      by (simp add: Let_def name_def dot_def)
    moreover have "length inp < length (?d @ name)" "length (?d @ name) \<le> 2 * length inp + 1"
      using dl by (simp_all add: sp True)
    ultimately show ?thesis
      using hd [of name] by (intro exI [of _ "?d @ name"]) simp
  next
    case False
    have ml: "mangle_loop inp out = mangle_loop (tl dot) (out @ ?d @ name)"
      using mangle_loop_step [OF sn(1) [unfolded name_def], of out] False
      by (auto simp: Let_def name_def dot_def)
    have dot: "dot = CHR ''.'' # tl dot"
      using dropWhile_dot [of inp] False by (simp add: dot_def)
    obtain t where t: "mangle_loop (tl dot) (out @ ?d @ name) = Some ((out @ ?d @ name) @ t)"
        "length (tl dot) < length t" "length t \<le> 2 * length (tl dot) + 1"
        "\<forall>acc. demangle_loop t acc = Some (acc @ tl dot @ ''.'')"
      using "1.IH" [OF name_def dot_def refl lt, of "out @ ?d @ name"] sn(2) [OF False] False
        take_decimal(1) [OF len] by auto
    have "demangle_loop (?d @ name @ t) acc = Some (acc @ inp @ ''.'')" for acc
      using demangle_component [OF sn(1), of t acc] t(4) by (subst sp, subst dot) simp
    moreover have "length (?d @ name @ t) \<le> 2 * length inp + 1"
      using t(3) dl(1) by (subst sp, subst dot) simp
    moreover have "length inp < length (?d @ name @ t)"
      using t(2) dl(2) by (subst sp, subst dot, unfold length_append list.size) linarith
    ultimately show ?thesis
      using hd [of "name @ t"] t(1) by (intro exI [of _ "?d @ name @ t"]) (simp add: ml)
  qed
qed

text \<open>Demangling gives a mangled name back, and every name of at most 126 characters fits.\<close>

lemma demangle_mangle:
  assumes "state_name s"
  shows "mangle s = Some m \<Longrightarrow> demangle m = Some s"
    "length s \<le> 126 \<Longrightarrow> mangle s \<noteq> None"
proof -
  obtain t where t: "mangle_loop s ''M'' = Some (''M'' @ t)" "length s < length t"
      "length t \<le> 2 * length s + 1"
      "t \<noteq> []" "isdigit (hd t)" "demangle_loop t [] = Some (s @ ''.'')"
    using demangle_mangle_loop [OF assms, of "''M''"] by force
  show "demangle m = Some s" if "mangle s = Some m"
    using that t by (auto simp: mangle_def demangle_def Let_def split: if_splits)
  show "length s \<le> 126 \<Longrightarrow> mangle s \<noteq> None"
    using t(1,3) by (simp add: mangle_def)
qed

text \<open>So distinct state names have distinct mangled names.\<close>

lemma mangle_inj:
  assumes "state_name s" "state_name s'" "mangle s = Some m" "mangle s' = Some m"
  shows "s = s'"
  using demangle_mangle(1) [OF assms(1,3)] demangle_mangle(1) [OF assms(2,4)] by simp

text \<open>A component of 100 characters or more loses its third digit, and the name does not
  come back.\<close>

lemma mangle_long_component:
  "mangle (replicate 100 CHR ''x'') = Some (''M10'' @ replicate 100 CHR ''x'')"
  by code_simp

end
