(* ===== verification/Chsmc_Symbols.thy ===== *)
theory Chsmc_Symbols
  imports Chsmc_Mangle
begin

text \<open>
  The symbol table of the compiler: \<^verbatim>\<open>synfo\<close>, \<^verbatim>\<open>symbol\<close> and \<^verbatim>\<open>symbol_table\<close>
  (\<^verbatim>\<open>chsmc/symbol.h\<close>, \<^verbatim>\<open>symbol.cpp\<close>) and the information the compiler hangs off its
  symbols, the \<^verbatim>\<open>*_info\<close> classes.  A symbol of the table is identified by its name, so a
  \<^verbatim>\<open>symbol*\<close> is that name; the class hierarchy of \<^verbatim>\<open>base_info\<close> is one datatype, its
  shared members records.  The table is a list of entries in the iteration order of the
  \<^verbatim>\<open>unordered_map\<close>; nothing proved depends on that order.  Scope levels are \<^verbatim>\<open>unsigned\<close>
  and count nested braces, so that they are naturals here.
\<close>

unbundle bit_operations_syntax

section \<open>The information of a symbol\<close>

type_synonym sym = string
type_synonym scope_type = nat

definition SCOPE_NONE :: scope_type where "SCOPE_NONE = 0"
definition SCOPE_GLOBAL :: scope_type where "SCOPE_GLOBAL = 1"

record fn_param =
  fp_line_no :: nat
  fp_decl :: string
  fp_name :: string

record state_info =
  st_parent :: "sym option"
  st_derived :: string
  st_serial :: nat
  st_event_enter :: bool
  st_event_exit :: bool
  st_action_enter :: bool
  st_action_exit :: bool

datatype event_kind = KIND_USER | KIND_ENTER | KIND_EXIT

record event_info =
  ev_kind :: event_kind
  ev_transition_ids :: "int list"
  ev_state :: "sym option"

datatype precondition = PRECONDITION_NONE | PRECONDITION_EXPR | PRECONDITION_FUNC

record user_event_info =
  ue_params :: "fn_param list"
  ue_base :: "sym option"
  ue_precondition :: precondition

record transition_info =
  ti_from :: sym
  ti_to :: "sym option"
  ti_condition_id :: nat
  ti_target_id :: nat
  ti_action_id :: nat
  ti_first_ref :: nat

record chsm_info =
  ch_root :: sym
  ch_derived :: string
  ch_java_public :: bool
  ch_params :: "fn_param list"
  ch_condition_id :: nat
  ch_target_id :: nat
  ch_action_id :: nat
  ch_states :: "sym list"
  ch_events :: "sym list"
  ch_transitions :: "transition_info list"

datatype info =
    Child_info sym bool
  | Chsm_info chsm_info
  | Global_info
  | State_info state_info
  | Cluster_info state_info "sym list" bool
  | Set_info state_info "sym list"
  | Enex_event_info event_info
  | User_event_info event_info user_event_info

record synfo =
  si_symbol :: "sym option"
  si_scope :: scope_type
  si_first_ref :: nat
  si_used :: bool
  si_info :: info

record symbol =
  sy_name :: string
  sy_infos :: "synfo list"

type_synonym entries = "(sym \<times> symbol) list"

record symbol_table =
  tb_entries :: entries
  tb_scope :: scope_type

text \<open>\<^verbatim>\<open>base_info\<close>, \<^verbatim>\<open>global_info\<close> and \<^verbatim>\<open>child_info\<close> choose the scope of a new info.\<close>

definition base_info_ctor :: "nat \<Rightarrow> scope_type \<Rightarrow> info \<Rightarrow> synfo" where
  "base_info_ctor line scope i =
     \<lparr> si_symbol = None, si_scope = scope, si_first_ref = line, si_used = False, si_info = i \<rparr>"

definition global_info_ctor :: "nat \<Rightarrow> info \<Rightarrow> synfo" where
  "global_info_ctor line i = base_info_ctor line SCOPE_GLOBAL i"

definition child_info_ctor :: "nat \<Rightarrow> scope_type \<Rightarrow> sym \<Rightarrow> synfo" where
  "child_info_ctor line current_scope parent =
     base_info_ctor line (current_scope + 1) (Child_info parent False)"

definition text_or_empty :: "string option \<Rightarrow> string" where
  "text_or_empty s = (case s of Some t \<Rightarrow> t | None \<Rightarrow> [])"

definition state_info_ctor :: "sym option \<Rightarrow> string option \<Rightarrow> nat \<Rightarrow> state_info" where
  "state_info_ctor parent derived serial = \<lparr> st_parent = parent, st_derived = text_or_empty derived,
     st_serial = serial, st_event_enter = False, st_event_exit = False,
     st_action_enter = False, st_action_exit = False \<rparr>"

definition event_info_ctor :: "event_kind \<Rightarrow> sym option \<Rightarrow> event_info" where
  "event_info_ctor k s = \<lparr> ev_kind = k, ev_transition_ids = [], ev_state = s \<rparr>"

definition user_event_info_ctor :: "sym option \<Rightarrow> info" where
  "user_event_info_ctor base = User_event_info (event_info_ctor KIND_USER None)
     \<lparr> ue_params = [], ue_base = base, ue_precondition = PRECONDITION_NONE \<rparr>"

definition chsm_info_ctor :: "sym \<Rightarrow> string option \<Rightarrow> bool \<Rightarrow> chsm_info" where
  "chsm_info_ctor root derived java_public = \<lparr> ch_root = root, ch_derived = text_or_empty derived,
     ch_java_public = java_public, ch_params = [], ch_condition_id = 0, ch_target_id = 0,
     ch_action_id = 0, ch_states = [], ch_events = [], ch_transitions = [] \<rparr>"

definition transition_info_ctor ::
    "nat \<Rightarrow> nat \<Rightarrow> sym \<Rightarrow> sym option \<Rightarrow> nat \<Rightarrow> nat \<Rightarrow> transition_info" where
  "transition_info_ctor line cid from to tid aid = \<lparr> ti_from = from, ti_to = to,
     ti_condition_id = cid, ti_target_id = tid, ti_action_id = aid, ti_first_ref = line \<rparr>"

section \<open>Symbols\<close>

definition symbol_ctor :: "string \<Rightarrow> synfo option \<Rightarrow> symbol" where
  "symbol_ctor name si = \<lparr> sy_name = name,
     sy_infos = (case si of None \<Rightarrow> [] | Some s \<Rightarrow> [s \<lparr> si_symbol := Some name \<rparr>]) \<rparr>"

definition in_scope :: "scope_type \<Rightarrow> synfo \<Rightarrow> bool" where
  "in_scope current si \<longleftrightarrow> si_scope si = current"

text \<open>The loop of \<^verbatim>\<open>insert_info\<close> stops at the first info whose scope is not greater.\<close>

fun insert_loop :: "synfo \<Rightarrow> synfo list \<Rightarrow> synfo list" where
  "insert_loop new_si [] = [new_si]"
| "insert_loop new_si (i # is) =
     (if si_scope new_si \<ge> si_scope i then new_si # i # is else i # insert_loop new_si is)"

definition insert_info :: "synfo \<Rightarrow> symbol \<Rightarrow> symbol" where
  "insert_info new_si sy = (let s = new_si \<lparr> si_symbol := Some (sy_name sy) \<rparr>
     in if sy_infos sy = [] then sy \<lparr> sy_infos := [s] \<rparr>
        else sy \<lparr> sy_infos := insert_loop s (sy_infos sy) \<rparr>)"

text \<open>\<^verbatim>\<open>ith_info\<close> counts the infos of the symbol, not the levels of scope between them.\<close>

fun ith_info_loop :: "nat \<Rightarrow> nat \<Rightarrow> synfo list \<Rightarrow> synfo option" where
  "ith_info_loop i j (it # rest) = (if i = j then Some it else ith_info_loop i (j + 1) rest)"
| "ith_info_loop i j [] = None"

definition ith_info :: "nat \<Rightarrow> symbol \<Rightarrow> synfo option" where
  "ith_info i sy = (if i < length (sy_infos sy) then ith_info_loop i 0 (sy_infos sy) else None)"

definition info_of :: "symbol \<Rightarrow> synfo option" where
  "info_of sy = ith_info 0 sy"

definition delete_info :: "symbol \<Rightarrow> symbol" where
  "delete_info sy = sy \<lparr> sy_infos := tl (sy_infos sy) \<rparr>"

definition sym_scope :: "symbol \<Rightarrow> scope_type" where
  "sym_scope sy = (case info_of sy of Some s \<Rightarrow> si_scope s | None \<Rightarrow> SCOPE_NONE)"

definition sym_in_current_scope :: "scope_type \<Rightarrow> symbol \<Rightarrow> bool" where
  "sym_in_current_scope current sy \<longleftrightarrow> sym_scope sy = current"

text \<open>The relational operators compare the names, character by character.\<close>

definition sym_equal :: "symbol \<Rightarrow> symbol \<Rightarrow> bool" where
  "sym_equal s t \<longleftrightarrow> sy_name s = sy_name t"

fun name_less :: "string \<Rightarrow> string \<Rightarrow> bool" where
  "name_less [] t = (t \<noteq> [])"
| "name_less s [] = False"
| "name_less (c # s) (d # t) = (code c < code d \<or> c = d \<and> name_less s t)"

definition sym_less :: "symbol \<Rightarrow> symbol \<Rightarrow> bool" where
  "sym_less s t \<longleftrightarrow> name_less (sy_name s) (sy_name t)"

definition synfo_compare :: "(symbol \<Rightarrow> symbol \<Rightarrow> bool) \<Rightarrow> (sym \<Rightarrow> symbol) \<Rightarrow> synfo \<Rightarrow> synfo \<Rightarrow> bool option" where
  "synfo_compare OP deref s1 s2 = (case (si_symbol s1, si_symbol s2) of
     (Some a, Some b) \<Rightarrow> Some (OP (deref a) (deref b)) | _ \<Rightarrow> None)"

definition synfo_name :: "synfo \<Rightarrow> string option" where
  "synfo_name si = si_symbol si"

lemma name_less_linear:
  "name_less s t \<or> s = t \<or> name_less t s"
  "name_less s t \<Longrightarrow> \<not> name_less t s"
  "name_less s t \<Longrightarrow> name_less t u \<Longrightarrow> name_less s u"
proof -
  show "name_less s t \<or> s = t \<or> name_less t s"
    by (induction s t rule: name_less.induct) (use code_inject in \<open>fastforce simp: neq_iff\<close>)+
  show "name_less s t \<Longrightarrow> \<not> name_less t s"
    by (induction s t rule: name_less.induct) (auto elim: name_less.elims)
  show "name_less s t \<Longrightarrow> name_less t u \<Longrightarrow> name_less s u"
  proof (induction s t arbitrary: u rule: name_less.induct)
    case (3 c s d t)
    then show ?case by (cases u) auto
  qed (auto elim: name_less.elims)
qed

section \<open>Facts about the infos of a symbol\<close>

definition scopes_descend :: "synfo list \<Rightarrow> bool" where
  "scopes_descend is \<longleftrightarrow> sorted_wrt (\<lambda>x y. si_scope x \<ge> si_scope y) is"

lemma ith_info_loop_nth: "ith_info_loop (j + k) j is = (if k < length is then Some (is ! k) else None)"
proof (induction "is" arbitrary: j k)
  case (Cons i "is")
  show ?case
    using Cons [of "j + 1" "k - 1"] by (cases k) simp_all
qed simp

lemma ith_info_nth: "ith_info i sy = (if i < length (sy_infos sy) then Some (sy_infos sy ! i) else None)"
  using ith_info_loop_nth [of 0 i "sy_infos sy"] by (simp add: ith_info_def)

lemma info_of_simps [simp]:
  "info_of sy = (case sy_infos sy of [] \<Rightarrow> None | i # _ \<Rightarrow> Some i)"
  by (simp add: info_of_def ith_info_nth split: list.split)

lemma insert_loop_set: "set (insert_loop s is) = insert s (set is)"
  by (induction s "is" rule: insert_loop.induct) auto

lemma insert_loop_split:
  "insert_loop s is = takeWhile (\<lambda>i. si_scope i > si_scope s) is @ s # dropWhile (\<lambda>i. si_scope i > si_scope s) is"
  by (induction s "is" rule: insert_loop.induct) auto

lemma insert_loop_descend: "scopes_descend is \<Longrightarrow> scopes_descend (insert_loop s is)"
  unfolding scopes_descend_def
  by (induction s "is" rule: insert_loop.induct) (auto simp: insert_loop_set)

lemma insert_info_infos:
  "sy_infos (insert_info s sy) = insert_loop (s \<lparr> si_symbol := Some (sy_name sy) \<rparr>) (sy_infos sy)"
  "sy_name (insert_info s sy) = sy_name sy"
  by (simp_all add: insert_info_def Let_def)

lemma insert_info_descend:
  "scopes_descend (sy_infos sy) \<Longrightarrow> scopes_descend (sy_infos (insert_info s sy))"
  by (simp add: insert_info_infos insert_loop_descend)

text \<open>An info at least as deep as all others becomes the one \<^verbatim>\<open>info()\<close> returns.\<close>

lemma insert_info_current:
  assumes "\<forall>i \<in> set (sy_infos sy). si_scope i \<le> si_scope s"
  shows "info_of (insert_info s sy) = Some (s \<lparr> si_symbol := Some (sy_name sy) \<rparr>)"
  using assms by (cases "sy_infos sy") (auto simp: insert_info_infos)

section \<open>The symbol table\<close>

definition find_sym :: "sym \<Rightarrow> symbol_table \<Rightarrow> symbol option" where
  "find_sym n t = map_of (tb_entries t) n"

text \<open>\<^verbatim>\<open>operator[]\<close> emplaces a symbol without info when the key is new.\<close>

definition emplace :: "sym \<Rightarrow> symbol_table \<Rightarrow> symbol_table" where
  "emplace key t = (case find_sym key t of
     Some _ \<Rightarrow> t
   | None \<Rightarrow> t \<lparr> tb_entries := tb_entries t @ [(key, symbol_ctor key None)] \<rparr>)"

definition update_sym :: "sym \<Rightarrow> (symbol \<Rightarrow> symbol) \<Rightarrow> symbol_table \<Rightarrow> symbol_table" where
  "update_sym n f t = t \<lparr> tb_entries := map (\<lambda>(k, s). (k, if k = n then f s else s)) (tb_entries t) \<rparr>"

definition open_scope :: "symbol_table \<Rightarrow> symbol_table" where
  "open_scope t = t \<lparr> tb_scope := tb_scope t + 1 \<rparr>"

fun delete_current :: "scope_type \<Rightarrow> synfo list \<Rightarrow> synfo list" where
  "delete_current current (front # rest) =
     (if in_scope current front then delete_current current rest else front # rest)"
| "delete_current current [] = []"

fun close_loop :: "scope_type \<Rightarrow> entries \<Rightarrow> entries" where
  "close_loop current [] = []"
| "close_loop current ((k, sy) # rest) =
     (let infos = delete_current current (sy_infos sy)
      in if infos = [] then close_loop current rest
         else (k, sy \<lparr> sy_infos := infos \<rparr>) # close_loop current rest)"

definition close_scope :: "symbol_table \<Rightarrow> symbol_table" where
  "close_scope t = (if tb_scope t \<le> 1 then t
     else t \<lparr> tb_entries := close_loop (tb_scope t) (tb_entries t), tb_scope := tb_scope t - 1 \<rparr>)"

definition empty_table :: symbol_table where
  "empty_table = \<lparr> tb_entries = [], tb_scope = 0 \<rparr>"

definition table_ok :: "symbol_table \<Rightarrow> bool" where
  "table_ok t \<longleftrightarrow> distinct (map fst (tb_entries t)) \<and>
     (\<forall>(k, sy) \<in> set (tb_entries t). sy_name sy = k \<and> scopes_descend (sy_infos sy))"

text \<open>No info is deeper than the current scope.\<close>

definition scopes_bounded :: "symbol_table \<Rightarrow> bool" where
  "scopes_bounded t \<longleftrightarrow> (\<forall>(k, sy) \<in> set (tb_entries t). \<forall>i \<in> set (sy_infos sy). si_scope i \<le> tb_scope t)"

lemma table_ok_empty: "table_ok empty_table"
  by (simp add: table_ok_def empty_table_def)

lemma table_ok_open: "table_ok t \<Longrightarrow> table_ok (open_scope t)"
  by (simp add: table_ok_def open_scope_def)

lemma table_ok_emplace: "table_ok t \<Longrightarrow> table_ok (emplace key t)"
  by (auto simp: table_ok_def emplace_def find_sym_def symbol_ctor_def scopes_descend_def
      map_of_eq_None_iff image_iff split: option.splits)

lemma map_fst_update [simp]:
  "map fst (map (\<lambda>(k, s). (k, if k = n then f s else s)) xs) = map fst xs"
  by (induction xs) auto

lemma map_of_update:
  "map_of (map (\<lambda>(k, s). (k, if k = n then f s else s)) xs) m =
    (if m = n then map_option f (map_of xs m) else map_of xs m)"
  by (induction xs) auto

lemma table_ok_update:
  assumes "table_ok t"
    "\<And>sy. sy_name sy = n \<Longrightarrow> scopes_descend (sy_infos sy) \<Longrightarrow>
       sy_name (f sy) = n \<and> scopes_descend (sy_infos (f sy))"
  shows "table_ok (update_sym n f t)"
  using assms by (fastforce simp: table_ok_def update_sym_def comp_def case_prod_beta)

lemma table_ok_insert: "table_ok t \<Longrightarrow> table_ok (update_sym n (insert_info s) t)"
  by (rule table_ok_update) (simp_all add: insert_info_infos insert_loop_descend)

lemma table_ok_delete: "table_ok t \<Longrightarrow> table_ok (update_sym n delete_info t)"
  by (rule table_ok_update)
    (auto simp: delete_info_def scopes_descend_def tl_def split: list.split)

lemma find_sym_emplace:
  "find_sym n (emplace key t) = (if n = key \<and> find_sym n t = None then Some (symbol_ctor key None)
    else find_sym n t)"
  by (auto simp: emplace_def find_sym_def map_add_def split: option.splits)

lemma find_sym_update:
  "find_sym m (update_sym n f t) = (if m = n then map_option f (find_sym m t) else find_sym m t)"
  by (simp add: find_sym_def update_sym_def map_of_update)

lemma delete_current_drop: "delete_current c is = dropWhile (in_scope c) is"
  by (induction c "is" rule: delete_current.induct) auto

text \<open>Within the bounds of the current scope exactly the infos of the closed scope go.\<close>

lemma delete_current_filter:
  assumes "scopes_descend is" "\<forall>i \<in> set is. si_scope i \<le> c"
  shows "delete_current c is = filter (\<lambda>i. si_scope i < c) is"
  using assms
proof (induction "is")
  case (Cons i "is")
  show ?case
  proof (cases "si_scope i = c")
    case False
    then have "si_scope i < c" using Cons.prems by auto
    then have "\<forall>j \<in> set is. si_scope j < c"
      using Cons.prems(1) by (auto simp: scopes_descend_def)
    then show ?thesis
      using \<open>si_scope i < c\<close> by (simp add: in_scope_def)
  qed (use Cons in \<open>auto simp: in_scope_def scopes_descend_def\<close>)
qed simp

lemma map_of_close_loop:
  assumes "distinct (map fst es)"
  shows "map_of (close_loop c es) n = (case map_of es n of
      None \<Rightarrow> None
    | Some sy \<Rightarrow> (let infos = delete_current c (sy_infos sy)
        in if infos = [] then None else Some (sy \<lparr> sy_infos := infos \<rparr>)))"
  using assms
proof (induction es)
  case (Cons e es)
  obtain k sy where e: "e = (k, sy)" by force
  have "map_of es k = None"
    using Cons.prems by (auto simp: e map_of_eq_None_iff)
  then show ?case
    using Cons by (auto simp: e Let_def)
qed simp

lemma set_close_loop:
  "set (close_loop c es) = {(k, sy \<lparr> sy_infos := delete_current c (sy_infos sy) \<rparr>) | k sy.
     (k, sy) \<in> set es \<and> delete_current c (sy_infos sy) \<noteq> []}"
  by (induction es) (auto simp: Let_def split: if_splits)

lemma distinct_close_loop: "distinct (map fst es) \<Longrightarrow> distinct (map fst (close_loop c es))"
proof (induction es)
  case (Cons e es)
  have "fst ` set (close_loop c es) \<subseteq> fst ` set es"
    by (force simp: set_close_loop)
  then show ?case
    using Cons by (cases e) (auto simp: Let_def)
qed simp

lemma table_ok_close: "table_ok t \<Longrightarrow> table_ok (close_scope t)"
  by (auto simp: table_ok_def close_scope_def distinct_close_loop set_close_loop
      delete_current_drop scopes_descend_def sorted_wrt_dropWhile)

lemma find_sym_close:
  assumes "table_ok t" "scopes_bounded t" "1 < tb_scope t"
  shows "find_sym n (close_scope t) = (case find_sym n t of
      None \<Rightarrow> None
    | Some sy \<Rightarrow> (let kept = filter (\<lambda>i. si_scope i < tb_scope t) (sy_infos sy)
        in if kept = [] then None else Some (sy \<lparr> sy_infos := kept \<rparr>)))"
proof -
  have "delete_current (tb_scope t) (sy_infos sy) = filter (\<lambda>i. si_scope i < tb_scope t) (sy_infos sy)"
    if "map_of (tb_entries t) n = Some sy" for sy
    using assms(1,2) map_of_SomeD [OF that]
    by (intro delete_current_filter) (auto simp: table_ok_def scopes_bounded_def)
  then show ?thesis
    using assms by (auto simp: find_sym_def close_scope_def map_of_close_loop table_ok_def Let_def
        split: option.split)
qed

lemma scopes_bounded_close: "table_ok t \<Longrightarrow> scopes_bounded t \<Longrightarrow> 1 < tb_scope t \<Longrightarrow> scopes_bounded (close_scope t)"
  by (fastforce simp: scopes_bounded_def close_scope_def set_close_loop table_ok_def
      delete_current_filter)

lemma scope_positive: "1 \<le> tb_scope t \<Longrightarrow> 1 \<le> tb_scope (close_scope t)"
  by (simp add: close_scope_def) linarith

text \<open>Opening a scope, declaring in it and closing it gives the table back.\<close>

lemma close_open:
  assumes "table_ok t" "scopes_bounded t" "1 \<le> tb_scope t"
    "\<forall>(k, sy) \<in> set (tb_entries t). sy_infos sy \<noteq> []"
  shows "close_scope (open_scope t) = t"
proof -
  have "close_loop (tb_scope t + 1) es = es"
    if "\<forall>(k, sy) \<in> set es. sy_infos sy \<noteq> [] \<and> (\<forall>i \<in> set (sy_infos sy). si_scope i \<le> tb_scope t)" for es
    using that
  proof (induction es)
    case (Cons e es)
    obtain k sy where e: "e = (k, sy)" by force
    have "delete_current (tb_scope t + 1) (sy_infos sy) = sy_infos sy"
      using Cons.prems by (cases "sy_infos sy") (auto simp: e in_scope_def)
    then show ?case
      using Cons by (auto simp: e Let_def)
  qed simp
  then have "close_loop (tb_scope t + 1) (tb_entries t) = tb_entries t"
    using assms(2,4) by (fastforce simp: scopes_bounded_def)
  then show ?thesis
    using assms(3) by (simp add: close_scope_def open_scope_def)
qed

end
