(* ===== verification/Chsmc_Compiler.thy ===== *)
theory Chsmc_Compiler
  imports Chsmc_Symbols
begin

text \<open>
  The checks the compiler makes on its symbols: the types of symbols and their names
  (\<^verbatim>\<open>chsmc/base_info.h\<close>, \<^verbatim>\<open>xxx_info.cpp\<close>, \<^verbatim>\<open>compiler_util.cpp\<close>), the counters of
  errors and warnings of the source file (\<^verbatim>\<open>file.cpp\<close>) and the checks and the
  back-patching at the end of a description (\<^verbatim>\<open>chsm_compiler.cpp\<close>).  What the compiler
  writes to \<^verbatim>\<open>cerr\<close> is part of the state.  A null dereference or a buffer overflow is
  \<open>Inl Crash\<close>, a call of \<^verbatim>\<open>exit\<close> is \<open>Inl (Exit n)\<close>.
\<close>

datatype stop = Crash | Exit nat

text \<open>The status of \<^verbatim>\<open>sysexits.h\<close> for an internal error.\<close>

definition EX_SOFTWARE :: nat where "EX_SOFTWARE = 70"

section \<open>Types of symbols\<close>

type_synonym symbol_type = "32 word"

definition T_NONE :: symbol_type where "T_NONE = 0x0000"
definition T_UNDECLARED :: symbol_type where "T_UNDECLARED = 0x0001"
definition T_GLOBAL :: symbol_type where "T_GLOBAL = 0x0002"
definition T_CHSM :: symbol_type where "T_CHSM = 0x0004"
definition T_CHILD :: symbol_type where "T_CHILD = 0x0008"
definition T_STATE :: symbol_type where "T_STATE = 0x0010"
definition T_CLUSTER :: symbol_type where "T_CLUSTER = 0x0020"
definition T_SET :: symbol_type where "T_SET = 0x0040"
definition T_PARENT :: symbol_type where "T_PARENT = T_CLUSTER OR T_SET"
definition T_ENEX_EVENT :: symbol_type where "T_ENEX_EVENT = 0x0100"
definition T_USER_EVENT :: symbol_type where "T_USER_EVENT = 0x0200"
definition T_EVENT :: symbol_type where "T_EVENT = T_ENEX_EVENT OR T_USER_EVENT"
definition T_TRANSITION :: symbol_type where "T_TRANSITION = 0x0400"

lemmas type_defs = T_NONE_def T_UNDECLARED_def T_GLOBAL_def T_CHSM_def T_CHILD_def T_STATE_def
  T_CLUSTER_def T_SET_def T_PARENT_def T_ENEX_EVENT_def T_USER_EVENT_def T_EVENT_def
  T_TRANSITION_def

text \<open>The \<^verbatim>\<open>type()\<close> of each class, as \<^verbatim>\<open>CHSM_DEFINE_RTTI\<close> defines it.  Transitions are
  not symbols of the table.\<close>

fun info_type :: "info \<Rightarrow> symbol_type" where
  "info_type (Child_info _ _) = T_CHILD"
| "info_type (Chsm_info _) = T_CHSM"
| "info_type Global_info = T_GLOBAL"
| "info_type (State_info _) = T_STATE"
| "info_type (Cluster_info _ _ _) = T_CLUSTER"
| "info_type (Set_info _ _) = T_SET"
| "info_type (Enex_event_info _) = T_ENEX_EVENT"
| "info_type (User_event_info _ _) = T_USER_EVENT"

text \<open>\<^verbatim>\<open>INFO(state,sy)\<close> and its kin: a \<^verbatim>\<open>dynamic_cast\<close> of the first info, null when the
  class does not derive from the one asked for.\<close>

fun as_state :: "info \<Rightarrow> state_info option" where
  "as_state (State_info s) = Some s"
| "as_state (Cluster_info s _ _) = Some s"
| "as_state (Set_info s _) = Some s"
| "as_state _ = None"

fun map_state :: "(state_info \<Rightarrow> state_info) \<Rightarrow> info \<Rightarrow> info" where
  "map_state f (State_info s) = State_info (f s)"
| "map_state f (Cluster_info s cs h) = Cluster_info (f s) cs h"
| "map_state f (Set_info s cs) = Set_info (f s) cs"
| "map_state f i = i"

fun as_children :: "info \<Rightarrow> sym list option" where
  "as_children (Cluster_info _ cs _) = Some cs"
| "as_children (Set_info _ cs) = Some cs"
| "as_children _ = None"

fun as_event :: "info \<Rightarrow> event_info option" where
  "as_event (Enex_event_info e) = Some e"
| "as_event (User_event_info e _) = Some e"
| "as_event _ = None"

fun as_user_event :: "info \<Rightarrow> user_event_info option" where
  "as_user_event (User_event_info _ u) = Some u"
| "as_user_event _ = None"

fun as_chsm :: "info \<Rightarrow> chsm_info option" where
  "as_chsm (Chsm_info c) = Some c"
| "as_chsm _ = None"

section \<open>The state of the compiler\<close>

record source_file =
  sf_path :: string
  sf_line_no :: nat
  sf_errors :: nat
  sf_warnings :: nat
  sf_check_only :: bool

record compiler =
  cc_table :: symbol_table
  cc_chsm :: "sym option"
  cc_source :: source_file
  cc_cerr :: string

text \<open>A pointer to a symbol that is not in the table is the parser's dummy symbol, which
  has no info.\<close>

definition deref :: "compiler \<Rightarrow> sym \<Rightarrow> symbol" where
  "deref cc n = (case find_sym n (cc_table cc) of Some s \<Rightarrow> s | None \<Rightarrow> symbol_ctor n None)"

definition info_helper :: "compiler \<Rightarrow> sym option \<Rightarrow> synfo option" where
  "info_helper cc sy = (case sy of None \<Rightarrow> None | Some n \<Rightarrow> info_of (deref cc n))"

definition INFO :: "(info \<Rightarrow> 'a option) \<Rightarrow> compiler \<Rightarrow> sym option \<Rightarrow> 'a option" where
  "INFO as_type cc sy = Option.bind (info_helper cc sy) (\<lambda>si. as_type (si_info si))"

definition CHSM :: "compiler \<Rightarrow> chsm_info option" where
  "CHSM cc = INFO as_chsm cc (cc_chsm cc)"

definition SY_ROOT :: "compiler \<Rightarrow> sym option" where
  "SY_ROOT cc = map_option ch_root (CHSM cc)"

text \<open>Assigning to the first info of a symbol.\<close>

definition set_first :: "(synfo \<Rightarrow> synfo) \<Rightarrow> symbol \<Rightarrow> symbol" where
  "set_first f sy = sy \<lparr> sy_infos := (case sy_infos sy of [] \<Rightarrow> [] | i # is \<Rightarrow> f i # is) \<rparr>"

definition set_info :: "sym \<Rightarrow> (info \<Rightarrow> info) \<Rightarrow> compiler \<Rightarrow> compiler" where
  "set_info n f cc = cc \<lparr> cc_table := update_sym n (set_first (si_info_update f)) (cc_table cc) \<rparr>"

definition sym_type :: "symbol \<Rightarrow> nat \<Rightarrow> symbol_type" where
  "sym_type sy inn = (case ith_info inn sy of
     Some si \<Rightarrow> info_type (si_info si) | None \<Rightarrow> T_NONE)"

definition type_of :: "compiler \<Rightarrow> sym \<Rightarrow> nat \<Rightarrow> symbol_type" where
  "type_of cc sy inn = sym_type (deref cc sy) inn"

section \<open>Names of types\<close>

definition type_name :: "symbol_type \<Rightarrow> string" where
  "type_name b =
     (if b = T_CHILD then ''child''
      else if b = T_CHSM then ''chsm''
      else if b = T_STATE \<or> b = T_GLOBAL then ''state''
      else if b = T_CLUSTER then ''cluster''
      else if b = T_SET then ''set''
      else if b = T_ENEX_EVENT then ''enter/exit-event''
      else if b = T_USER_EVENT then ''event''
      else ''undeclared'')"

text \<open>The loop shifts a bit through all 32 positions.\<close>

fun type_loop :: "symbol_type \<Rightarrow> nat list \<Rightarrow> bool \<Rightarrow> string \<Rightarrow> string" where
  "type_loop types [] append_or buf = buf"
| "type_loop types (k # ks) append_or buf =
     (let b = push_bit k 1 :: symbol_type
      in if types AND b \<noteq> T_NONE
         then type_loop types ks True (buf @ (if append_or then '' or '' else []) @ type_name b)
         else type_loop types ks append_or buf)"

definition type_string :: "symbol_type \<Rightarrow> string option" where
  "type_string types = (let types' = (if types = T_NONE then T_UNDECLARED else types);
       buf = type_loop types' [0..<32] False []
     in if length buf < 256 then Some buf else None)"

text \<open>The bits of the declared types.\<close>

definition declared_types :: symbol_type where
  "declared_types = T_UNDECLARED OR T_GLOBAL OR T_CHSM OR T_CHILD OR T_STATE OR T_PARENT OR T_EVENT
     OR T_TRANSITION"

lemma declared_types_eq: "declared_types = 0x77F"
  by (simp add: declared_types_def type_defs)

lemma type_name_length: "length (type_name b) \<le> 16"
  by (simp add: type_name_def)

lemma type_loop_length:
  "length (type_loop types ks a buf) \<le> length buf + 20 * length (filter (\<lambda>k. types AND push_bit k 1 \<noteq> 0) ks)"
proof (induction ks arbitrary: a buf)
  case (Cons k ks)
  show ?case
    using Cons [of True "buf @ (if a then '' or '' else []) @ type_name (push_bit k 1)"]
      Cons [of a buf] type_name_length [of "push_bit k 1"]
    by (auto simp: Let_def T_NONE_def)
qed simp

lemma undeclared_bits:
  "list_all (\<lambda>k. 0x77F AND push_bit k 1 = (0 :: symbol_type)) (7 # [11..<32])"
  by code_simp

text \<open>\<^verbatim>\<open>type_buf\<close> is large enough for every combination of the declared types.\<close>

lemma type_string_fits:
  assumes "types AND declared_types = types"
  shows "type_string types \<noteq> None"
proof -
  define t where "t = (if types = T_NONE then T_UNDECLARED else types)"
  have t: "t = t AND 0x77F"
    using assms by (simp add: t_def declared_types_eq type_defs)
  have none: "t AND push_bit k 1 = 0" if "k = 7 \<or> 11 \<le> k \<and> k < 32" for k
  proof -
    have "0x77F AND push_bit k 1 = (0 :: symbol_type)"
      using undeclared_bits that by (auto simp: list_all_iff simp del: upt_rec_numeral push_bit_of_1)
    then have "(t AND 0x77F) AND push_bit k 1 = 0"
      by (simp only: and.assoc and_zero_eq)
    with t show ?thesis by simp
  qed
  let ?bits = "filter (\<lambda>k. t AND push_bit k 1 \<noteq> 0) [0..<32]"
  have "set ?bits \<subseteq> {0,1,2,3,4,5,6,8,9,10}"
  proof
    fix k assume "k \<in> set ?bits"
    then have "k < 32" "\<not> (k = 7 \<or> 11 \<le> k \<and> k < 32)"
      using none [of k] by (simp_all add: del: push_bit_of_1) blast+
    then show "k \<in> {0,1,2,3,4,5,6,8,9,10}" by simp presburger
  qed
  then have "card (set ?bits) \<le> card {0,1,2,3,4,5,6,8,9,10 :: nat}"
    by (rule card_mono [rotated]) simp
  moreover have "card (set ?bits) = length ?bits"
    by (rule distinct_card) simp
  ultimately have "length ?bits \<le> 10" by simp
  then have "length (type_loop t [0..<32] False []) \<le> 200"
    using type_loop_length [of t "[0..<32]" False "[]"] by simp
  then show ?thesis
    by (simp add: type_string_def Let_def flip: t_def)
qed

section \<open>Messages\<close>

text \<open>A path inserted into a stream is quoted, its quotes and backslashes escaped.\<close>

definition quoted :: "string \<Rightarrow> string" where
  "quoted p = CHR 0x22 # concat (map (\<lambda>c. if c = CHR 0x22 \<or> c = CHR 0x5C then [CHR 0x5C, c] else [c]) p)
     @ [CHR 0x22]"

definition in_quotes :: "string \<Rightarrow> string" where
  "in_quotes s = CHR 0x22 # s @ [CHR 0x22]"

definition source_init :: "string \<Rightarrow> source_file" where
  "source_init path = \<lparr> sf_path = path, sf_line_no = 1, sf_errors = 0, sf_warnings = 0,
     sf_check_only = False \<rparr>"

definition emit_cerr :: "string \<Rightarrow> compiler \<Rightarrow> compiler" where
  "emit_cerr t cc = cc \<lparr> cc_cerr := cc_cerr cc @ t \<rparr>"

definition complain_at :: "string \<Rightarrow> nat \<Rightarrow> compiler \<Rightarrow> compiler" where
  "complain_at error_type alt_line_no cc = (let src = cc_source cc in
     emit_cerr ((if sf_path src \<noteq> [] then CHR 0x22 # quoted (sf_path src) @ CHR 0x22 # '', '' else [])
       @ ''line '' @ decimal (if alt_line_no > 0 then alt_line_no else sf_line_no src) @ '': ''
       @ error_type @ '': '') cc)"

definition map_source :: "(source_file \<Rightarrow> source_file) \<Rightarrow> compiler \<Rightarrow> compiler" where
  "map_source f cc = cc \<lparr> cc_source := f (cc_source cc) \<rparr>"

definition src_error :: "nat \<Rightarrow> compiler \<Rightarrow> compiler" where
  "src_error alt_no cc = complain_at ''error'' alt_no
     (map_source (\<lambda>s. s \<lparr> sf_errors := sf_errors s + 1, sf_check_only := True \<rparr>) cc)"

definition src_fatal :: "nat \<Rightarrow> compiler \<Rightarrow> compiler" where
  "src_fatal alt_no cc = complain_at ''fatal error'' alt_no
     (map_source (\<lambda>s. s \<lparr> sf_check_only := True \<rparr>) cc)"

definition src_sorry :: "nat \<Rightarrow> compiler \<Rightarrow> compiler" where
  "src_sorry alt_no cc = complain_at ''sorry, not implemented'' alt_no
     (map_source (\<lambda>s. s \<lparr> sf_check_only := True \<rparr>) cc)"

definition src_warning :: "nat \<Rightarrow> compiler \<Rightarrow> compiler" where
  "src_warning alt_no cc = complain_at ''warning'' alt_no
     (map_source (\<lambda>s. s \<lparr> sf_warnings := sf_warnings s + 1 \<rparr>) cc)"

definition check_only :: "compiler \<Rightarrow> compiler" where
  "check_only cc = map_source (\<lambda>s. s \<lparr> sf_check_only := True \<rparr>) cc"

text \<open>The destructor of \<^verbatim>\<open>source_file\<close> reports the counts.\<close>

definition plural :: "nat \<Rightarrow> string \<Rightarrow> string" where
  "plural n what = (if n > 0 then decimal n @ what @ (if n > 1 then ''s'' else []) @ [CHR 0x0A] else [])"

definition source_report :: "compiler \<Rightarrow> compiler" where
  "source_report cc = emit_cerr (plural (sf_errors (cc_source cc)) '' error''
     @ plural (sf_warnings (cc_source cc)) '' warning'') cc"

abbreviation errors :: "compiler \<Rightarrow> nat" where
  "errors cc \<equiv> sf_errors (cc_source cc)"

abbreviation warnings :: "compiler \<Rightarrow> nat" where
  "warnings cc \<equiv> sf_warnings (cc_source cc)"

text \<open>A message leaves the symbols alone and counts itself.\<close>

lemma message_simps [simp]:
  "cc_table (emit_cerr t cc) = cc_table cc" "cc_chsm (emit_cerr t cc) = cc_chsm cc"
  "cc_source (emit_cerr t cc) = cc_source cc"
  "cc_table (src_error n cc) = cc_table cc" "cc_chsm (src_error n cc) = cc_chsm cc"
  "errors (src_error n cc) = errors cc + 1" "warnings (src_error n cc) = warnings cc"
  "cc_table (src_warning n cc) = cc_table cc" "cc_chsm (src_warning n cc) = cc_chsm cc"
  "errors (src_warning n cc) = errors cc" "warnings (src_warning n cc) = warnings cc + 1"
  by (simp_all add: emit_cerr_def src_error_def src_warning_def complain_at_def map_source_def Let_def)

lemma deref_cong: "cc_table cc = cc_table cc' \<Longrightarrow> deref cc = deref cc'"
  by (simp add: deref_def fun_eq_iff)

lemma deref_message [simp]:
  "deref (emit_cerr t cc) = deref cc" "deref (src_error n cc) = deref cc"
  "deref (src_warning n cc) = deref cc"
  by (rule deref_cong; simp)+

lemma type_of_message [simp]:
  "type_of (emit_cerr t cc) = type_of cc" "type_of (src_error n cc) = type_of cc"
  "type_of (src_warning n cc) = type_of cc"
  by (simp_all add: type_of_def fun_eq_iff)

section \<open>Type checks\<close>

datatype type_condition = MAY_EXIST | NO_INFO | MUST_EXIST

text \<open>A type name inserted into \<^verbatim>\<open>cerr\<close>; the buffer always suffices.\<close>

definition type_text :: "symbol_type \<Rightarrow> string" where
  "type_text t = (case type_string t of Some s \<Rightarrow> s | None \<Rightarrow> [])"

definition type_check ::
    "sym \<Rightarrow> symbol_type \<Rightarrow> type_condition \<Rightarrow> string \<Rightarrow> nat \<Rightarrow> compiler \<Rightarrow> bool \<times> compiler" where
  "type_check sy types cond extra inn cc =
     (if ith_info inn (deref cc sy) = None \<and> cond \<noteq> MUST_EXIST then (True, cc)
      else let t = type_of cc sy inn in
        if t AND types = T_NONE
        then (False, emit_cerr (type_text t @ '' '' @ in_quotes sy @ '': '' @ type_text types
                 @ '' expected '' @ extra @ [CHR 0x0A]) (src_error 0 cc))
        else (cond \<noteq> NO_INFO, cc))"

definition not_exists :: "sym \<Rightarrow> symbol_type \<Rightarrow> compiler \<Rightarrow> bool \<times> compiler" where
  "not_exists sy types cc = (let t = type_of cc sy 0 in
     if t \<noteq> T_NONE \<and> (types = T_NONE \<or> t AND types \<noteq> T_NONE)
     then (False, if sy = [] \<or> hd sy \<noteq> CHR ''<''
                  then emit_cerr (in_quotes sy @ '' previously declared/defined as ''
                         @ type_text (type_of cc sy 0) @ [CHR 0x0A]) (src_error 0 cc)
                  else cc)
     else (True, cc))"

text \<open>What the header says of the two.\<close>

lemma type_check_result:
  assumes "type_check sy types cond extra inn cc = (ok, cc')"
  shows "ok \<longleftrightarrow> (case ith_info inn (deref cc sy) of
      None \<Rightarrow> cond \<noteq> MUST_EXIST
    | Some si \<Rightarrow> info_type (si_info si) AND types \<noteq> T_NONE \<and> cond \<noteq> NO_INFO)"
    "cc_table cc' = cc_table cc" "errors cc' \<ge> errors cc"
    "errors cc' = errors cc \<longleftrightarrow> (case ith_info inn (deref cc sy) of
      None \<Rightarrow> cond \<noteq> MUST_EXIST
    | Some si \<Rightarrow> info_type (si_info si) AND types \<noteq> T_NONE)"
  using assms
  by (auto simp: type_check_def type_of_def sym_type_def Let_def T_NONE_def split: option.splits if_splits)

lemma not_exists_result:
  assumes "not_exists sy types cc = (ok, cc')"
  shows "ok \<longleftrightarrow> type_of cc sy 0 = T_NONE \<or> types \<noteq> T_NONE \<and> type_of cc sy 0 AND types = T_NONE"
    "cc_table cc' = cc_table cc" "errors cc' \<ge> errors cc"
    "\<not> ok \<and> (sy = [] \<or> hd sy \<noteq> CHR ''<'') \<longleftrightarrow> errors cc' = errors cc + 1"
    "ok \<Longrightarrow> cc' = cc"
  using assms by (auto simp: not_exists_def Let_def split: if_splits)

section \<open>Printing symbols\<close>

definition synfo_emit :: "synfo \<Rightarrow> string" where
  "synfo_emit si = (case si_symbol si of Some n \<Rightarrow> in_quotes n | None \<Rightarrow> ''(no name)'') @ '' <''
     @ (if si_scope si = SCOPE_NONE then ''none''
        else if si_scope si = SCOPE_GLOBAL then ''global''
        else decimal (si_scope si)) @ ''>''"

definition base_info_emit :: "synfo \<Rightarrow> string" where
  "base_info_emit si = type_text (info_type (si_info si)) @ '' '' @ synfo_emit si"

definition symbol_emit :: "symbol \<Rightarrow> string" where
  "symbol_emit sy = (if sy_infos sy = [] then in_quotes (sy_name sy) @ '' (no info)''
     else concat (map base_info_emit (sy_infos sy)))"

definition table_emit :: "symbol_table \<Rightarrow> string" where
  "table_emit t = concat (map (\<lambda>(_, sy). symbol_emit sy @ [CHR 0x0A]) (tb_entries t))"

end
