(* ===== verification/Chsmc_Checks.thy ===== *)
theory Chsmc_Checks
  imports Chsmc_Compiler
begin

text \<open>
  The passes at the end of a description (\<^verbatim>\<open>chsmc/chsm_compiler.cpp\<close>): undefined child
  states, unused events, undefined states, transitions between the children of a set, and
  the back-patching of enter and exit events.  The lemmas count the messages: a pass
  reports exactly the symbols and transitions its comment in the header names, or, where
  the code reports less, what it reports is characterized.
\<close>

section \<open>Warnings about children and events\<close>

definition undefined_child :: "scope_type \<Rightarrow> symbol \<Rightarrow> bool" where
  "undefined_child current sy \<longleftrightarrow> sym_type sy 0 AND T_CHILD \<noteq> T_NONE \<and> sym_in_current_scope current sy
     \<and> (case info_of sy of Some si \<Rightarrow> (case si_info si of Child_info _ defined \<Rightarrow> \<not> defined | _ \<Rightarrow> False)
        | None \<Rightarrow> False)"

definition first_ref :: "symbol \<Rightarrow> nat" where
  "first_ref sy = (case info_of sy of Some si \<Rightarrow> si_first_ref si | None \<Rightarrow> 0)"

definition child_message :: "sym \<times> symbol \<Rightarrow> compiler \<Rightarrow> compiler" where
  "child_message e cc = (case e of (_, sy) \<Rightarrow>
     if undefined_child (tb_scope (cc_table cc)) sy
     then emit_cerr (type_text (sym_type sy 0) @ '' '' @ in_quotes (sy_name sy) @ '' not defined'' @ [CHR 0x0A])
            (src_warning (first_ref sy) cc)
     else cc)"

definition check_child_states_defined :: "compiler \<Rightarrow> compiler" where
  "check_child_states_defined cc = fold child_message (tb_entries (cc_table cc)) cc"

lemma child_message_simps [simp]:
  "cc_table (child_message e cc) = cc_table cc" "cc_chsm (child_message e cc) = cc_chsm cc"
  "errors (child_message e cc) = errors cc"
  "warnings (child_message e cc)
    = warnings cc + (if undefined_child (tb_scope (cc_table cc)) (snd e) then 1 else 0)"
  by (cases e; simp add: child_message_def)+

lemma check_child_result:
  "cc_table (check_child_states_defined cc) = cc_table cc"
  "errors (check_child_states_defined cc) = errors cc"
  "warnings (check_child_states_defined cc) = warnings cc +
     length (filter (undefined_child (tb_scope (cc_table cc))) (map snd (tb_entries (cc_table cc))))"
proof -
  have *: "cc_table (fold child_message es c) = cc_table c \<and> errors (fold child_message es c) = errors c
      \<and> warnings (fold child_message es c) = warnings c +
        length (filter (undefined_child (tb_scope (cc_table c))) (map snd es))" for es c
    by (induction es arbitrary: c) simp_all
  show "cc_table (check_child_states_defined cc) = cc_table cc"
    "errors (check_child_states_defined cc) = errors cc"
    "warnings (check_child_states_defined cc) = warnings cc +
     length (filter (undefined_child (tb_scope (cc_table cc))) (map snd (tb_entries (cc_table cc))))"
    using * [of "tb_entries (cc_table cc)" cc] by (simp_all add: check_child_states_defined_def)
qed

definition unused_event :: "compiler \<Rightarrow> sym \<Rightarrow> bool" where
  "unused_event cc ev \<longleftrightarrow> type_of cc ev 0 AND T_USER_EVENT \<noteq> T_NONE \<and>
     (case info_of (deref cc ev) of Some si \<Rightarrow> \<not> si_used si | None \<Rightarrow> False)"

definition event_message :: "sym \<Rightarrow> compiler \<Rightarrow> compiler" where
  "event_message ev cc = (if unused_event cc ev
     then emit_cerr (type_text (type_of cc ev 0) @ '' '' @ in_quotes ev @ '' not used'' @ [CHR 0x0A])
            (src_warning (first_ref (deref cc ev)) cc)
     else cc)"

definition check_events_used :: "compiler \<Rightarrow> compiler" where
  "check_events_used cc = (case CHSM cc of None \<Rightarrow> cc | Some c \<Rightarrow> fold event_message (ch_events c) cc)"

lemma event_message_simps [simp]:
  "cc_table (event_message ev cc) = cc_table cc" "cc_chsm (event_message ev cc) = cc_chsm cc"
  "errors (event_message ev cc) = errors cc"
  "warnings (event_message ev cc) = warnings cc + (if unused_event cc ev then 1 else 0)"
  by (simp_all add: event_message_def)

lemma unused_event_cong: "cc_table cc = cc_table cc' \<Longrightarrow> unused_event cc = unused_event cc'"
  by (simp add: unused_event_def type_of_def deref_cong [of cc cc'] fun_eq_iff)

lemma check_events_result:
  assumes "CHSM cc = Some c"
  shows "cc_table (check_events_used cc) = cc_table cc" "errors (check_events_used cc) = errors cc"
    "warnings (check_events_used cc) = warnings cc + length (filter (unused_event cc) (ch_events c))"
proof -
  have *: "cc_table (fold event_message es c) = cc_table c \<and> errors (fold event_message es c) = errors c
      \<and> warnings (fold event_message es c) = warnings c + length (filter (unused_event c) es)" for es c
  proof (induction es arbitrary: c)
    case (Cons e es)
    have "unused_event (event_message e c) = unused_event c"
      by (rule unused_event_cong) simp
    then show ?case using Cons [of "event_message e c"] by simp
  qed simp
  show "cc_table (check_events_used cc) = cc_table cc" "errors (check_events_used cc) = errors cc"
    "warnings (check_events_used cc) = warnings cc + length (filter (unused_event cc) (ch_events c))"
    using * [of "ch_events c" cc] assms by (simp_all add: check_events_used_def)
qed

section \<open>Undefined states\<close>

definition forward_referenced :: "symbol \<Rightarrow> bool" where
  "forward_referenced sy \<longleftrightarrow> sym_type sy 0 AND T_GLOBAL \<noteq> T_NONE"

definition state_message :: "sym \<times> symbol \<Rightarrow> compiler \<Rightarrow> compiler" where
  "state_message e cc = (case e of (_, sy) \<Rightarrow>
     if forward_referenced sy
     then emit_cerr (type_text (sym_type sy 0) @ '' '' @ in_quotes (sy_name sy) @ '' not defined'' @ [CHR 0x0A])
            (src_error (first_ref sy) cc)
     else cc)"

definition check_states_defined :: "compiler \<Rightarrow> compiler" where
  "check_states_defined cc = fold state_message (tb_entries (cc_table cc)) cc"

lemma state_message_simps [simp]:
  "cc_table (state_message e cc) = cc_table cc" "cc_chsm (state_message e cc) = cc_chsm cc"
  "warnings (state_message e cc) = warnings cc"
  "errors (state_message e cc) = errors cc + (if forward_referenced (snd e) then 1 else 0)"
  by (cases e; simp add: state_message_def)+

lemma check_states_result:
  "cc_table (check_states_defined cc) = cc_table cc"
  "cc_chsm (check_states_defined cc) = cc_chsm cc"
  "errors (check_states_defined cc) = errors cc +
     length (filter forward_referenced (map snd (tb_entries (cc_table cc))))"
proof -
  have *: "cc_table (fold state_message es c) = cc_table c \<and> cc_chsm (fold state_message es c) = cc_chsm c
      \<and> errors (fold state_message es c) = errors c + length (filter forward_referenced (map snd es))" for es c
    by (induction es arbitrary: c) simp_all
  show "cc_table (check_states_defined cc) = cc_table cc"
    "cc_chsm (check_states_defined cc) = cc_chsm cc"
    "errors (check_states_defined cc) = errors cc +
     length (filter forward_referenced (map snd (tb_entries (cc_table cc))))"
    using * [of "tb_entries (cc_table cc)" cc] by (simp_all add: check_states_defined_def)
qed

lemma info_type_global: "info_type i AND T_GLOBAL \<noteq> T_NONE \<longleftrightarrow> i = Global_info"
  by (cases i) (simp_all add: type_defs)

lemma info_type_set: "info_type i AND T_SET \<noteq> T_NONE \<longleftrightarrow> (\<exists>s cs. i = Set_info s cs)"
  by (cases i) (simp_all add: type_defs)

lemma forward_referenced_iff:
  "forward_referenced sy \<longleftrightarrow> (\<exists>si. info_of sy = Some si \<and> si_info si = Global_info)"
  by (cases "sy_infos sy")
    (simp_all add: forward_referenced_def sym_type_def ith_info_nth info_type_global [unfolded T_NONE_def] T_NONE_def)

section \<open>Transitions between the children of a set\<close>

fun diverge :: "string \<Rightarrow> string \<Rightarrow> nat" where
  "diverge (c # from) (d # to) = (if c = d then Suc (diverge from to) else 0)"
| "diverge _ _ = 0"

definition compiler_emplace :: "sym \<Rightarrow> compiler \<Rightarrow> compiler" where
  "compiler_emplace n cc = cc \<lparr> cc_table := emplace n (cc_table cc) \<rparr>"

definition check_transition :: "transition_info \<Rightarrow> compiler \<Rightarrow> stop + compiler" where
  "check_transition info cc = (case ti_to info of
     None \<Rightarrow> Inr cc
   | Some to \<Rightarrow> (let from = ti_from info; cc1 = compiler_emplace to cc
       in if info_of (deref cc1 to) = None
          then Inr (emit_cerr (in_quotes to @ '' not defined'' @ [CHR 0x0A]) (src_error (ti_first_ref info) cc1))
          else let k = diverge from to
            in if k < length from \<and> k < length to \<and> k > 0 \<and> from ! (k - 1) = CHR ''.''
               then if length from + 1 > 256 then Inl Crash
                 else let name = take (k - 1) from; cc2 = compiler_emplace name cc1
                   in if type_of cc2 name 0 AND T_SET \<noteq> T_NONE
                      then Inr (emit_cerr (''intra-set transition'' @ [CHR 0x0A]) (src_error (ti_first_ref info) cc2))
                      else Inr cc2
               else Inr cc1))"

definition check_transitions :: "compiler \<Rightarrow> stop + compiler" where
  "check_transitions cc = (case CHSM cc of
     None \<Rightarrow> Inr cc
   | Some c \<Rightarrow> iter_res check_transition (ch_transitions c) cc)"

text \<open>The specification: the target was never declared, or the two states lie in children of
  a set whose names begin differently.\<close>

definition is_set_state :: "compiler \<Rightarrow> sym \<Rightarrow> bool" where
  "is_set_state cc a \<longleftrightarrow> (\<exists>si s cs. info_of (deref cc a) = Some si \<and> si_info si = Set_info s cs)"

definition crosses_set :: "compiler \<Rightarrow> sym \<Rightarrow> sym \<Rightarrow> bool" where
  "crosses_set cc from to \<longleftrightarrow> (\<exists>a x y. from = a @ CHR ''.'' # x \<and> to = a @ CHR ''.'' # y \<and> x \<noteq> [] \<and> y \<noteq> []
     \<and> hd x \<noteq> hd y \<and> is_set_state cc a)"

definition bad_transition :: "compiler \<Rightarrow> transition_info \<Rightarrow> bool" where
  "bad_transition cc info \<longleftrightarrow> (\<exists>to. ti_to info = Some to \<and>
     (info_of (deref cc to) = None \<or> crosses_set cc (ti_from info) to))"

lemma diverge_append: "x = [] \<or> y = [] \<or> hd x \<noteq> hd y \<Longrightarrow> diverge (a @ x) (a @ y) = length a"
  by (induction a; cases x; cases y) auto

lemma diverge_split:
  "\<exists>a x y. from = a @ x \<and> to = a @ y \<and> length a = diverge from to \<and> (x = [] \<or> y = [] \<or> hd x \<noteq> hd y)"
proof (induction "from" to rule: diverge.induct)
  case (1 c "from" d to)
  show ?case
  proof (cases "c = d")
    case True
    with "1.IH" obtain a x y where "from = a @ x" "to = a @ y" "length a = diverge from to"
        "x = [] \<or> y = [] \<or> hd x \<noteq> hd y" by blast
    with True show ?thesis
      by (intro exI [of _ "c # a"] exI [of _ x] exI [of _ y]) simp
  qed (intro exI [of _ "[]"] exI [of _ "c # from"] exI [of _ "d # to"]; simp)
qed (rule exI [of _ "[]"], simp)+

lemma crosses_set_iff:
  "crosses_set cc from to \<longleftrightarrow> (let k = diverge from to in
     k < length from \<and> k < length to \<and> k > 0 \<and> from ! (k - 1) = CHR ''.'' \<and> is_set_state cc (take (k - 1) from))"
proof
  assume "crosses_set cc from to"
  then obtain a x y where a: "from = (a @ ''.'') @ x" "to = (a @ ''.'') @ y" "x \<noteq> []" "y \<noteq> []" "hd x \<noteq> hd y"
      "is_set_state cc a"
    by (auto simp: crosses_set_def)
  have "diverge from to = Suc (length a)"
    unfolding a(1,2) by (subst diverge_append) (use a in simp_all)
  then show "let k = diverge from to in k < length from \<and> k < length to \<and> k > 0 \<and>
      from ! (k - 1) = CHR ''.'' \<and> is_set_state cc (take (k - 1) from)"
    using a by (simp add: nth_append)
next
  assume k: "let k = diverge from to in k < length from \<and> k < length to \<and> k > 0 \<and>
      from ! (k - 1) = CHR ''.'' \<and> is_set_state cc (take (k - 1) from)"
  obtain p x y where p: "from = p @ x" "to = p @ y" "length p = diverge from to"
      "x = [] \<or> y = [] \<or> hd x \<noteq> hd y"
    using diverge_split by blast
  have "p \<noteq> []" using k p(3) by (auto simp: Let_def)
  then obtain a c where ac: "p = a @ [c]" by (metis rev_exhaust)
  have "x \<noteq> []" "y \<noteq> []"
    using k p(1-3) by (auto simp: Let_def)
  moreover have d: "diverge from to = Suc (length a)"
    using p(3) by (simp add: ac)
  moreover have "from ! length a = c" "take (length a) from = a"
    by (simp_all add: p(1) ac)
  then have "c = CHR ''.''" "is_set_state cc a"
    using k by (simp_all add: Let_def d)
  ultimately show "crosses_set cc from to"
    using p ac by (auto simp: crosses_set_def)
qed

lemma emplace_infos: "sy_infos (deref (compiler_emplace n cc) m) = sy_infos (deref cc m)"
  by (auto simp: deref_def compiler_emplace_def find_sym_emplace symbol_ctor_def split: option.splits)

lemma emplace_simps [simp]:
  "info_of (deref (compiler_emplace n cc) m) = info_of (deref cc m)"
  "type_of (compiler_emplace n cc) m i = type_of cc m i"
  "is_set_state (compiler_emplace n cc) = is_set_state cc"
  "cc_chsm (compiler_emplace n cc) = cc_chsm cc" "cc_source (compiler_emplace n cc) = cc_source cc"
  using emplace_infos [of n cc]
  by (simp_all add: type_of_def sym_type_def ith_info_nth is_set_state_def fun_eq_iff compiler_emplace_def)

lemma is_set_state_iff: "type_of cc a 0 AND T_SET \<noteq> T_NONE \<longleftrightarrow> is_set_state cc a"
  by (cases "sy_infos (deref cc a)")
    (auto simp: type_of_def sym_type_def ith_info_nth info_type_set [unfolded T_NONE_def] is_set_state_def T_NONE_def)

definition same_infos :: "compiler \<Rightarrow> compiler \<Rightarrow> bool" where
  "same_infos cc cc' \<longleftrightarrow> (\<forall>n. sy_infos (deref cc' n) = sy_infos (deref cc n)) \<and> cc_chsm cc' = cc_chsm cc"

lemma same_infos_bad: "same_infos cc cc' \<Longrightarrow> bad_transition cc' = bad_transition cc"
  by (simp add: same_infos_def bad_transition_def crosses_set_def is_set_state_def fun_eq_iff)

lemma check_transition_result:
  assumes "length (ti_from info) < 256"
  shows "\<exists>cc'. check_transition info cc = Inr cc' \<and> same_infos cc cc' \<and>
    errors cc' = errors cc + (if bad_transition cc info then 1 else 0)"
proof (cases "ti_to info")
  case None
  then show ?thesis by (simp add: check_transition_def same_infos_def bad_transition_def)
next
  case (Some to)
  show ?thesis
    using assms by (auto simp: check_transition_def Some Let_def bad_transition_def crosses_set_iff same_infos_def
        is_set_state_iff emplace_infos simp del: info_of_simps)
qed

lemma check_transitions_result:
  assumes "CHSM cc = Some c" "\<forall>t \<in> set (ch_transitions c). length (ti_from t) < 256"
  shows "\<exists>cc'. check_transitions cc = Inr cc' \<and> same_infos cc cc' \<and>
    errors cc' = errors cc + length (filter (bad_transition cc) (ch_transitions c))"
proof -
  have "\<exists>cc'. iter_res check_transition ts cc = Inr cc' \<and> same_infos cc cc' \<and>
      errors cc' = errors cc + length (filter (bad_transition cc) ts)"
    if "\<forall>t \<in> set ts. length (ti_from t) < 256" for ts
    using that
  proof (induction ts arbitrary: cc)
    case (Cons t ts)
    obtain c1 where c1: "check_transition t cc = Inr c1" "same_infos cc c1"
        "errors c1 = errors cc + (if bad_transition cc t then 1 else 0)"
      using check_transition_result [of t cc] Cons.prems by auto
    obtain c2 where c2: "iter_res check_transition ts c1 = Inr c2" "same_infos c1 c2"
        "errors c2 = errors c1 + length (filter (bad_transition c1) ts)"
      using Cons.IH [of c1] Cons.prems by auto
    show ?case
      using c1 c2 same_infos_bad [OF c1(2)] by (auto simp: same_infos_def)
  qed (simp add: same_infos_def)
  then show ?thesis
    using assms by (simp add: check_transitions_def)
qed

section \<open>Back-patching enter and exit events\<close>

definition flag_event :: "event_kind \<Rightarrow> state_info \<Rightarrow> state_info" where
  "flag_event k s = (if k = KIND_ENTER then s \<lparr> st_event_enter := True \<rparr> else s \<lparr> st_event_exit := True \<rparr>)"

definition backpatch_event :: "sym \<Rightarrow> compiler \<Rightarrow> stop + compiler" where
  "backpatch_event ev cc = (case INFO as_event cc (Some ev) of
     None \<Rightarrow> Inl Crash
   | Some e \<Rightarrow> (case ev_state e of
       None \<Rightarrow> Inr cc
     | Some s \<Rightarrow> (if ev_kind e = KIND_USER then Inl (Exit EX_SOFTWARE)
         else if INFO as_state cc (Some s) = None then Inl Crash
         else Inr (set_info s (map_state (flag_event (ev_kind e))) cc))))"

definition backpatch_enter_exit_events :: "compiler \<Rightarrow> stop + compiler" where
  "backpatch_enter_exit_events cc = (case CHSM cc of
     None \<Rightarrow> Inl Crash
   | Some c \<Rightarrow> iter_res backpatch_event (ch_events c) cc)"

text \<open>The event of a state that is declared, of the given kind.\<close>

definition event_for :: "compiler \<Rightarrow> event_kind \<Rightarrow> sym \<Rightarrow> sym \<Rightarrow> bool" where
  "event_for cc k s ev \<longleftrightarrow> (\<exists>e. INFO as_event cc (Some ev) = Some e \<and> ev_state e = Some s \<and> ev_kind e = k)"

definition events_ok :: "compiler \<Rightarrow> sym list \<Rightarrow> bool" where
  "events_ok cc evs \<longleftrightarrow> (\<forall>ev \<in> set evs. \<exists>e. INFO as_event cc (Some ev) = Some e \<and>
     (\<forall>s. ev_state e = Some s \<longrightarrow> ev_kind e \<noteq> KIND_USER \<and> INFO as_state cc (Some s) \<noteq> None))"

lemma as_event_map_state [simp]: "as_event (map_state f i) = as_event i"
  by (cases i) auto

lemma as_state_map_state [simp]: "as_state (map_state f i) = map_option f (as_state i)"
  by (cases i) auto

lemma INFO_set_info:
  "INFO as_type (set_info n f cc) (Some m) =
     (if m = n then Option.bind (info_helper cc (Some m)) (\<lambda>si. as_type (f (si_info si))) else INFO as_type cc (Some m))"
proof -
  have *: "sy_infos (deref (set_info n f cc) m) = (if m = n
      then (case sy_infos (deref cc m) of [] \<Rightarrow> [] | i # is \<Rightarrow> si_info_update f i # is) else sy_infos (deref cc m))"
    by (auto simp: deref_def set_info_def find_sym_update set_first_def symbol_ctor_def split: option.splits)
  then show ?thesis
    by (auto simp: INFO_def info_helper_def split: list.splits)
qed

lemma backpatch_event_result:
  assumes "events_ok cc [ev]"
  shows "\<exists>cc'. backpatch_event ev cc = Inr cc' \<and> (\<forall>n. INFO as_event cc' (Some n) = INFO as_event cc (Some n)) \<and>
    (\<forall>n. INFO as_state cc' (Some n) = map_option
       (\<lambda>s. s \<lparr> st_event_enter := st_event_enter s \<or> event_for cc KIND_ENTER n ev,
               st_event_exit := st_event_exit s \<or> event_for cc KIND_EXIT n ev \<rparr>) (INFO as_state cc (Some n)))"
proof -
  obtain e where e: "INFO as_event cc (Some ev) = Some e"
      "\<forall>s. ev_state e = Some s \<longrightarrow> ev_kind e \<noteq> KIND_USER \<and> INFO as_state cc (Some s) \<noteq> None"
    using assms by (auto simp: events_ok_def)
  show ?thesis
  proof (cases "ev_state e")
    case None
    then show ?thesis
      using e by (simp add: backpatch_event_def event_for_def option.map_ident)
  next
    case (Some s)
    let ?f = "map_state (flag_event (ev_kind e))"
    have ok: "ev_kind e \<noteq> KIND_USER" "INFO as_state cc (Some s) \<noteq> None"
      using e(2) Some by auto
    have "INFO as_event (set_info s ?f cc) (Some n) = INFO as_event cc (Some n)" for n
      by (cases "info_helper cc (Some n)") (simp_all add: INFO_set_info, simp_all add: INFO_def)
    moreover have "INFO as_state (set_info s ?f cc) (Some n) = map_option
       (\<lambda>s. s \<lparr> st_event_enter := st_event_enter s \<or> event_for cc KIND_ENTER n ev,
               st_event_exit := st_event_exit s \<or> event_for cc KIND_EXIT n ev \<rparr>) (INFO as_state cc (Some n))" for n
    proof (cases "n = s")
      case True
      have "INFO as_state (set_info s ?f cc) (Some s) = map_option (flag_event (ev_kind e)) (INFO as_state cc (Some s))"
        by (cases "info_helper cc (Some s)") (simp_all add: INFO_set_info, simp_all add: INFO_def)
      then show ?thesis
        using ok(1) e(1) Some True
        by (cases "ev_kind e"; cases "INFO as_state cc (Some s)") (simp_all add: flag_event_def event_for_def)
    next
      case False
      then show ?thesis
        using e(1) Some by (simp add: INFO_set_info event_for_def option.map_ident)
    qed
    ultimately show ?thesis
      using e(1) Some ok by (simp add: backpatch_event_def)
  qed
qed

lemma backpatch_result:
  assumes "CHSM cc = Some c" "events_ok cc (ch_events c)"
  shows "\<exists>cc'. backpatch_enter_exit_events cc = Inr cc' \<and>
    (\<forall>n. INFO as_state cc' (Some n) = map_option
       (\<lambda>s. s \<lparr> st_event_enter := st_event_enter s \<or> (\<exists>ev \<in> set (ch_events c). event_for cc KIND_ENTER n ev),
               st_event_exit := st_event_exit s \<or> (\<exists>ev \<in> set (ch_events c). event_for cc KIND_EXIT n ev) \<rparr>)
       (INFO as_state cc (Some n)))"
proof -
  have "\<exists>cc'. iter_res backpatch_event evs cc = Inr cc' \<and>
    (\<forall>n. INFO as_state cc' (Some n) = map_option
       (\<lambda>s. s \<lparr> st_event_enter := st_event_enter s \<or> (\<exists>ev \<in> set evs. event_for cc KIND_ENTER n ev),
               st_event_exit := st_event_exit s \<or> (\<exists>ev \<in> set evs. event_for cc KIND_EXIT n ev) \<rparr>)
       (INFO as_state cc (Some n)))" if "events_ok cc evs" for evs
    using that
  proof (induction evs arbitrary: cc)
    case (Cons ev evs)
    obtain c1 where c1: "backpatch_event ev cc = Inr c1" "\<forall>n. INFO as_event c1 (Some n) = INFO as_event cc (Some n)"
        "\<forall>n. INFO as_state c1 (Some n) = map_option
       (\<lambda>s. s \<lparr> st_event_enter := st_event_enter s \<or> event_for cc KIND_ENTER n ev,
               st_event_exit := st_event_exit s \<or> event_for cc KIND_EXIT n ev \<rparr>) (INFO as_state cc (Some n))"
      using backpatch_event_result [of cc ev] Cons.prems by (auto simp: events_ok_def)
    have "events_ok c1 evs"
      using Cons.prems c1(2,3) by (simp add: events_ok_def)
    moreover have "event_for c1 = event_for cc"
      using c1(2) by (simp add: event_for_def fun_eq_iff)
    ultimately obtain c2 where c2: "iter_res backpatch_event evs c1 = Inr c2"
      "\<forall>n. INFO as_state c2 (Some n) = map_option
       (\<lambda>s. s \<lparr> st_event_enter := st_event_enter s \<or> (\<exists>ev \<in> set evs. event_for cc KIND_ENTER n ev),
               st_event_exit := st_event_exit s \<or> (\<exists>ev \<in> set evs. event_for cc KIND_EXIT n ev) \<rparr>)
       (INFO as_state c1 (Some n))"
      using Cons.IH [of c1] by auto
    show ?case
      using c1 c2 by (simp add: option.map_comp comp_def disj_assoc)
  qed (simp add: option.map_ident)
  then show ?thesis
    using assms by (simp add: backpatch_enter_exit_events_def)
qed

end
