(* ===== verification/Chsmc_Parser.thy ===== *)
theory Chsmc_Parser
  imports Chsmc_Symbols
begin

text \<open>
  The parser of parameter lists (\<^verbatim>\<open>chsmc/lang_parser.h\<close>, \<^verbatim>\<open>lang_parser.cpp\<close>,
  \<^verbatim>\<open>cpp_parser.cpp\<close>, \<^verbatim>\<open>java_parser.cpp\<close>): characters with a stack of open brackets,
  tokens with one token of look-ahead, parameters.  The input stream is the list of the
  characters not yet read; the code puts back only a character it has just got, so that
  the stream's failure bits play no part.  An exception is \<open>Inl (Throw what)\<close>, a failing
  \<^verbatim>\<open>assert\<close> \<open>Inl Assertion\<close>, an index outside a vector \<open>Inl Out_of_range\<close>
  (also what a loop of the model returns when its bound is used up, which \<open>parse_param_list_safe\<close>
  excludes).
\<close>

datatype parse_stop = Throw string | Assertion | Out_of_range

section \<open>Tokens\<close>

datatype token_type = NONE | IDENTIFIER | NUMBER | AMPER | LPAREN | RPAREN | STAR | COMMA | DOT
  | SLASH | COLON | LANGLE | EQUAL | RANGLE | LBRACKET | RBRACKET

text \<open>The value of the enumerator; punctuation is its own character.\<close>

fun tt_value :: "token_type \<Rightarrow> nat" where
  "tt_value NONE = 0"
| "tt_value IDENTIFIER = 0x81"
| "tt_value NUMBER = 0x82"
| "tt_value AMPER = code CHR ''&''"
| "tt_value LPAREN = code CHR ''(''"
| "tt_value RPAREN = code CHR '')''"
| "tt_value STAR = code CHR ''*''"
| "tt_value COMMA = code CHR '',''"
| "tt_value DOT = code CHR ''.''"
| "tt_value SLASH = code CHR ''/''"
| "tt_value COLON = code CHR '':''"
| "tt_value LANGLE = code CHR ''<''"
| "tt_value EQUAL = code CHR ''=''"
| "tt_value RANGLE = code CHR ''>''"
| "tt_value LBRACKET = code CHR ''[''"
| "tt_value RBRACKET = code CHR '']''"

definition tt_all :: "token_type list" where
  "tt_all = [NONE, IDENTIFIER, NUMBER, AMPER, LPAREN, RPAREN, STAR, COMMA, DOT, SLASH, COLON, LANGLE,
     EQUAL, RANGLE, LBRACKET, RBRACKET]"

definition tt_has_char :: "token_type \<Rightarrow> bool" where
  "tt_has_char tt \<longleftrightarrow> 0 < tt_value tt \<and> tt_value tt < 0x80"

definition tt_has_str :: "token_type \<Rightarrow> bool" where
  "tt_has_str tt \<longleftrightarrow> tt_value tt AND 0x80 \<noteq> 0"

definition is_punct :: "token_type \<Rightarrow> bool" where
  "is_punct tt \<longleftrightarrow> tt_has_char tt"

definition tt_char :: "token_type \<Rightarrow> char" where
  "tt_char tt = char_of (tt_value tt)"

record token =
  tk_str :: string
  tk_type :: token_type

definition token_ctor :: "token_type \<Rightarrow> parse_stop + token" where
  "token_ctor tt = (if tt_has_str tt then Inl Assertion else Inr \<lparr> tk_str = [], tk_type = tt \<rparr>)"

definition token_of_char :: "char \<Rightarrow> parse_stop + token" where
  "token_of_char c = (case find (\<lambda>tt. tt_value tt = code c) tt_all of
     None \<Rightarrow> Inl Assertion
   | Some tt \<Rightarrow> token_ctor tt)"

definition token_str_ctor :: "token_type \<Rightarrow> string \<Rightarrow> parse_stop + token" where
  "token_str_ctor tt s = (if tt_has_str tt then Inr \<lparr> tk_str = s, tk_type = tt \<rparr> else Inl Assertion)"

definition none_token :: token where
  "none_token = \<lparr> tk_str = [], tk_type = NONE \<rparr>"

text \<open>Moving from a token leaves a token of type \<open>NONE\<close> behind.\<close>

definition token_move :: "token \<Rightarrow> token \<times> token" where
  "token_move t = (t, \<lparr> tk_str = [], tk_type = NONE \<rparr>)"

definition token_clear :: "token \<Rightarrow> token" where
  "token_clear t = t \<lparr> tk_str := [], tk_type := NONE \<rparr>"

definition token_get_char :: "token \<Rightarrow> parse_stop + char" where
  "token_get_char t = (if tt_has_char (tk_type t) then Inr (tt_char (tk_type t)) else Inl Assertion)"

definition token_get_str :: "token \<Rightarrow> parse_stop + string" where
  "token_get_str t = (if tt_has_str (tk_type t) then Inr (tk_str t) else Inl Assertion)"

definition as_str :: "token \<Rightarrow> string" where
  "as_str t = (if tt_has_str (tk_type t) then tk_str t else [tt_char (tk_type t)])"

definition token_eq :: "token \<Rightarrow> token \<Rightarrow> bool" where
  "token_eq ti tj \<longleftrightarrow> tk_type ti = tk_type tj \<and> (tt_has_char (tk_type ti) \<or> tk_str ti = tk_str tj)"

definition token_swap :: "token \<times> token \<Rightarrow> token \<times> token" where
  "token_swap p = (snd p, fst p)"

definition tt_text :: "token_type \<Rightarrow> string" where
  "tt_text tt = (case tt of NONE \<Rightarrow> ''none'' | IDENTIFIER \<Rightarrow> ''identifier'' | NUMBER \<Rightarrow> ''number''
     | _ \<Rightarrow> [tt_char tt])"

definition token_text :: "token \<Rightarrow> string" where
  "token_text t = (if tt_has_str (tk_type t) then tk_str t else tt_text (tk_type t))"

lemma tt_class:
  "tt_has_str tt \<longleftrightarrow> tt = IDENTIFIER \<or> tt = NUMBER"
  "tt_has_char tt \<longleftrightarrow> tt \<noteq> NONE \<and> tt \<noteq> IDENTIFIER \<and> tt \<noteq> NUMBER"
  by (cases tt; simp add: tt_has_str_def tt_has_char_def code_def)+

lemma token_moved: "tk_type (snd (token_move t)) = NONE" "fst (token_move t) = t"
  by (simp_all add: token_move_def)

section \<open>The parser\<close>

record parser =
  ps_in :: string
  ps_parens :: "char list"
  ps_peeked :: token
  ps_lparen :: bool

definition parser_ctor :: "string \<Rightarrow> parser" where
  "parser_ctor inp = \<lparr> ps_in = inp, ps_parens = [], ps_peeked = none_token, ps_lparen = False \<rparr>"

definition parser_clear :: "parser \<Rightarrow> parser" where
  "parser_clear ps = ps \<lparr> ps_parens := clear_stack (ps_parens ps), ps_peeked := token_clear (ps_peeked ps),
     ps_lparen := False \<rparr>"

definition is_ident_1st :: "char \<Rightarrow> bool" where
  "is_ident_1st c \<longleftrightarrow> isalpha c \<or> c = CHR ''_''"

definition is_ident_rest :: "char \<Rightarrow> bool" where
  "is_ident_rest c \<longleftrightarrow> isalnum c \<or> c = CHR ''_''"

abbreviation NUL :: char where "NUL \<equiv> CHR 0x00"

definition is_open :: "char \<Rightarrow> bool" where
  "is_open c \<longleftrightarrow> c = CHR ''('' \<or> c = CHR ''<'' \<or> c = CHR ''[''"

definition is_close :: "char \<Rightarrow> bool" where
  "is_close c \<longleftrightarrow> c = CHR '')'' \<or> c = CHR ''>'' \<or> c = CHR '']''"

definition get_char_from_istream :: "parser \<Rightarrow> char \<times> parser" where
  "get_char_from_istream ps = (case ps_in ps of [] \<Rightarrow> (NUL, ps) | c # cs \<Rightarrow> (c, ps \<lparr> ps_in := cs \<rparr>))"

definition unmatched :: "char \<Rightarrow> parse_stop" where
  "unmatched c = Throw ([CHR 0x27, c, CHR 0x27] @ '': unmatched character'')"

definition get_char :: "parser \<Rightarrow> parse_stop + char \<times> parser" where
  "get_char ps = (case get_char_from_istream ps of (c, ps1) \<Rightarrow>
     if is_open c then Inr (c, ps1 \<lparr> ps_parens := c # ps_parens ps1 \<rparr>)
     else if is_close c then
       (case ps_parens ps1 of
          [] \<Rightarrow> Inl (unmatched c)
        | open_c # rest \<Rightarrow>
            (if open_c \<noteq> opening_char c then Inl (unmatched c)
             else Inr (if c = CHR '')'' \<and> rest = [] \<and> ps_lparen ps1 then NUL else c,
                       ps1 \<lparr> ps_parens := rest \<rparr>)))
     else Inr (c, ps1))"

definition peek_char :: "parser \<Rightarrow> char" where
  "peek_char ps = (case ps_in ps of [] \<Rightarrow> NUL | c # _ \<Rightarrow> c)"

definition unget_char :: "char \<Rightarrow> parser \<Rightarrow> parse_stop + parser" where
  "unget_char c ps = (if c = NUL then Inl Assertion
     else let ps1 = ps \<lparr> ps_in := c # ps_in ps \<rparr> in
       if is_open c then (case ps_parens ps1 of
            [] \<Rightarrow> Inl Assertion
          | _ # rest \<Rightarrow> Inr (ps1 \<lparr> ps_parens := rest \<rparr>))
       else if is_close c then Inr (ps1 \<lparr> ps_parens := opening_char c # ps_parens ps1 \<rparr>)
       else Inr ps1)"

definition within_parens :: "parser \<Rightarrow> bool" where
  "within_parens ps \<longleftrightarrow> (of_nat (length (ps_parens ps)) - of_bool (ps_lparen ps) :: 64 word) > 0"

text \<open>Putting back the character just got restores the parser, so that no assertion of
  \<^verbatim>\<open>unget_char\<close> fails.\<close>

lemma bracket_simps:
  "is_open c \<Longrightarrow> \<not> is_close c" "is_open c \<Longrightarrow> c \<noteq> NUL" "is_close c \<Longrightarrow> c \<noteq> NUL"
  "\<not> is_open NUL" "\<not> is_close NUL" "is_close CHR '')''"
  by (auto simp: is_open_def is_close_def)

lemma unget_get:
  assumes "get_char ps = Inr (c, ps')" "c \<noteq> NUL"
  shows "unget_char c ps' = Inr ps"
proof (cases "ps_in ps")
  case Nil
  then have "c = NUL"
    using assms(1) by (simp add: get_char_def get_char_from_istream_def bracket_simps)
  with assms(2) show ?thesis by simp
next
  case (Cons d cs)
  note defs = get_char_def get_char_from_istream_def unget_char_def Let_def
  consider "is_open d" | "\<not> is_open d" "is_close d" | "\<not> is_open d" "\<not> is_close d" by blast
  then show ?thesis
  proof cases
    case 2
    then show ?thesis
      using assms Cons by (cases "ps_parens ps") (auto simp: defs split: if_splits)
  qed (use assms Cons in \<open>auto simp: defs\<close>)
qed

lemma get_char_shorter:
  assumes "get_char ps = Inr (c, ps')"
  shows "c \<noteq> NUL \<Longrightarrow> length (ps_in ps') < length (ps_in ps)" "length (ps_in ps') \<le> length (ps_in ps)"
    "ps_peeked ps' = ps_peeked ps" "ps_lparen ps' = ps_lparen ps"
  using assms
  by (auto simp: get_char_def get_char_from_istream_def split: list.splits if_splits)

lemma get_char_no_assertion [simp]: "get_char ps \<noteq> Inl Assertion" "get_char ps \<noteq> Inl Out_of_range"
  by (auto simp: get_char_def unmatched_def get_char_from_istream_def split: list.splits if_splits)

section \<open>Identifiers, numbers, comments\<close>

function ident_loop :: "parser \<Rightarrow> string \<Rightarrow> parse_stop + string \<times> parser" where
  "ident_loop ps identifier = (case get_char ps of
     Inl e \<Rightarrow> Inl e
   | Inr (c, ps1) \<Rightarrow>
       (if c = NUL then Inr (identifier, ps1)
        else if \<not> is_ident_rest c then rbind (unget_char c ps1) (\<lambda>ps2. Inr (identifier, ps2))
        else ident_loop ps1 (identifier @ [c])))"
  by auto
termination
  by (relation "measure (\<lambda>(ps, _). length (ps_in ps))") (auto dest: get_char_shorter)

declare ident_loop.simps [simp del]

definition parse_identifier :: "char \<Rightarrow> parser \<Rightarrow> parse_stop + string \<times> parser" where
  "parse_identifier c ps = ident_loop ps [c]"

definition unexpected_char :: "char \<Rightarrow> parse_stop" where
  "unexpected_char c = (if c = NUL then Assertion
     else Throw ([CHR 0x27, c, CHR 0x27] @ '': unexpected character''))"

function number_loop :: "string \<Rightarrow> parser \<Rightarrow> string \<Rightarrow> parse_stop + string \<times> parser" where
  "number_loop charset ps number = (case get_char ps of
     Inl e \<Rightarrow> Inl e
   | Inr (c, ps1) \<Rightarrow>
       (if c = NUL then Inr (number, ps1)
        else if c \<notin> set charset then rbind (unget_char c ps1) (\<lambda>ps2. Inr (number, ps2))
        else number_loop charset ps1 (number @ [c])))"
  by auto
termination
  by (relation "measure (\<lambda>(_, ps, _). length (ps_in ps))") (auto dest: get_char_shorter)

declare number_loop.simps [simp del]

definition parse_number :: "char \<Rightarrow> parser \<Rightarrow> parse_stop + string \<times> parser" where
  "parse_number c ps = (if c = CHR ''0'' then
     rbind (get_char ps) (\<lambda>(d, ps1).
       if d = CHR ''b'' then number_loop ''01'' ps1 [c, d]
       else if d \<in> set ''01234567'' then number_loop ''01234567'' ps1 [c, d]
       else if d = CHR ''x'' \<or> d = CHR ''X'' then number_loop ''0123456789ABCDEFabcdef'' ps1 [c, d]
       else if d = NUL then Inr ([c], ps1)
       else Inl (unexpected_char d))
     else number_loop ''0123456789'' ps [c])"

function line_comment :: "parser \<Rightarrow> parse_stop + parser" where
  "line_comment ps = (case get_char ps of
     Inl e \<Rightarrow> Inl e
   | Inr (c, ps1) \<Rightarrow> (if c \<noteq> NUL \<and> c \<noteq> CHR 0x0A then line_comment ps1 else Inr ps1))"
  by auto
termination
  by (relation "measure (\<lambda>ps. length (ps_in ps))") (auto dest: get_char_shorter)

declare line_comment.simps [simp del]

text \<open>The loop of a C comment skips the closing slash and goes on.\<close>

function block_comment :: "parser \<Rightarrow> parse_stop + parser" where
  "block_comment ps = (case get_char ps of
     Inl e \<Rightarrow> Inl e
   | Inr (c, ps1) \<Rightarrow>
       (if c = NUL then Inr ps1
        else if c = CHR ''*'' \<and> peek_char ps1 = CHR ''/'' then
          (case get_char ps1 of Inl e \<Rightarrow> Inl e | Inr (_, ps2) \<Rightarrow> block_comment ps2)
        else block_comment ps1))"
  by auto
termination
  by (relation "measure (\<lambda>ps. length (ps_in ps))") (auto dest: get_char_shorter intro: le_less_trans)

declare block_comment.simps [simp del]

definition parse_comment :: "char \<Rightarrow> parser \<Rightarrow> parse_stop + parser" where
  "parse_comment c ps = (if c = CHR ''/'' then line_comment ps
     else if c = CHR ''*'' then block_comment ps
     else unget_char c ps)"

text \<open>What the pieces leave of the input.\<close>

definition no_longer :: "parser \<Rightarrow> parser \<Rightarrow> bool" where
  "no_longer ps' ps \<longleftrightarrow> length (ps_in ps') \<le> length (ps_in ps) \<and> ps_peeked ps' = ps_peeked ps
     \<and> ps_lparen ps' = ps_lparen ps"

lemma no_longer_trans: "no_longer a b \<Longrightarrow> no_longer b c \<Longrightarrow> no_longer a c"
  by (auto simp: no_longer_def)

lemma no_longer_refl [simp]: "no_longer a a"
  by (simp add: no_longer_def)

lemma get_char_no_longer: "get_char ps = Inr (c, ps') \<Longrightarrow> no_longer ps' ps"
  by (auto simp: no_longer_def dest: get_char_shorter)

text \<open>A loop over characters never fails an assertion and consumes input.\<close>

definition good :: "parser \<Rightarrow> parse_stop + 'a \<Rightarrow> ('a \<Rightarrow> parser) \<Rightarrow> bool" where
  "good ps r out \<longleftrightarrow> r \<noteq> Inl Assertion \<and> r \<noteq> Inl Out_of_range \<and> (\<forall>a. r = Inr a \<longrightarrow> no_longer (out a) ps)"

lemma good_step:
  assumes "get_char ps = Inr (c, ps1)" "c \<noteq> NUL" "good ps1 r out"
  shows "good ps r out"
  using assms get_char_no_longer [OF assms(1)] by (auto simp: good_def intro: no_longer_trans)

lemma good_Inl [simp]: "good ps (Inl e) out \<longleftrightarrow> e \<noteq> Assertion \<and> e \<noteq> Out_of_range"
  by (simp add: good_def)

lemma good_Inr [simp]: "good ps (Inr a) out \<longleftrightarrow> no_longer (out a) ps"
  by (simp add: good_def)

lemma good_get_char: "good ps (get_char ps) snd"
  using get_char_no_longer [of ps] by (auto simp: good_def)

lemma ident_loop_good: "good ps (ident_loop ps acc) snd"
proof (induction ps acc rule: ident_loop.induct)
  case (1 ps acc)
  show ?case
  proof (cases "get_char ps")
    case (Inr r)
    then obtain c ps1 where r: "get_char ps = Inr (c, ps1)" by (cases r) auto
    show ?thesis
      using "1.IH" [OF r refl] good_step [OF r] unget_get [OF r] get_char_no_longer [OF r]
      by (subst ident_loop.simps) (auto simp: r)
  qed (subst ident_loop.simps, use good_get_char [of ps] in simp)
qed

lemma number_loop_good: "good ps (number_loop charset ps acc) snd"
proof (induction charset ps acc rule: number_loop.induct)
  case (1 charset ps acc)
  show ?case
  proof (cases "get_char ps")
    case (Inr r)
    then obtain c ps1 where r: "get_char ps = Inr (c, ps1)" by (cases r) auto
    show ?thesis
      using "1.IH" [OF r refl] good_step [OF r] unget_get [OF r] get_char_no_longer [OF r]
      by (subst number_loop.simps) (auto simp: r)
  qed (subst number_loop.simps, use good_get_char [of ps] in simp)
qed

lemma line_comment_good: "good ps (line_comment ps) (\<lambda>p. p)"
proof (induction ps rule: line_comment.induct)
  case (1 ps)
  show ?case
  proof (cases "get_char ps")
    case (Inr r)
    then obtain c ps1 where r: "get_char ps = Inr (c, ps1)" by (cases r) auto
    show ?thesis
      using "1.IH" [OF r refl] get_char_no_longer [OF r]
      by (subst line_comment.simps) (auto simp: r intro: good_step [OF r])
  qed (subst line_comment.simps, use good_get_char [of ps] in simp)
qed

lemma block_comment_good: "good ps (block_comment ps) (\<lambda>p. p)"
proof (induction ps rule: block_comment.induct)
  case (1 ps)
  show ?case
  proof (cases "get_char ps")
    case (Inr r)
    then obtain c ps1 where r: "get_char ps = Inr (c, ps1)" by (cases r) auto
    show ?thesis
    proof (cases "c \<noteq> NUL \<and> c = CHR ''*'' \<and> peek_char ps1 = CHR ''/''")
      case True
      then have sl: "ps_in ps1 = CHR ''/'' # tl (ps_in ps1)"
        by (auto simp: peek_char_def split: list.splits)
      then obtain ps2 where r2: "get_char ps1 = Inr (CHR ''/'', ps2)"
        by (cases "ps_in ps1") (auto simp: get_char_def get_char_from_istream_def is_open_def is_close_def)
      show ?thesis
        using "1.IH"(1) [OF r refl _ _ r2 refl] True
        by (subst block_comment.simps) (auto simp: r r2 intro: good_step [OF r] good_step [OF r2])
    next
      case False
      show ?thesis
        using "1.IH"(2) [OF r refl] get_char_no_longer [OF r] False
        by (subst block_comment.simps) (auto simp: r intro: good_step [OF r])
    qed
  qed (subst block_comment.simps, use good_get_char [of ps] in simp)
qed

lemma parse_identifier_good: "good ps (parse_identifier c ps) snd"
  by (simp add: parse_identifier_def ident_loop_good)

lemma parse_number_good: "good ps (parse_number c ps) snd"
proof (cases "get_char ps")
  case (Inr r)
  then obtain d ps1 where r: "get_char ps = Inr (d, ps1)" by (cases r) auto
  have loop: "good ps (number_loop cs ps1 acc) snd" if "d \<noteq> NUL" for cs acc
    using good_step [OF r that number_loop_good] .
  have "NUL \<notin> set ''01234567''" by simp
  then have "d \<in> set ''01234567'' \<Longrightarrow> d \<noteq> NUL" by metis
  then show ?thesis
    using number_loop_good [of ps] get_char_no_longer [OF r] loop
    by (auto simp: parse_number_def r unexpected_char_def simp del: list.set)
qed (use good_get_char [of ps] number_loop_good in \<open>auto simp: parse_number_def\<close>)

text \<open>A comment gives back at most its second character.\<close>

lemma parse_comment_good:
  assumes "get_char ps = Inr (c, ps1)" "c \<noteq> NUL"
  shows "good ps (parse_comment c ps1) (\<lambda>p. p)"
  using good_step [OF assms line_comment_good] good_step [OF assms block_comment_good] unget_get [OF assms]
  by (simp add: parse_comment_def)

section \<open>Getting tokens\<close>

function token_loop :: "parser \<Rightarrow> parse_stop + token \<times> parser" where
  "token_loop ps = (case get_char ps of
     Inl e \<Rightarrow> Inl e
   | Inr (c, ps1) \<Rightarrow>
       (if c = NUL then rbind (token_ctor NONE) (\<lambda>t. Inr (t, ps1))
        else if isspace c then token_loop ps1
        else if is_ident_1st c then
          rbind (parse_identifier c ps1) (\<lambda>(s, ps2). rbind (token_str_ctor IDENTIFIER s) (\<lambda>t. Inr (t, ps2)))
        else if isdigit c then
          rbind (parse_number c ps1) (\<lambda>(s, ps2). rbind (token_str_ctor NUMBER s) (\<lambda>t. Inr (t, ps2)))
        else if c = CHR ''/'' then
          (case get_char ps1 of
             Inl e \<Rightarrow> Inl e
           | Inr (c2, ps2) \<Rightarrow>
               (if c2 \<noteq> NUL then (case parse_comment c2 ps2 of Inl e \<Rightarrow> Inl e | Inr ps3 \<Rightarrow> token_loop ps3)
                else rbind (token_of_char c) (\<lambda>t. Inr (t, ps2))))
        else if c \<in> set ''&:,.=<[(>])*'' then rbind (token_of_char c) (\<lambda>t. Inr (t, ps1))
        else token_loop ps1))"
  by auto
termination
proof (relation "measure (\<lambda>ps. length (ps_in ps))")
  fix ps r c ps1 r2 c2 ps2 ps3
  assume *: "get_char ps = Inr r" "(c, ps1) = r" "c \<noteq> NUL" "get_char ps1 = Inr r2" "(c2, ps2) = r2"
    "c2 \<noteq> NUL" "parse_comment c2 ps2 = Inr ps3"
  have "no_longer ps3 ps1"
    using parse_comment_good [of ps1 c2 ps2] * by (auto simp: good_def)
  then show "(ps3, ps) \<in> measure (\<lambda>ps. length (ps_in ps))"
    using get_char_shorter(1) [of ps c ps1] * by (auto simp: no_longer_def)
qed (auto dest: get_char_shorter(1))

declare token_loop.simps [simp del]

definition get_token :: "parser \<Rightarrow> parse_stop + token \<times> parser" where
  "get_token ps = (if tk_type (ps_peeked ps) \<noteq> NONE
     then Inr (fst (token_move (ps_peeked ps)), ps \<lparr> ps_peeked := snd (token_move (ps_peeked ps)) \<rparr>)
     else token_loop ps)"

definition peek_token :: "parser \<Rightarrow> parse_stop + token \<times> parser" where
  "peek_token ps = (if tk_type (ps_peeked ps) = NONE
     then rbind (get_token ps) (\<lambda>(t, ps1). Inr (t, ps1 \<lparr> ps_peeked := t \<rparr>))
     else Inr (ps_peeked ps, ps))"

definition unget_token :: "token \<Rightarrow> parser \<Rightarrow> parse_stop + parser" where
  "unget_token t ps = (if tk_type (ps_peeked ps) \<noteq> NONE \<or> tk_type t = NONE then Inl Assertion
     else Inr (ps \<lparr> ps_peeked := t \<rparr>))"

definition unexpected_token :: "token \<Rightarrow> token_type \<Rightarrow> parse_stop" where
  "unexpected_token t tt = (if tk_type t = NONE
       then Throw (''unexpected end of tokens; '' @ tt_text tt @ '' expected'')
     else if tk_type t = tt then Assertion
     else Throw (CHR 0x22 # token_text t @ CHR 0x22 # '': unexpected; '' @ tt_text tt @ '' expected''))"

definition get_token_if_type :: "token_type \<Rightarrow> parser \<Rightarrow> parse_stop + token \<times> parser" where
  "get_token_if_type tt ps = rbind (get_token ps) (\<lambda>(t, ps1).
     if tk_type t = tt then Inr (t, ps1)
     else rbind (unget_token t ps1) (\<lambda>ps2. Inr (none_token, ps2)))"

definition get_token_of_type :: "token_type \<Rightarrow> parser \<Rightarrow> parse_stop + token \<times> parser" where
  "get_token_of_type tt ps = rbind (get_token ps) (\<lambda>(t, ps1).
     if tk_type t = NONE \<or> tk_type t = tt then Inr (t, ps1) else Inl (unexpected_token t tt))"

definition require_token :: "parser \<Rightarrow> parse_stop + token \<times> parser" where
  "require_token ps = rbind (get_token ps) (\<lambda>(t, ps1).
     if tk_type t = NONE then Inl (Throw ''unexpected end of tokens'') else Inr (t, ps1))"

definition require_token_of_type :: "token_type \<Rightarrow> parser \<Rightarrow> parse_stop + token \<times> parser" where
  "require_token_of_type tt ps = rbind (get_token ps) (\<lambda>(t, ps1).
     if tk_type t = NONE \<or> tk_type t \<noteq> tt then Inl (unexpected_token t tt) else Inr (t, ps1))"

definition is_param_end :: "token \<Rightarrow> parser \<Rightarrow> bool" where
  "is_param_end t ps = (if tk_type t = NONE then True
     else if tk_type t \<noteq> COMMA then False
     else \<not> within_parens ps)"

text \<open>Tokens as the lexer of the parser makes them: no dollar sign, and an identifier is one.\<close>

definition is_identifier :: "string \<Rightarrow> bool" where
  "is_identifier s \<longleftrightarrow> s \<noteq> [] \<and> is_ident_1st (hd s) \<and> (\<forall>c \<in> set s. is_ident_rest c)"

definition token_ok :: "token \<Rightarrow> bool" where
  "token_ok t \<longleftrightarrow> (tk_type t \<noteq> NONE \<longrightarrow> CHR ''$'' \<notin> set (as_str t)) \<and> (tk_type t = IDENTIFIER \<longrightarrow> is_identifier (tk_str t))"

lemma ident_rest_1st: "is_ident_1st c \<Longrightarrow> is_ident_rest c"
  by (auto simp: is_ident_1st_def is_ident_rest_def isalnum_def)

lemma no_dollar: "is_ident_rest c \<Longrightarrow> c \<noteq> CHR ''$''"
  by (auto simp: is_ident_rest_def char_class code_def)

lemma ident_loop_chars:
  "ident_loop ps acc = Inr (s, ps') \<Longrightarrow> \<exists>rest. s = acc @ rest \<and> (\<forall>c \<in> set rest. is_ident_rest c)"
proof (induction ps acc rule: ident_loop.induct)
  case (1 ps acc)
  show ?case
  proof (cases "get_char ps")
    case (Inr r)
    then obtain c ps1 where r: "get_char ps = Inr (c, ps1)" by (cases r) auto
    show ?thesis
      using "1.IH" [OF r refl] "1.prems" by (subst (asm) ident_loop.simps) (auto simp: r split: if_splits)
  qed (use "1.prems" in \<open>subst (asm) ident_loop.simps, simp\<close>)
qed

lemma number_loop_chars:
  "number_loop charset ps acc = Inr (s, ps') \<Longrightarrow> \<exists>rest. s = acc @ rest \<and> set rest \<subseteq> set charset"
proof (induction charset ps acc rule: number_loop.induct)
  case (1 charset ps acc)
  show ?case
  proof (cases "get_char ps")
    case (Inr r)
    then obtain c ps1 where r: "get_char ps = Inr (c, ps1)" by (cases r) auto
    show ?thesis
      using "1.IH" [OF r refl] "1.prems" by (subst (asm) number_loop.simps) (auto simp: r split: if_splits)
  qed (use "1.prems" in \<open>subst (asm) number_loop.simps, simp\<close>)
qed

lemma parse_identifier_ident:
  "parse_identifier c ps = Inr (s, ps') \<Longrightarrow> is_ident_1st c \<Longrightarrow> is_identifier s"
  by (auto simp: parse_identifier_def is_identifier_def ident_rest_1st dest!: ident_loop_chars)

lemma parse_number_no_dollar:
  assumes "parse_number c ps = Inr (s, ps')" "isdigit c"
  shows "CHR ''$'' \<notin> set s"
proof -
  have c: "c \<noteq> CHR ''$''" using assms(2) by (auto simp: isdigit_def code_def)
  have loop: "CHR ''$'' \<notin> set s" if "number_loop cs q acc = Inr (s, q')"
      "CHR ''$'' \<notin> set acc" "CHR ''$'' \<notin> set cs" for cs q acc q'
    using number_loop_chars [OF that(1)] that(2,3) by auto
  show ?thesis
  proof (cases "c = CHR ''0''")
    case True
    then obtain d ps1 where d: "get_char ps = Inr (d, ps1)"
      using assms(1) by (auto simp: parse_number_def)
    then consider "number_loop ''01'' ps1 [c, d] = Inr (s, ps')" "d = CHR ''b''"
      | "number_loop ''01234567'' ps1 [c, d] = Inr (s, ps')" "d \<in> set ''01234567''"
      | "number_loop ''0123456789ABCDEFabcdef'' ps1 [c, d] = Inr (s, ps')" "d = CHR ''x'' \<or> d = CHR ''X''"
      | "s = [c]"
      using assms(1) True unfolding parse_number_def
      by (simp only: rbind_simps if_True prod.case split: if_splits) blast+
    then show ?thesis
    proof cases
      case 1
      from loop [OF 1(1)] c 1(2) show ?thesis by simp
    next
      case 2
      from loop [OF 2(1)] c 2(2) show ?thesis by auto
    next
      case 3
      from loop [OF 3(1)] c 3(2) show ?thesis by auto
    qed (use c in simp)
  next
    case False
    then show ?thesis
      using assms(1) c by (intro loop [of "''0123456789''" ps "[c]" ps']) (simp_all add: parse_number_def)
  qed
qed

definition weight :: "parser \<Rightarrow> nat" where
  "weight ps = length (ps_in ps) + (if tk_type (ps_peeked ps) = NONE then 0 else 1)"

text \<open>A token is well formed, costs input, and leaves nothing peeked.\<close>

definition token_good :: "parser \<Rightarrow> parse_stop + token \<times> parser \<Rightarrow> bool" where
  "token_good ps r \<longleftrightarrow> r \<noteq> Inl Assertion \<and> r \<noteq> Inl Out_of_range \<and>
     (\<forall>t ps'. r = Inr (t, ps') \<longrightarrow> token_ok t \<and> tk_type (ps_peeked ps') = NONE \<and>
        weight ps' + (if tk_type t = NONE then 0 else 1) \<le> weight ps)"

lemma token_good_no_longer:
  assumes "no_longer ps1 ps" "token_good ps1 r"
  shows "token_good ps r"
  using assms by (fastforce simp: token_good_def no_longer_def weight_def)

lemma good_InrD: "good ps r out \<Longrightarrow> r = Inr a \<Longrightarrow> no_longer (out a) ps"
  by (simp add: good_def)

lemma good_InlD: "good ps r out \<Longrightarrow> r = Inl e \<Longrightarrow> e \<noteq> Assertion \<and> e \<noteq> Out_of_range"
  by (simp add: good_def)

lemma token_good_Inr:
  assumes "no_longer ps' ps1" "get_char ps = Inr (c, ps1)" "c \<noteq> NUL" "token_ok t"
    "tk_type (ps_peeked ps) = NONE"
  shows "token_good ps (Inr (t, ps'))"
  using assms get_char_shorter(1,3) [OF assms(2)] by (simp add: token_good_def weight_def no_longer_def)

lemma tt_char_dollar: "tt_char tt \<noteq> CHR ''$''"
  by (cases tt; hypsubst; code_simp)

lemma token_of_char_ok:
  assumes "c \<in> set ''/&:,.=<[(>])*''"
  obtains t where "token_of_char c = Inr t" "token_ok t" "tk_type t \<noteq> NONE"
proof -
  have "\<exists>t. token_of_char c = Inr t \<and> token_ok t \<and> tk_type t \<noteq> NONE"
    using assms
    by (auto simp: token_of_char_def tt_all_def token_ctor_def tt_class token_ok_def as_str_def code_def
        tt_char_dollar [symmetric])
  then show ?thesis using that by blast
qed

lemma token_loop_good:
  assumes "tk_type (ps_peeked ps) = NONE"
  shows "token_good ps (token_loop ps)"
  using assms
proof (induction ps rule: token_loop.induct)
  case (1 ps)
  show ?case
  proof (cases "get_char ps")
    case (Inl e)
    then show ?thesis
      using good_InlD [OF good_get_char Inl] by (subst token_loop.simps) (simp add: token_good_def)
  next
    case (Inr r)
    then obtain c ps1 where r: "get_char ps = Inr (c, ps1)" by (cases r) auto
    have nl: "no_longer ps1 ps" by (rule get_char_no_longer [OF r])
    then have pk: "tk_type (ps_peeked ps1) = NONE"
      using "1.prems" by (simp add: no_longer_def)
    have tail: "token_good ps (token_loop q)" if "token_good q (token_loop q)" "no_longer q ps1" for q
      using token_good_no_longer [OF no_longer_trans [OF that(2) nl] that(1)] .
    consider "c = NUL" | "c \<noteq> NUL" "isspace c" | "c \<noteq> NUL" "\<not> isspace c" "is_ident_1st c"
      | "c \<noteq> NUL" "\<not> isspace c" "\<not> is_ident_1st c" "isdigit c"
      | "c \<noteq> NUL" "\<not> isspace c" "\<not> is_ident_1st c" "\<not> isdigit c" "c = CHR ''/''"
      | "c \<noteq> NUL" "\<not> isspace c" "\<not> is_ident_1st c" "\<not> isdigit c" "c \<noteq> CHR ''/''" "c \<in> set ''&:,.=<[(>])*''"
      | "c \<noteq> NUL" "\<not> isspace c" "\<not> is_ident_1st c" "\<not> isdigit c" "c \<noteq> CHR ''/''" "c \<notin> set ''&:,.=<[(>])*''"
      by blast
    then show ?thesis
    proof cases
      case 1
      have "token_good ps (Inr (\<lparr>tk_str = [], tk_type = NONE\<rparr>, ps1))"
        using nl "1.prems" by (simp add: token_good_def token_ok_def weight_def no_longer_def)
      with 1 show ?thesis
        by (subst token_loop.simps) (simp add: r token_ctor_def tt_class)
    next
      case 2
      have "token_good ps1 (token_loop ps1)"
        using "1.IH"(1) [OF r refl] 2 pk by simp
      from tail [OF this] 2 show ?thesis
        by (subst token_loop.simps) (simp add: r)
    next
      case 3
      then show ?thesis
      proof (cases "parse_identifier c ps1")
        case (Inl e)
        then show ?thesis
          using good_InlD [OF parse_identifier_good Inl] 3 by (subst token_loop.simps) (simp add: r token_good_def)
      next
        case (Inr a)
        then obtain s ps2 where a: "parse_identifier c ps1 = Inr (s, ps2)" by (cases a) auto
        have "token_ok \<lparr>tk_str = s, tk_type = IDENTIFIER\<rparr>"
          using parse_identifier_ident [OF a 3(3)] no_dollar
          by (auto simp: token_ok_def as_str_def tt_class is_identifier_def)
        then show ?thesis
          using token_good_Inr [OF _ r 3(1) _ "1.prems"] good_InrD [OF parse_identifier_good a] 3
          by (subst token_loop.simps) (simp add: r a token_str_ctor_def tt_class)
      qed
    next
      case 4
      then show ?thesis
      proof (cases "parse_number c ps1")
        case (Inl e)
        then show ?thesis
          using good_InlD [OF parse_number_good Inl] 4 by (subst token_loop.simps) (simp add: r token_good_def)
      next
        case (Inr a)
        then obtain s ps2 where a: "parse_number c ps1 = Inr (s, ps2)" by (cases a) auto
        have "token_ok \<lparr>tk_str = s, tk_type = NUMBER\<rparr>"
          using parse_number_no_dollar [OF a 4(4)] by (simp add: token_ok_def as_str_def tt_class)
        then show ?thesis
          using token_good_Inr [OF _ r 4(1) _ "1.prems"] good_InrD [OF parse_number_good a] 4
          by (subst token_loop.simps) (simp add: r a token_str_ctor_def tt_class)
      qed
    next
      case 5
      then show ?thesis
      proof (cases "get_char ps1")
        case (Inl e)
        then show ?thesis
          using good_InlD [OF good_get_char Inl] 5 by (subst token_loop.simps) (simp add: r token_good_def)
      next
        case (Inr a)
        then obtain c2 ps2 where a: "get_char ps1 = Inr (c2, ps2)" by (cases a) auto
        show ?thesis
        proof (cases "c2 = NUL")
          case True
          obtain t where t: "token_of_char c = Inr t" "token_ok t" "tk_type t \<noteq> NONE"
            using token_of_char_ok [of c] 5(5) by auto
          show ?thesis
            using token_good_Inr [OF get_char_no_longer [OF a] r 5(1) t(2) "1.prems"] 5 True t(1)
            by (subst token_loop.simps) (simp add: r a)
        next
          case False
          note pc = parse_comment_good [OF a False]
          show ?thesis
          proof (cases "parse_comment c2 ps2")
            case (Inl e)
            then show ?thesis
              using good_InlD [OF pc Inl] 5 False by (subst token_loop.simps) (simp add: r a token_good_def)
          next
            case (Inr ps3)
            have n3: "no_longer ps3 ps1" using good_InrD [OF pc Inr] .
            have "token_good ps3 (token_loop ps3)"
              using "1.IH"(2) [OF r refl _ _ _ _ _ a refl _ Inr] 5 False n3 pk by (simp add: no_longer_def)
            from tail [OF this n3] 5 False Inr show ?thesis
              by (subst token_loop.simps) (simp add: r a)
          qed
        qed
      qed
    next
      case 6
      obtain t where t: "token_of_char c = Inr t" "token_ok t" "tk_type t \<noteq> NONE"
        using token_of_char_ok [of c] 6(6) by auto
      show ?thesis
        using token_good_Inr [OF no_longer_refl r 6(1) t(2) "1.prems"] 6 t(1)
        by (subst token_loop.simps) (simp add: r del: list.set)
    next
      case 7
      have "token_good ps1 (token_loop ps1)"
        using "1.IH"(3) [OF r refl] 7 pk by (simp del: list.set)
      from tail [OF this] 7 show ?thesis
        by (subst token_loop.simps) (simp add: r del: list.set)
    qed
  qed
qed

lemma get_token_good: "token_ok (ps_peeked ps) \<Longrightarrow> token_good ps (get_token ps)"
  using token_loop_good [of ps]
  by (auto simp: get_token_def token_move_def, auto simp: token_good_def weight_def)

section \<open>Parameters\<close>

text \<open>What the loops of the two parsers keep: the pieces of the declaration, whether a closing
  parenthesis was seen, and the index of the name.\<close>

type_synonym decl_state = "string list \<times> bool \<times> nat"

definition cpp_decl_step :: "token_type \<Rightarrow> token_type \<Rightarrow> decl_state \<Rightarrow> decl_state" where
  "cpp_decl_step tt tt_prev st = (case st of (decl, found_rparen, name_index) \<Rightarrow>
     if tt = IDENTIFIER then
       (let d = (if tt_prev = IDENTIFIER \<or> tt_prev = RANGLE then decl @ ['' ''] else decl)
        in (d, found_rparen, if \<not> found_rparen then length d else name_index))
     else if tt = AMPER \<and> tt_prev = RANGLE then (decl @ ['' ''], found_rparen, name_index)
     else if tt = AMPER \<or> tt = LPAREN \<or> tt = STAR then
       (if is_punct tt \<noteq> is_punct tt_prev then decl @ ['' ''] else decl, found_rparen, name_index)
     else if tt = RPAREN then (decl, True, name_index)
     else st)"

definition java_decl_step :: "token_type \<Rightarrow> token_type \<Rightarrow> decl_state \<Rightarrow> decl_state" where
  "java_decl_step tt tt_prev st = (case st of (decl, found_rparen, name_index) \<Rightarrow>
     if tt = IDENTIFIER then
       (let d = (if tt_prev = IDENTIFIER \<or> tt_prev = RBRACKET then decl @ ['' ''] else decl)
        in (d, found_rparen, length d))
     else st)"

definition push_token :: "token \<Rightarrow> decl_state \<Rightarrow> decl_state" where
  "push_token t st = (case st of (decl, found_rparen, name_index) \<Rightarrow>
     (decl @ [as_str t] @ (if tk_type t = COMMA then ['' ''] else []), found_rparen, name_index))"

datatype lang = Lang_none | Lang_cpp | Lang_java

definition decl_step :: "lang \<Rightarrow> token_type \<Rightarrow> token_type \<Rightarrow> decl_state \<Rightarrow> decl_state" where
  "decl_step l = (if l = Lang_java then java_decl_step else cpp_decl_step)"

text \<open>The \<^verbatim>\<open>while\<close> loop both \<^verbatim>\<open>parse_param_\<close> have.  The bound is the weight of the parser:
  a token that does not end the parameter was read from it.\<close>

fun decl_loop :: "nat \<Rightarrow> lang \<Rightarrow> token \<Rightarrow> parser \<Rightarrow> token_type \<Rightarrow> decl_state \<Rightarrow> parse_stop + decl_state \<times> parser" where
  "decl_loop n l t ps tt_prev st = (if is_param_end t ps then Inr (st, ps)
     else (case n of
       0 \<Rightarrow> Inl Out_of_range
     | Suc n' \<Rightarrow> rbind (get_token ps) (\<lambda>(t', ps').
         decl_loop n' l t' ps' (tk_type t) (push_token t (decl_step l (tk_type t) tt_prev st)))))"

declare decl_loop.simps [simp del]

definition make_param :: "decl_state \<Rightarrow> parse_stop + fn_param option" where
  "make_param st = (case st of (decl, _, name_index) \<Rightarrow>
     if name_index > 0 then
       (if name_index < length decl
        then Inr (Some \<lparr> fp_line_no = 0, fp_decl = concat (decl[name_index := ''$'']), fp_name = decl ! name_index \<rparr>)
        else Inl Out_of_range)
     else Inr None)"

definition parse_param :: "lang \<Rightarrow> parser \<Rightarrow> parse_stop + fn_param option \<times> parser" where
  "parse_param l ps = rbind (get_token_of_type IDENTIFIER ps) (\<lambda>(t, ps1).
     if tk_type t = NONE then Inr (None, ps1)
     else rbind (token_get_str t) (\<lambda>s. rbind (require_token ps1) (\<lambda>(t2, ps2).
       rbind (decl_loop (Suc (weight ps2)) l t2 ps2 (tk_type t) ([s], False, 0)) (\<lambda>(st, ps3).
         rbind (make_param st) (\<lambda>p. Inr (p, ps3))))))"

fun params_loop :: "nat \<Rightarrow> lang \<Rightarrow> parser \<Rightarrow> fn_param list \<Rightarrow> parse_stop + fn_param list \<times> parser" where
  "params_loop n l ps params = rbind (parse_param l ps) (\<lambda>(p, ps1). case p of
       None \<Rightarrow> Inr (params, ps1)
     | Some param \<Rightarrow> (case n of
         0 \<Rightarrow> Inl Out_of_range
       | Suc n' \<Rightarrow> params_loop n' l ps1 (params @ [param])))"

declare params_loop.simps [simp del]

definition parse_param_list :: "lang \<Rightarrow> parser \<Rightarrow> parse_stop + fn_param list" where
  "parse_param_list l ps = rbind (get_token_if_type LPAREN (parser_clear ps)) (\<lambda>(t, ps1).
     let ps2 = ps1 \<lparr> ps_lparen := (tk_type t \<noteq> NONE) \<rparr> in
     rbind (params_loop (weight ps2) l ps2 []) (\<lambda>(params, ps3).
       if ps_parens ps3 \<noteq> [] then Inl (unexpected_token none_token NONE) else Inr params))"

text \<open>\<^verbatim>\<open>lang_parser::create\<close>: an unknown language is an internal error.\<close>

definition parser_create :: "lang \<Rightarrow> string \<Rightarrow> parser option" where
  "parser_create l inp = (if l = Lang_none then None else Some (parser_ctor inp))"

text \<open>No piece holds a dollar sign and the piece at the index of the name is an identifier.\<close>

definition decl_ok :: "decl_state \<Rightarrow> bool" where
  "decl_ok st \<longleftrightarrow> (case st of (decl, _, name_index) \<Rightarrow> decl \<noteq> [] \<and> (\<forall>s \<in> set decl. CHR ''$'' \<notin> set s) \<and>
     (name_index > 0 \<longrightarrow> name_index < length decl \<and> is_identifier (decl ! name_index)))"

lemma decl_step_ok:
  assumes "decl_ok st" "token_ok t" "tk_type t \<noteq> NONE"
  shows "decl_ok (push_token t (decl_step l (tk_type t) tt_prev st))"
proof -
  obtain decl found ni where st: "st = (decl, found, ni)" by (cases st)
  have ok: "decl \<noteq> []" "\<forall>s \<in> set decl. CHR ''$'' \<notin> set s" "CHR ''$'' \<notin> set (as_str t)"
    "ni > 0 \<Longrightarrow> ni < length decl" "ni > 0 \<Longrightarrow> is_identifier (decl ! ni)"
    using assms by (auto simp: st decl_ok_def token_ok_def)
  have id: "tk_type t = IDENTIFIER \<Longrightarrow> is_identifier (as_str t)"
    using assms(2) by (simp add: token_ok_def as_str_def tt_class)
  have old: "ni > 0 \<Longrightarrow> ni < length (decl @ xs) \<and> is_identifier ((decl @ xs) ! ni)" for xs
    using ok(4,5) by (simp add: nth_append)
  show ?thesis
  proof (cases "tk_type t = IDENTIFIER")
    case True
    then show ?thesis
      using ok id old
      by (auto simp: st decl_ok_def push_token_def decl_step_def cpp_decl_step_def java_decl_step_def Let_def
          nth_append)
  next
    case False
    then show ?thesis
      using ok old
      by (auto simp: st decl_ok_def push_token_def decl_step_def cpp_decl_step_def java_decl_step_def)
  qed
qed

lemma token_goodD:
  assumes "token_good ps r" "r = Inr (t, ps')"
  shows "token_ok t" "tk_type (ps_peeked ps') = NONE" "weight ps' \<le> weight ps"
    "tk_type t \<noteq> NONE \<Longrightarrow> weight ps' < weight ps" "token_ok (ps_peeked ps')"
  using assms by (auto simp: token_good_def token_ok_def split: if_splits)

lemma token_good_InlD: "token_good ps r \<Longrightarrow> r = Inl e \<Longrightarrow> e \<noteq> Assertion \<and> e \<noteq> Out_of_range"
  by (simp add: token_good_def)

text \<open>A run that does not fail an assertion, and what it leaves.\<close>

definition safe :: "parse_stop + 'a \<Rightarrow> ('a \<Rightarrow> bool) \<Rightarrow> bool" where
  "safe r Q \<longleftrightarrow> r \<noteq> Inl Assertion \<and> r \<noteq> Inl Out_of_range \<and> wlp r Q"

lemma safe_simps [simp]:
  "safe (Inr a) Q = Q a" "safe (Inl e) Q \<longleftrightarrow> e \<noteq> Assertion \<and> e \<noteq> Out_of_range"
  by (simp_all add: safe_def)

lemma safe_rbind: "safe r (\<lambda>a. safe (f a) Q) \<Longrightarrow> safe (rbind r f) Q"
  by (cases r) simp_all

lemma safe_mono: "safe r P \<Longrightarrow> (\<And>a. P a \<Longrightarrow> Q a) \<Longrightarrow> safe r Q"
  by (cases r) simp_all

lemma get_token_safe:
  assumes "token_ok (ps_peeked ps)"
  shows "safe (get_token ps) (\<lambda>(t, ps'). token_ok t \<and> token_ok (ps_peeked ps') \<and> tk_type (ps_peeked ps') = NONE \<and>
    weight ps' \<le> weight ps \<and> (tk_type t \<noteq> NONE \<longrightarrow> weight ps' < weight ps))"
  using token_goodD [OF get_token_good [OF assms]] token_good_InlD [OF get_token_good [OF assms]]
  by (cases "get_token ps") auto

lemma decl_loop_safe:
  assumes "token_ok t" "token_ok (ps_peeked ps)" "decl_ok st"
    "(if tk_type t = NONE then 0 else Suc (weight ps)) \<le> n"
  shows "safe (decl_loop n l t ps tt_prev st) (\<lambda>(st', ps').
    decl_ok st' \<and> token_ok (ps_peeked ps') \<and> weight ps' \<le> weight ps)"
  using assms
proof (induction n arbitrary: t ps tt_prev st)
  case 0
  then show ?case
    by (subst decl_loop.simps) (simp add: is_param_end_def split: if_splits)
next
  case (Suc n)
  show ?case
  proof (cases "is_param_end t ps")
    case True
    then show ?thesis
      using Suc.prems by (subst decl_loop.simps) simp
  next
    case False
    then have t: "tk_type t \<noteq> NONE" by (auto simp: is_param_end_def)
    let ?st = "push_token t (decl_step l (tk_type t) tt_prev st)"
    have "safe (get_token ps) (\<lambda>(t', ps'). safe (decl_loop n l t' ps' (tk_type t) ?st)
        (\<lambda>(st', ps'). decl_ok st' \<and> token_ok (ps_peeked ps') \<and> weight ps' \<le> weight ps))"
      using Suc.prems t decl_step_ok [OF Suc.prems(3,1) t]
      by (intro safe_mono [OF get_token_safe]) (auto intro!: safe_mono [OF Suc.IH])
    then show ?thesis
      using False by (subst decl_loop.simps) (auto intro!: safe_rbind simp: case_prod_beta')
  qed
qed

text \<open>A parsed parameter: its declaration with a dollar sign where its name was.\<close>

definition param_ok :: "fn_param \<Rightarrow> bool" where
  "param_ok p \<longleftrightarrow> is_identifier (fp_name p) \<and> (\<exists>before after. fp_decl p = before @ ''$'' @ after
     \<and> CHR ''$'' \<notin> set before \<and> CHR ''$'' \<notin> set after)"

lemma make_param_safe:
  assumes "decl_ok st"
  shows "safe (make_param st) (\<lambda>p. \<forall>q. p = Some q \<longrightarrow> param_ok q)"
proof -
  obtain decl found ni where st: "st = (decl, found, ni)" by (cases st)
  have "concat (decl[ni := ''$'']) = concat (take ni decl) @ ''$'' @ concat (drop (Suc ni) decl)" if "ni < length decl"
    using that by (simp add: upd_conv_take_nth_drop)
  moreover have "CHR ''$'' \<notin> set (concat (take ni decl))" "CHR ''$'' \<notin> set (concat (drop (Suc ni) decl))"
    using assms by (auto simp: st decl_ok_def dest: in_set_takeD in_set_dropD)
  ultimately have "\<exists>before after. concat (decl[ni := ''$'']) = before @ ''$'' @ after
     \<and> CHR ''$'' \<notin> set before \<and> CHR ''$'' \<notin> set after" if "ni < length decl"
    using that by blast
  then show ?thesis
    using assms by (auto simp: st make_param_def decl_ok_def param_ok_def)
qed

lemma unexpected_token_safe: "tk_type t \<noteq> tt \<or> tk_type t = NONE \<Longrightarrow>
    unexpected_token t tt \<noteq> Assertion \<and> unexpected_token t tt \<noteq> Out_of_range"
  by (simp add: unexpected_token_def)

lemma get_token_of_type_safe:
  assumes "token_ok (ps_peeked ps)"
  shows "safe (get_token_of_type tt ps) (\<lambda>(t, ps'). token_ok t \<and> token_ok (ps_peeked ps') \<and>
    (tk_type t = NONE \<or> tk_type t = tt) \<and> weight ps' \<le> weight ps \<and> (tk_type t \<noteq> NONE \<longrightarrow> weight ps' < weight ps))"
  unfolding get_token_of_type_def
  by (rule safe_rbind, rule safe_mono [OF get_token_safe [OF assms]]) (auto simp: unexpected_token_safe)

lemma require_token_safe:
  assumes "token_ok (ps_peeked ps)"
  shows "safe (require_token ps) (\<lambda>(t, ps'). token_ok t \<and> token_ok (ps_peeked ps') \<and> weight ps' < weight ps)"
  unfolding require_token_def
  by (rule safe_rbind, rule safe_mono [OF get_token_safe [OF assms]]) auto

lemma parse_param_safe:
  assumes "token_ok (ps_peeked ps)"
  shows "safe (parse_param l ps) (\<lambda>(p, ps'). token_ok (ps_peeked ps') \<and>
    (\<forall>q. p = Some q \<longrightarrow> param_ok q \<and> weight ps' < weight ps))"
proof -
  have step: "safe (rbind (token_get_str t) (\<lambda>s. rbind (require_token ps1) (\<lambda>(t2, ps2).
       rbind (decl_loop (Suc (weight ps2)) l t2 ps2 IDENTIFIER ([s], False, 0)) (\<lambda>(st, ps3).
         rbind (make_param st) (\<lambda>p. Inr (p, ps3))))))
      (\<lambda>(p, ps'). token_ok (ps_peeked ps') \<and> (\<forall>q. p = Some q \<longrightarrow> param_ok q \<and> weight ps' < weight ps))"
    if t: "token_ok t" "tk_type t = IDENTIFIER" and ps1: "token_ok (ps_peeked ps1)" "weight ps1 < weight ps" for t ps1
  proof -
    have s: "token_get_str t = Inr (tk_str t)" "decl_ok ([tk_str t], False, 0)"
      using t by (simp_all add: token_get_str_def tt_class decl_ok_def token_ok_def as_str_def)
    have loop: "safe (rbind (decl_loop (Suc (weight ps2)) l t2 ps2 IDENTIFIER ([tk_str t], False, 0)) (\<lambda>(st, ps3).
         rbind (make_param st) (\<lambda>p. Inr (p, ps3))))
       (\<lambda>(p, ps'). token_ok (ps_peeked ps') \<and> (\<forall>q. p = Some q \<longrightarrow> param_ok q \<and> weight ps' < weight ps))"
      if "token_ok t2" "token_ok (ps_peeked ps2)" "weight ps2 < weight ps1" for t2 ps2
    proof (rule safe_rbind, rule safe_mono [OF decl_loop_safe [OF that(1,2) s(2)]])
      fix a assume a: "case a of (st', ps') \<Rightarrow> decl_ok st' \<and> token_ok (ps_peeked ps') \<and> weight ps' \<le> weight ps2"
      obtain st ps3 where [simp]: "a = (st, ps3)" by (cases a)
      show "safe (case a of (st, ps3) \<Rightarrow> rbind (make_param st) (\<lambda>p. Inr (p, ps3)))
         (\<lambda>(p, ps'). token_ok (ps_peeked ps') \<and> (\<forall>q. p = Some q \<longrightarrow> param_ok q \<and> weight ps' < weight ps))"
        using a ps1(2) that(3) by (auto intro!: safe_rbind safe_mono [OF make_param_safe])
    qed simp
    show ?thesis
      unfolding s(1) rbind_simps
      by (rule safe_rbind, rule safe_mono [OF require_token_safe [OF ps1(1)]]) (auto intro: loop)
  qed
  show ?thesis
    unfolding parse_param_def
    by (rule safe_rbind, rule safe_mono [OF get_token_of_type_safe [OF assms]]) (auto intro!: step)
qed

lemma params_loop_safe:
  assumes "token_ok (ps_peeked ps)" "weight ps \<le> n" "\<forall>p \<in> set params. param_ok p"
  shows "safe (params_loop n l ps params) (\<lambda>(ps', _). \<forall>p \<in> set ps'. param_ok p)"
  using assms
proof (induction n arbitrary: ps params)
  case 0
  show ?case
    by (subst params_loop.simps, rule safe_rbind, rule safe_mono [OF parse_param_safe [OF 0(1)]])
      (use 0 in \<open>auto split: option.split\<close>)
next
  case (Suc n)
  show ?case
    by (subst params_loop.simps, rule safe_rbind, rule safe_mono [OF parse_param_safe [OF Suc.prems(1)]])
      (use Suc.prems in \<open>auto split: option.split intro!: Suc.IH\<close>)
qed

definition has_token :: "parser \<Rightarrow> bool" where
  "has_token ps \<longleftrightarrow> (\<forall>t ps'. get_token (parser_clear ps) = Inr (t, ps') \<longrightarrow> tk_type t \<noteq> NONE)"

lemma parser_clear_peeked [simp]: "tk_type (ps_peeked (parser_clear ps)) = NONE" "token_ok (ps_peeked (parser_clear ps))"
  by (simp_all add: parser_clear_def token_clear_def token_ok_def)

lemma get_token_if_type_safe:
  assumes "has_token ps"
  shows "safe (get_token_if_type tt (parser_clear ps)) (\<lambda>(t, ps'). token_ok (ps_peeked ps'))"
proof (cases "get_token (parser_clear ps)")
  case (Inr a)
  then obtain t ps' where a: "get_token (parser_clear ps) = Inr (t, ps')" by (cases a) auto
  have t: "tk_type t \<noteq> NONE" using assms a by (simp add: has_token_def)
  show ?thesis
    using token_goodD [OF get_token_good a] t by (simp add: get_token_if_type_def a unget_token_def)
qed (use get_token_safe [of "parser_clear ps"] in \<open>simp add: get_token_if_type_def\<close>)

lemma parse_param_list_safe:
  assumes "has_token ps"
  shows "safe (parse_param_list l ps) (\<lambda>params. \<forall>p \<in> set params. param_ok p)"
  unfolding parse_param_list_def Let_def
proof (rule safe_rbind, rule safe_mono [OF get_token_if_type_safe [OF assms]], clarify, rule safe_rbind)
  fix t and ps1 :: parser assume "token_ok (ps_peeked ps1)"
  then have ok: "token_ok (ps_peeked (ps1 \<lparr> ps_lparen := (tk_type t \<noteq> NONE) \<rparr>))" by simp
  show "safe (params_loop (weight (ps1 \<lparr> ps_lparen := (tk_type t \<noteq> NONE) \<rparr>)) l (ps1 \<lparr> ps_lparen := (tk_type t \<noteq> NONE) \<rparr>) [])
      (\<lambda>a. safe (case a of (params, ps3) \<Rightarrow> if ps_parens ps3 \<noteq> [] then Inl (unexpected_token none_token NONE) else Inr params)
        (\<lambda>params. \<forall>p \<in> set params. param_ok p))"
    by (rule safe_mono [OF params_loop_safe [OF ok order_refl]])
      (auto simp: unexpected_token_safe none_token_def)
qed

text \<open>On an input without a token the assertion of \<^verbatim>\<open>unget_token_\<close> fails.\<close>

lemma parse_nothing: "parse_param_list Lang_cpp (parser_ctor '' '') = Inl Assertion"
  by code_simp

lemma param_lists_example:
  "case parse_param_list Lang_cpp (parser_ctor ''(int x, char const *s)'') of
     Inl _ \<Rightarrow> False | Inr params \<Rightarrow> map fp_name params = [''x'', ''s'']"
  by code_simp

text \<open>A C comment swallows the rest of the list.\<close>

lemma parse_after_comment:
  "parse_param_list Lang_cpp (parser_ctor ''(int x, /* y */ int y)'')
    = Inr [\<lparr> fp_line_no = 0, fp_decl = ''int $'', fp_name = ''x'' \<rparr>]"
  "parse_param_list Lang_cpp (parser_ctor ''(int x, int y)'')
    = Inr [\<lparr> fp_line_no = 0, fp_decl = ''int $'', fp_name = ''x'' \<rparr>,
           \<lparr> fp_line_no = 0, fp_decl = ''int $'', fp_name = ''y'' \<rparr>]"
  by code_simp+

end
