(* ===== verification/Chsmc_Output.thy ===== *)
theory Chsmc_Output
  imports Chsmc_Checks Chsmc_Parser
begin

text \<open>
  What the code generators write with: separators (\<^verbatim>\<open>chsmc/list_sep.h\<close>), indentation
  (\<^verbatim>\<open>indent.h\<close>), the target file with its line counter (\<^verbatim>\<open>file.h\<close>, \<^verbatim>\<open>T_ENDL\<close> of
  \<^verbatim>\<open>chsm_compiler.h\<close>), string building (\<^verbatim>\<open>string_builder.h\<close>) and parameter lists
  (\<^verbatim>\<open>param_data.h\<close>, \<^verbatim>\<open>param_data.cpp\<close>, \<^verbatim>\<open>user_event_info.h\<close>).  A chain of insertions
  into one stream is a list of items; the stream interprets it.  A buffer overflow, a null
  dereference and a failing \<^verbatim>\<open>assert\<close> are \<open>Inl Crash\<close>.
\<close>

section \<open>Separators and string building\<close>

record list_sep =
  ls_print :: bool
  ls_sep :: string

definition list_sep_ctor :: "string \<Rightarrow> list_sep" where
  "list_sep_ctor sep = \<lparr> ls_print = False, ls_sep = sep \<rparr>"

definition list_sep_print :: "list_sep \<Rightarrow> list_sep" where
  "list_sep_print s = s \<lparr> ls_print := True \<rparr>"

definition list_sep_reset :: "list_sep \<Rightarrow> list_sep" where
  "list_sep_reset s = s \<lparr> ls_print := False \<rparr>"

definition list_sep_emit :: "list_sep \<Rightarrow> string \<times> list_sep" where
  "list_sep_emit s = (if ls_print s then (ls_sep s, s) else ([], list_sep_print s))"

text \<open>Inserting the separator before every element: the comment of the class.\<close>

fun sep_list :: "list_sep \<Rightarrow> string list \<Rightarrow> string" where
  "sep_list s [] = []"
| "sep_list s (x # xs) = (case list_sep_emit s of (t, s') \<Rightarrow> t @ x @ sep_list s' xs)"

fun separated :: "string \<Rightarrow> string list \<Rightarrow> string" where
  "separated sep [] = []"
| "separated sep [x] = x"
| "separated sep (x # y # ys) = x @ sep @ separated sep (y # ys)"

lemma sep_list_printed: "ls_print s \<Longrightarrow> sep_list s xs = concat (map (\<lambda>x. ls_sep s @ x) xs)"
  by (induction xs) (simp_all add: list_sep_emit_def)

lemma sep_list_separated: "sep_list (list_sep_ctor sep) xs = separated sep xs"
proof (cases xs)
  case (Cons x ys)
  have "concat (map (\<lambda>z. sep @ z) ys) = (if ys = [] then [] else sep @ separated sep ys)"
    by (induction ys rule: separated.induct [of _ sep]) simp_all
  moreover have "separated sep (x # ys) = x @ (if ys = [] then [] else sep @ separated sep ys)"
    by (cases ys) simp_all
  ultimately show ?thesis
    by (simp add: Cons list_sep_ctor_def list_sep_emit_def list_sep_print_def sep_list_printed)
qed simp

text \<open>\<^verbatim>\<open>string_builder\<close>: assignment clears, insertion and the comma operator append.\<close>

definition builder_assign :: "string \<Rightarrow> string \<Rightarrow> string" where
  "builder_assign t oss = [] @ t"

definition builder_append :: "string \<Rightarrow> string \<Rightarrow> string" where
  "builder_append t oss = oss @ t"

definition build_string :: "string list \<Rightarrow> string" where
  "build_string args = fold builder_append args []"

lemma build_string_concat: "build_string args = concat args"
proof -
  have "fold builder_append args acc = acc @ concat args" for acc
    by (induction args arbitrary: acc) (simp_all add: builder_append_def)
  then show ?thesis by (simp add: build_string_def)
qed

section \<open>Streams with indentation\<close>

record ostream =
  os_text :: string
  oi_amount :: nat
  oi_scale :: nat
  oi_char :: char

definition ostream_ctor :: ostream where
  "ostream_ctor = \<lparr> os_text = [], oi_amount = 0, oi_scale = 1, oi_char = CHR 0x09 \<rparr>"

definition inc :: "nat \<Rightarrow> ostream \<Rightarrow> ostream" where
  "inc amount os = os \<lparr> oi_amount := oi_amount os + amount \<rparr>"

definition dec :: "nat \<Rightarrow> ostream \<Rightarrow> ostream" where
  "dec amount os = os \<lparr> oi_amount := oi_amount os - (if amount \<le> oi_amount os then amount else oi_amount os) \<rparr>"

definition get_indent :: "ostream \<Rightarrow> nat" where
  "get_indent os = oi_amount os"

definition set_indent :: "nat \<Rightarrow> ostream \<Rightarrow> ostream" where
  "set_indent amount os = os \<lparr> oi_amount := amount \<rparr>"

definition put_text :: "string \<Rightarrow> ostream \<Rightarrow> ostream" where
  "put_text t os = os \<lparr> os_text := os_text os @ t \<rparr>"

definition indent :: "nat \<Rightarrow> ostream \<Rightarrow> stop + ostream" where
  "indent count os = (if count = 0 then Inl Crash
     else let width = oi_amount os * oi_scale os
       in Inr (put_text (replicate (width + width * (count - 1)) (oi_char os)) os))"

definition get_indent_char :: "ostream \<Rightarrow> char" where
  "get_indent_char os = oi_char os"

definition set_indent_char :: "char \<Rightarrow> ostream \<Rightarrow> ostream" where
  "set_indent_char c os = os \<lparr> oi_char := c \<rparr>"

definition get_scale :: "ostream \<Rightarrow> nat" where
  "get_scale os = oi_scale os"

definition set_scale :: "nat \<Rightarrow> ostream \<Rightarrow> ostream" where
  "set_scale scale os = os \<lparr> oi_scale := scale \<rparr>"

lemma indent_width:
  assumes "0 < count"
  shows "indent count os = Inr (put_text (replicate (count * (oi_amount os * oi_scale os)) (oi_char os)) os)"
proof -
  obtain k where "count = Suc k" using assms by (cases count) auto
  then show ?thesis by (simp add: indent_def Let_def mult.commute)
qed

lemma dec_inc: "dec amount (inc amount os) = os"
  by (simp add: inc_def dec_def)

section \<open>The target file\<close>

record target_file =
  tg_out :: ostream
  tg_line_no :: nat

definition target_ctor :: target_file where
  "target_ctor = \<lparr> tg_out = ostream_ctor, tg_line_no = 1 \<rparr>"

text \<open>What a chain of \<^verbatim>\<open><<\<close> inserts: text, the macro \<^verbatim>\<open>T_ENDL\<close>, indentation and its
  changes.\<close>

datatype item = Txt string | Endl | Ind nat | Inc | Dec

fun put_item :: "item \<Rightarrow> target_file \<Rightarrow> stop + target_file" where
  "put_item (Txt t) tg = Inr (tg \<lparr> tg_out := put_text t (tg_out tg) \<rparr>)"
| "put_item Endl tg = Inr (tg \<lparr> tg_line_no := tg_line_no tg + 1, tg_out := put_text [CHR 0x0A] (tg_out tg) \<rparr>)"
| "put_item (Ind n) tg = rbind (indent n (tg_out tg)) (\<lambda>os. Inr (tg \<lparr> tg_out := os \<rparr>))"
| "put_item Inc tg = Inr (tg \<lparr> tg_out := inc 1 (tg_out tg) \<rparr>)"
| "put_item Dec tg = Inr (tg \<lparr> tg_out := dec 1 (tg_out tg) \<rparr>)"

definition put :: "item list \<Rightarrow> target_file \<Rightarrow> stop + target_file" where
  "put items = iter_res put_item items"

type_synonym outp = "stop + item list"

text \<open>Sequencing what several statements insert; the first failure wins.\<close>

fun cat :: "outp list \<Rightarrow> outp" where
  "cat [] = Inr []"
| "cat (r # rs) = rbind r (\<lambda>xs. rbind (cat rs) (\<lambda>ys. Inr (xs @ ys)))"

definition tx :: "string \<Rightarrow> outp" where "tx s = Inr [Txt s]"
definition endl :: outp where "endl = Inr [Endl]"
definition ind :: "nat \<Rightarrow> outp" where "ind n = Inr [Ind n]"
definition nothing :: outp where "nothing = Inr []"

lemma cat_Inr: "cat rs = Inr xs \<Longrightarrow> \<forall>r \<in> set rs. \<exists>ys. r = Inr ys"
  by (induction rs arbitrary: xs) auto

lemma cat_append: "cat (rs @ ss) = rbind (cat rs) (\<lambda>xs. rbind (cat ss) (\<lambda>ys. Inr (xs @ ys)))"
  by (induction rs) (simp_all add: rbind_assoc, metis (lifting) old.sum.exhaust rbind_simps)

text \<open>The text of items at a given indentation, with tabs.\<close>

fun item_text :: "nat \<Rightarrow> item list \<Rightarrow> string" where
  "item_text a [] = []"
| "item_text a (Txt t # is) = t @ item_text a is"
| "item_text a (Endl # is) = CHR 0x0A # item_text a is"
| "item_text a (Ind n # is) = replicate (n * a) (CHR 0x09) @ item_text a is"
| "item_text a (Inc # is) = item_text (a + 1) is"
| "item_text a (Dec # is) = item_text (a - 1) is"

fun item_amount :: "nat \<Rightarrow> item list \<Rightarrow> nat" where
  "item_amount a [] = a"
| "item_amount a (Inc # is) = item_amount (a + 1) is"
| "item_amount a (Dec # is) = item_amount (a - 1) is"
| "item_amount a (_ # is) = item_amount a is"

definition lines_of :: "item list \<Rightarrow> nat" where
  "lines_of is = length (filter (\<lambda>i. i = Endl) is)"

lemma put_text_of:
  assumes "Ind 0 \<notin> set is" "oi_scale (tg_out tg) = 1" "oi_char (tg_out tg) = CHR 0x09"
  shows "\<exists>tg'. put is tg = Inr tg' \<and>
    os_text (tg_out tg') = os_text (tg_out tg) @ item_text (oi_amount (tg_out tg)) is \<and>
    tg_line_no tg' = tg_line_no tg + lines_of is \<and>
    oi_amount (tg_out tg') = item_amount (oi_amount (tg_out tg)) is"
  using assms unfolding put_def
proof (induction "is" arbitrary: tg)
  case (Cons i "is")
  show ?case
  proof (cases i)
    case (Ind n)
    then have n: "0 < n" using Cons.prems(1) by (cases n) auto
    let ?tg = "tg \<lparr> tg_out := put_text (replicate (n * (oi_amount (tg_out tg))) (CHR 0x09)) (tg_out tg) \<rparr>"
    have "put_item i tg = Inr ?tg"
      using Cons.prems by (simp add: Ind indent_width [OF n])
    then show ?thesis
      using Cons.IH [of ?tg] Cons.prems by (auto simp: Ind put_text_def lines_of_def)
  next
    case Dec
    then show ?thesis
      using Cons.IH [of "tg \<lparr> tg_out := dec 1 (tg_out tg) \<rparr>"] Cons.prems
      by (cases "1 \<le> oi_amount (tg_out tg)") (auto simp: dec_def lines_of_def)
  next
    case (Txt t)
    then show ?thesis
      using Cons.IH [of "tg \<lparr> tg_out := put_text t (tg_out tg) \<rparr>"] Cons.prems
      by (auto simp: put_text_def lines_of_def)
  next
    case Endl
    then show ?thesis
      using Cons.IH [of "tg \<lparr> tg_line_no := tg_line_no tg + 1, tg_out := put_text [CHR 0x0A] (tg_out tg) \<rparr>"] Cons.prems
      by (auto simp: put_text_def lines_of_def)
  next
    case Inc
    then show ?thesis
      using Cons.IH [of "tg \<lparr> tg_out := inc 1 (tg_out tg) \<rparr>"] Cons.prems
      by (auto simp: inc_def lines_of_def)
  qed
qed (simp add: lines_of_def)

text \<open>\<^verbatim>\<open>line_no_\<close> counts the uses of \<^verbatim>\<open>T_ENDL\<close>; newlines inside a piece of text go
  uncounted.\<close>

definition plain_newlines :: "item list \<Rightarrow> nat" where
  "plain_newlines is = sum_list (map (\<lambda>i. case i of Txt t \<Rightarrow> count_list t (CHR 0x0A) | _ \<Rightarrow> 0) is)"

lemma item_text_newlines: "count_list (item_text a is) (CHR 0x0A) = lines_of is + plain_newlines is"
proof (induction "is" arbitrary: a)
  case (Cons i "is")
  have "count_list (replicate k (CHR 0x09)) (CHR 0x0A) = 0" for k by (simp add: count_list_0_iff)
  then show ?case
    using Cons by (cases i) (simp_all add: lines_of_def plain_newlines_def count_list_append)
qed (simp add: lines_of_def plain_newlines_def)

section \<open>Parameter lists\<close>

definition PARAM_PREFIX :: string where "PARAM_PREFIX = ''P''"

type_synonym emit_mask = "32 word"

definition EMIT_COMMA :: emit_mask where "EMIT_COMMA = 0x01"
definition EMIT_PREFIX :: emit_mask where "EMIT_PREFIX = 0x02"
definition EMIT_FORMAL :: emit_mask where "EMIT_FORMAL = 0x04"
definition EMIT_ACTUAL :: emit_mask where "EMIT_ACTUAL = 0x08"

lemmas emit_defs = EMIT_COMMA_def EMIT_PREFIX_def EMIT_FORMAL_def EMIT_ACTUAL_def

text \<open>\<^verbatim>\<open>decl_buf\<close> has 256 bytes.\<close>

definition stuff_decl :: "string \<Rightarrow> string \<Rightarrow> string \<Rightarrow> stop + string" where
  "stuff_decl decl s1 s2 = (let x = length (takeWhile (\<lambda>c. c \<noteq> CHR ''$'') decl);
       r = take x decl @ s1 @ s2 @ drop (x + 1) decl
     in if length decl + 1 > 256 \<or> x = length decl \<or> length r + 1 > 256 then Inl Crash else Inr r)"

lemma stuff_decl_at:
  assumes "CHR ''$'' \<notin> set before"
  shows "stuff_decl (before @ ''$'' @ after) s1 s2 =
    (if length before + length after \<le> 254 \<and> length before + length s1 + length s2 + length after \<le> 255
     then Inr (before @ s1 @ s2 @ after) else Inl Crash)"
proof -
  have "takeWhile (\<lambda>c. c \<noteq> CHR ''$'') (before @ ''$'' @ after) = before"
    using assms by (subst takeWhile_append2) auto
  then show ?thesis
    by (simp add: stuff_decl_def Let_def)
qed

text \<open>A parsed parameter is emitted with its own name or any other in the place of its name.\<close>

lemma stuff_param:
  assumes "param_ok p" "length (fp_decl p) + length (fp_name p) \<le> 255"
  obtains before after where "fp_decl p = before @ ''$'' @ after"
    "stuff_decl (fp_decl p) [] (fp_name p) = Inr (before @ fp_name p @ after)"
    "stuff_decl (fp_decl p) [] [] = Inr (before @ after)"
    "stuff_decl (fp_decl p) PARAM_PREFIX (fp_name p) = Inr (before @ PARAM_PREFIX @ fp_name p @ after)"
proof -
  obtain before after where b: "fp_decl p = before @ ''$'' @ after" "CHR ''$'' \<notin> set before"
    using assms(1) by (auto simp: param_ok_def)
  have "length before + length after + length (fp_name p) \<le> 254"
    using assms(2) by (simp add: b(1))
  then show ?thesis
    by (intro that [of before after])
      (simp_all only: b(1) stuff_decl_at [OF b(2)] PARAM_PREFIX_def, simp_all)
qed

definition emit_param :: "emit_mask \<Rightarrow> fn_param \<Rightarrow> stop + string" where
  "emit_param flags p = (let prefix = (if flags AND EMIT_PREFIX \<noteq> 0 then PARAM_PREFIX else []) in
     if flags AND EMIT_ACTUAL \<noteq> 0 then Inr (prefix @ fp_name p)
     else stuff_decl (fp_decl p) prefix (if flags AND EMIT_FORMAL \<noteq> 0 then fp_name p else []))"

fun emit_params :: "emit_mask \<Rightarrow> list_sep \<Rightarrow> fn_param list \<Rightarrow> stop + string \<times> list_sep" where
  "emit_params flags comma [] = Inr ([], comma)"
| "emit_params flags comma (p # ps) = (case list_sep_emit comma of (sep, comma1) \<Rightarrow>
     rbind (emit_param flags p) (\<lambda>t. rbind (emit_params flags comma1 ps) (\<lambda>(ts, comma2).
       Inr (sep @ t @ ts, comma2))))"

text \<open>\<^verbatim>\<open>user_event_info\<close> emits the parameters of its base event first.  The bound is the
  number of symbols: a longer chain of base events is a cycle, on which the code recurses
  without end.\<close>

fun emit_event_params ::
    "nat \<Rightarrow> compiler \<Rightarrow> user_event_info \<Rightarrow> list_sep \<Rightarrow> emit_mask \<Rightarrow> stop + string \<times> list_sep" where
  "emit_event_params n cc ue comma flags = rbind
     (case ue_base ue of
        None \<Rightarrow> Inr ([], comma)
      | Some b \<Rightarrow> (case INFO as_user_event cc (Some b) of
            None \<Rightarrow> Inl Crash
          | Some base \<Rightarrow> (case n of 0 \<Rightarrow> Inl Crash | Suc n' \<Rightarrow> emit_event_params n' cc base comma flags)))
     (\<lambda>(t, comma1). rbind (emit_params flags comma1 (ue_params ue)) (\<lambda>(ts, comma2). Inr (t @ ts, comma2)))"

declare emit_event_params.simps [simp del]

definition depth_bound :: "compiler \<Rightarrow> nat" where
  "depth_bound cc = length (tb_entries (cc_table cc))"

definition start_sep :: "emit_mask \<Rightarrow> list_sep" where
  "start_sep flags = (let comma = list_sep_ctor '', '' in
     if flags AND EMIT_COMMA \<noteq> 0 then list_sep_print comma else comma)"

text \<open>\<^verbatim>\<open>emit_param_list\<close> of a \<^verbatim>\<open>chsm_info\<close> and of a \<^verbatim>\<open>user_event_info\<close>.\<close>

definition chsm_param_list :: "chsm_info \<Rightarrow> emit_mask \<Rightarrow> stop + string" where
  "chsm_param_list ch flags = rbind (emit_params flags (start_sep flags) (ch_params ch)) (\<lambda>(t, _). Inr t)"

definition event_param_list :: "compiler \<Rightarrow> user_event_info \<Rightarrow> emit_mask \<Rightarrow> stop + string" where
  "event_param_list cc ue flags =
     rbind (emit_event_params (depth_bound cc) cc ue (start_sep flags) flags) (\<lambda>(t, _). Inr t)"

fun has_any_parameters :: "nat \<Rightarrow> compiler \<Rightarrow> user_event_info \<Rightarrow> stop + bool" where
  "has_any_parameters n cc ue = (if ue_params ue \<noteq> [] then Inr True
     else case ue_base ue of
       None \<Rightarrow> Inr False
     | Some b \<Rightarrow> (case INFO as_user_event cc (Some b) of
           None \<Rightarrow> Inl Crash
         | Some base \<Rightarrow> (case n of 0 \<Rightarrow> Inl Crash | Suc n' \<Rightarrow> has_any_parameters n' cc base)))"

declare has_any_parameters.simps [simp del]

definition base_has_any_parameters :: "nat \<Rightarrow> compiler \<Rightarrow> user_event_info \<Rightarrow> stop + bool" where
  "base_has_any_parameters n cc ue = (case ue_base ue of
     None \<Rightarrow> Inr False
   | Some b \<Rightarrow> (case INFO as_user_event cc (Some b) of
         None \<Rightarrow> Inl Crash
       | Some base \<Rightarrow> has_any_parameters n cc base))"

text \<open>The specification: the parameters of the base events, outermost first, then the
  event's own.\<close>

inductive all_params :: "compiler \<Rightarrow> nat \<Rightarrow> user_event_info \<Rightarrow> fn_param list \<Rightarrow> bool" for cc where
  own: "ue_base ue = None \<Longrightarrow> all_params cc n ue (ue_params ue)"
| derived: "ue_base ue = Some b \<Longrightarrow> INFO as_user_event cc (Some b) = Some base \<Longrightarrow>
    all_params cc n base ps \<Longrightarrow> all_params cc (Suc n) ue (ps @ ue_params ue)"

inductive_cases all_params_cases: "all_params cc n ue ps"

lemma emit_params_append:
  "emit_params flags comma (ps @ qs) = rbind (emit_params flags comma ps) (\<lambda>(t, c).
     rbind (emit_params flags c qs) (\<lambda>(ts, c2). Inr (t @ ts, c2)))"
  by (induction flags comma ps rule: emit_params.induct)
    (auto simp: rbind_assoc rbind_def split: sum.splits prod.splits)

lemma emit_event_params_all:
  assumes "all_params cc n ue ps"
  shows "emit_event_params n cc ue comma flags = emit_params flags comma ps"
  using assms
proof (induction n ue ps rule: all_params.induct)
  case (own ue n)
  then show ?case
    by (subst emit_event_params.simps) (auto simp: rbind_def split: sum.splits)
next
  case (derived ue b base n ps)
  then show ?case
    by (subst emit_event_params.simps) (simp add: emit_params_append)
qed

lemma has_any_parameters_all:
  assumes "all_params cc n ue ps"
  shows "has_any_parameters n cc ue = Inr (ps \<noteq> [])"
  using assms
proof (induction n ue ps rule: all_params.induct)
  case (own ue n)
  then show ?case by (subst has_any_parameters.simps) simp
next
  case (derived ue b base n ps)
  then show ?case by (subst has_any_parameters.simps) simp
qed

lemma emit_params_texts:
  assumes "\<forall>p \<in> set ps. emit_param flags p = Inr (f p)"
  shows "\<exists>c. emit_params flags comma ps = Inr (sep_list comma (map f ps), c)"
  using assms
  by (induction flags comma ps rule: emit_params.induct) (fastforce split: prod.splits)+

text \<open>Formal and actual parameter lists name the same parameters in the same order.\<close>

lemma event_param_list_text:
  assumes "all_params cc (depth_bound cc) ue ps" "\<forall>p \<in> set ps. emit_param flags p = Inr (f p)"
  shows "event_param_list cc ue flags =
    Inr ((if flags AND EMIT_COMMA \<noteq> 0 \<and> ps \<noteq> [] then '', '' else []) @ separated '', '' (map f ps))"
proof -
  obtain c where c: "emit_params flags (start_sep flags) ps = Inr (sep_list (start_sep flags) (map f ps), c)"
    using emit_params_texts [OF assms(2)] by blast
  have "sep_list (list_sep_print (list_sep_ctor '', '')) xs = (if xs = [] then [] else '', '') @ separated '', '' xs"
    for xs
    by (cases xs) (simp_all add: sep_list_separated [symmetric] list_sep_print_def list_sep_ctor_def list_sep_emit_def)
  then show ?thesis
    by (simp add: event_param_list_def emit_event_params_all [OF assms(1)] c)
      (simp add: start_sep_def Let_def sep_list_separated)
qed

end
