(* ===== verification/Chsmc_Cpp.thy ===== *)
theory Chsmc_Cpp
  imports Chsmc_Output
begin

text \<open>
  The generator of C++ code (\<^verbatim>\<open>chsmc/cpp_generator.cpp\<close>, \<^verbatim>\<open>code_generator.cpp\<close>): what
  its three visitors insert into the target file, and the text the parser's actions have it
  insert into the file of user code.  The visitors dispatch on the class of an info; here a
  function per visitor does.  The package strings come from \<^verbatim>\<open>config.h\<close>, which the build
  generates, and the options from the command line: they are members of \<open>config\<close>.  The
  macro \<^verbatim>\<open>CHSM_AUTO_ENTER_EXIT\<close> is not defined by the build.
\<close>

record config =
  cf_package_string :: string
  cf_package_name :: string
  cf_line_directives :: bool
  cf_codegen_only :: bool
  cf_target_path :: string

definition dq :: string where "dq = [CHR 0x22]"
definition nl :: string where "nl = [CHR 0x0A]"

definition int_text :: "int \<Rightarrow> string" where
  "int_text i = (if i < 0 then CHR ''-'' # decimal (nat (- i)) else decimal (nat i))"

definition NS :: string where "NS = ''CHSM_ns_alias''"
definition EVENT_CLASS_SUFFIX :: string where "EVENT_CLASS_SUFFIX = ''_event''"
definition PARENT_CLASS_PREFIX :: string where "PARENT_CLASS_PREFIX = ''state_''"
definition TRANSITIONS_SUFFIX :: string where "TRANSITIONS_SUFFIX = ''_transitions''"

definition PREFIX_ACTION :: string where "PREFIX_ACTION = ''A''"
definition PREFIX_CONDITION :: string where "PREFIX_CONDITION = ''C''"
definition PREFIX_ENTER :: string where "PREFIX_ENTER = ''E''"
definition PREFIX_EXIT :: string where "PREFIX_EXIT = ''X''"
definition PREFIX_TARGET :: string where "PREFIX_TARGET = ''T''"

section \<open>Names and numbers of symbols\<close>

definition state_base_name :: "string \<Rightarrow> string" where
  "state_base_name name = (case find_last_of CHR ''.'' name of
     Some p \<Rightarrow> drop (p + 1) name | None \<Rightarrow> name)"

text \<open>The number of a state in the tables; \<^verbatim>\<open>-1\<close> stands for no state.\<close>

definition serial :: "compiler \<Rightarrow> sym option \<Rightarrow> stop + int" where
  "serial cc sy = (case sy of
     None \<Rightarrow> Inr (-1)
   | Some n \<Rightarrow> (case INFO as_state cc (Some n) of
         None \<Rightarrow> Inl Crash
       | Some s \<Rightarrow> Inr (int (st_serial s) - 1)))"

definition chsm_name :: "compiler \<Rightarrow> string" where
  "chsm_name cc = (case cc_chsm cc of Some n \<Rightarrow> n | None \<Rightarrow> [])"

definition with_chsm :: "compiler \<Rightarrow> (chsm_info \<Rightarrow> stop + 'a) \<Rightarrow> stop + 'a" where
  "with_chsm cc f = (case CHSM cc of None \<Rightarrow> Inl Crash | Some c \<Rightarrow> f c)"

definition with_info :: "(info \<Rightarrow> 'b option) \<Rightarrow> compiler \<Rightarrow> sym \<Rightarrow> ('b \<Rightarrow> stop + 'a) \<Rightarrow> stop + 'a" where
  "with_info as_type cc n f = (case INFO as_type cc (Some n) of None \<Rightarrow> Inl Crash | Some b \<Rightarrow> f b)"

definition or_default :: "string \<Rightarrow> string \<Rightarrow> string" where
  "or_default derived name = (if derived \<noteq> [] then derived else NS @ name)"

definition lib_class_name :: "info \<Rightarrow> stop + string" where
  "lib_class_name i = (case i of
     Cluster_info s _ _ \<Rightarrow> Inr (or_default (st_derived s) ''::cluster'')
   | Enex_event_info _ \<Rightarrow> Inr (NS @ ''::event'')
   | User_event_info _ _ \<Rightarrow> Inr (NS @ ''::event'')
   | Set_info s _ \<Rightarrow> Inr (or_default (st_derived s) ''::set'')
   | State_info s \<Rightarrow> Inr (or_default (st_derived s) ''::state'')
   | _ \<Rightarrow> Inl (Exit EX_SOFTWARE))"

definition tx_of :: "stop + string \<Rightarrow> outp" where
  "tx_of r = rbind r tx"

definition first_info :: "compiler \<Rightarrow> sym \<Rightarrow> stop + info" where
  "first_info cc n = (case info_helper cc (Some n) of None \<Rightarrow> Inl Crash | Some si \<Rightarrow> Inr (si_info si))"

definition lib_class :: "compiler \<Rightarrow> sym \<Rightarrow> outp" where
  "lib_class cc n = tx_of (rbind (first_info cc n) lib_class_name)"

definition base_class_name :: "compiler \<Rightarrow> user_event_info \<Rightarrow> string" where
  "base_class_name cc ue = (case ue_base ue of
     Some b \<Rightarrow> chsm_name cc @ ''::'' @ b @ EVENT_CLASS_SUFFIX
   | None \<Rightarrow> NS @ ''::event'')"

definition class_name :: "sym \<Rightarrow> string" where
  "class_name n = n @ EVENT_CLASS_SUFFIX"

definition tx_mangle :: "string \<Rightarrow> outp" where
  "tx_mangle n = (case mangle n of Some m \<Rightarrow> tx m | None \<Rightarrow> Inl Crash)"

definition section_comment :: "config \<Rightarrow> string" where
  "section_comment cf = ''///// '' @ cf_package_name cf @ '': ''"

definition emit_the_end :: "config \<Rightarrow> outp" where
  "emit_the_end cf = cat [endl, tx (section_comment cf), tx ''THE END'', endl]"

definition emit_source_line_no :: "config \<Rightarrow> compiler \<Rightarrow> nat \<Rightarrow> outp" where
  "emit_source_line_no cf cc alt_no = (if cf_line_directives cf
     then tx (''#line '' @ decimal (if alt_no \<noteq> 0 then alt_no else sf_line_no (cc_source cc)) @ '' ''
            @ quoted (sf_path (cc_source cc)) @ nl)
     else nothing)"

text \<open>Generators other than that of C++ put the line number into a comment.\<close>

definition base_emit_source_line_no :: "config \<Rightarrow> compiler \<Rightarrow> nat \<Rightarrow> outp" where
  "base_emit_source_line_no cf cc alt_no = (if cf_line_directives cf
     then tx (''//#line '' @ decimal (if alt_no \<noteq> 0 then alt_no else sf_line_no (cc_source cc)) @ '' ''
            @ quoted (sf_path (cc_source cc)) @ nl)
     else nothing)"

definition map_ext_to_lang :: "string \<Rightarrow> lang" where
  "map_ext_to_lang ext = (case map_of [(''.chsmc'', Lang_cpp), (''.chsmj'', Lang_java)] ext of
     Some l \<Rightarrow> l | None \<Rightarrow> Lang_none)"

definition cpp_filename_exts :: "string \<times> string" where
  "cpp_filename_exts = (''h'', ''cpp'')"

section \<open>User code\<close>

definition emit_action_block_begin :: "config \<Rightarrow> compiler \<Rightarrow> outp" where
  "emit_action_block_begin cf cc = with_chsm cc (\<lambda>ch. cat [
     tx ''void '', tx (chsm_name cc), tx ''::'', tx PREFIX_ACTION, tx (decimal (ch_action_id ch)), tx ''( '', tx NS,
     tx (''::event const &event ) {'' @ nl), ind 1, tx (''(void)event;'' @ nl), emit_source_line_no cf cc 0])"

definition emit_action_block_end :: outp where
  "emit_action_block_end = tx (''}'' @ nl)"

definition emit_condition_expr_begin :: "config \<Rightarrow> compiler \<Rightarrow> outp" where
  "emit_condition_expr_begin cf cc = with_chsm cc (\<lambda>ch. cat [
     tx ''bool '', tx (chsm_name cc), tx ''::'', tx PREFIX_CONDITION, tx (decimal (ch_condition_id ch)), tx ''( '', tx NS,
     tx (''::event const &event ) {'' @ nl), ind 1, tx (''(void)event;'' @ nl), emit_source_line_no cf cc 0,
     ind 1, tx ''return ''])"

definition emit_condition_expr_end :: outp where
  "emit_condition_expr_end = tx (''; }'' @ nl)"

definition emit_enter_exit_begin :: "config \<Rightarrow> compiler \<Rightarrow> string \<Rightarrow> sym \<Rightarrow> outp" where
  "emit_enter_exit_begin cf cc kind sy_state = with_info as_state cc sy_state (\<lambda>_. cat [
     tx ''void '', tx (chsm_name cc), tx ''::'', tx kind, tx PREFIX_ACTION, tx_mangle sy_state, tx ''( '', tx NS,
     tx ''::state const &chsm_state_, '', tx NS, tx (''::event const &event ) {'' @ nl),
     ind 1, tx (''(void)event;'' @ nl), emit_source_line_no cf cc 0,
     ind 1, lib_class cc sy_state, tx '' const &state = dynamic_cast<'', lib_class cc sy_state,
     tx ('' const&>(chsm_state_);'' @ nl), ind 1, tx (''(void)state;'' @ nl)])"

definition emit_enter_exit_end :: outp where
  "emit_enter_exit_end = tx (''}'' @ nl)"

definition emit_precondition_expr_begin :: "config \<Rightarrow> compiler \<Rightarrow> sym \<Rightarrow> outp" where
  "emit_precondition_expr_begin cf cc ev = cat [
     tx ''bool '', tx (chsm_name cc), tx ''::'', tx ev, tx EVENT_CLASS_SUFFIX,
     tx (''::param_block::precondition() const {'' @ nl), ind 1,
     tx (''return base_param_block::precondition() && ('' @ nl), emit_source_line_no cf cc 0]"

definition emit_precondition_expr_end :: outp where
  "emit_precondition_expr_end = tx ('');'' @ nl @ ''}'' @ nl)"

definition emit_precondition_func_begin :: "config \<Rightarrow> compiler \<Rightarrow> sym \<Rightarrow> outp" where
  "emit_precondition_func_begin cf cc ev = with_info as_user_event cc ev (\<lambda>ue. cat [
     tx ''bool '', tx (chsm_name cc), tx ''::'', tx ev, tx ''_precondition( '',
     tx_of (event_param_list cc ue EMIT_FORMAL), tx ('' ) const {'' @ nl), emit_source_line_no cf cc 0])"

definition emit_precondition_func_end :: "compiler \<Rightarrow> sym \<Rightarrow> outp" where
  "emit_precondition_func_end cc ev = with_info as_user_event cc ev (\<lambda>ue. cat [
     tx (''}'' @ nl @ ''bool ''), tx (chsm_name cc), tx ''::'', tx ev, tx EVENT_CLASS_SUFFIX,
     tx (''::param_block::precondition() const {'' @ nl), ind 1,
     tx (''return base_param_block::precondition() &&'' @ nl), ind 2, tx ''(('', tx (chsm_name cc),
     tx ''&)chsm()).'', tx ev, tx ''_precondition( '', tx_of (event_param_list cc ue EMIT_ACTUAL),
     tx ('' );'' @ nl @ ''}'' @ nl)])"

definition emit_text :: "string \<Rightarrow> outp" where
  "emit_text t = tx t"

definition emit_transition_target_begin :: "config \<Rightarrow> compiler \<Rightarrow> outp" where
  "emit_transition_target_begin cf cc = with_chsm cc (\<lambda>ch. cat [
     tx NS, tx ''::state* '', tx (chsm_name cc), tx ''::'', tx PREFIX_TARGET, tx (decimal (ch_target_id ch)), tx ''( '',
     tx NS, tx (''::event const &event ) {'' @ nl), ind 1, tx (''(void)event;'' @ nl),
     emit_source_line_no cf cc 0, tx ''return ''])"

definition emit_transition_target_end :: outp where
  "emit_transition_target_end = tx (''; }'' @ nl)"

text \<open>The status of \<^verbatim>\<open>sysexits.h\<close> for an input that cannot be read.\<close>

definition EX_NOINPUT :: nat where "EX_NOINPUT = 66"

text \<open>
  The file of user code, re-opened for reading.  A stream has its text, the place where the
  device fails, if it does, its position, the count of the last unformatted read and its three
  flags.  \<open>stream_read\<close> is \<^verbatim>\<open>istream::read\<close>: nothing is read from a stream that is not
  good; a read that meets the end of the text sets the end and fail flags.
\<close>

record istream =
  is_text :: string
  is_faulty :: "nat option"
  is_pos :: nat
  is_gcount :: nat
  is_eof :: bool
  is_fail :: bool
  is_bad :: bool

definition stream_open :: "string \<Rightarrow> nat option \<Rightarrow> istream" where
  "stream_open text faulty = \<lparr>is_text = text, is_faulty = faulty, is_pos = 0, is_gcount = 0,
     is_eof = False, is_fail = False, is_bad = False\<rparr>"

definition stream_good :: "istream \<Rightarrow> bool" where
  "stream_good f \<longleftrightarrow> \<not> is_eof f \<and> \<not> is_fail f \<and> \<not> is_bad f"

definition stream_clear :: "istream \<Rightarrow> istream" where
  "stream_clear f = f\<lparr>is_eof := False, is_fail := False, is_bad := False\<rparr>"

definition stream_faults :: "nat \<Rightarrow> istream \<Rightarrow> bool" where
  "stream_faults n f \<longleftrightarrow> (case is_faulty f of None \<Rightarrow> False
     | Some k \<Rightarrow> k < is_pos f + n \<and> k \<le> length (is_text f))"

definition stream_read :: "nat \<Rightarrow> istream \<Rightarrow> string \<times> istream" where
  "stream_read n f =
     (if \<not> stream_good f then ([], f\<lparr>is_gcount := 0, is_fail := True\<rparr>)
      else if stream_faults n f then ([], f\<lparr>is_gcount := 0, is_bad := True\<rparr>)
      else
        let buf = take n (drop (is_pos f) (is_text f)); count = length buf
        in (buf, f\<lparr>is_pos := is_pos f + count, is_gcount := count,
                   is_eof := count < n, is_fail := count < n\<rparr>))"

lemma stream_read_count:
  "stream_read n f = (buf, f') \<Longrightarrow> is_gcount f' = length buf \<and> is_text f' = is_text f \<and>
    is_faulty f' = is_faulty f \<and> (buf \<noteq> [] \<longrightarrow> is_pos f' = is_pos f + length buf \<and> is_pos f < length (is_text f))"
  by (auto simp: stream_read_def Let_def split: if_splits)

text \<open>The file is copied in blocks of 4096 bytes; a read that fails in the device ends the
  program.\<close>

function copy_loop :: "istream \<Rightarrow> stop + string" where
  "copy_loop f = (case stream_read 4096 f of (buf, f) \<Rightarrow>
     if is_bad f then Inl (Exit EX_NOINPUT)
     else
       let f = stream_clear f; count = is_gcount f
       in if count = 4096 then rbind (copy_loop f) (\<lambda>rest. Inr (take count buf @ rest))
          else Inr (take count buf))"
  by auto
termination
proof (relation "measure (\<lambda>f. length (is_text f) - is_pos f)")
  fix f buf f' g count
  assume "(buf, f') = stream_read 4096 f" "g = stream_clear f'" "count = is_gcount g" "count = 4096"
  then show "(g, f) \<in> measure (\<lambda>f. length (is_text f) - is_pos f)"
    using stream_read_count [of 4096 f buf f'] by (auto simp: stream_clear_def)
qed simp

declare copy_loop.simps [simp del]

lemma copy_loop_verdict:
  assumes "stream_good f" "is_pos f \<le> length (is_text f)"
    and "\<And>k. is_faulty f = Some k \<Longrightarrow> is_pos f \<le> k"
  shows "copy_loop f = (case is_faulty f of
      Some k \<Rightarrow> if k \<le> length (is_text f) then Inl (Exit EX_NOINPUT) else Inr (drop (is_pos f) (is_text f))
    | None \<Rightarrow> Inr (drop (is_pos f) (is_text f)))"
  using assms
proof (induction f rule: copy_loop.induct)
  case (1 f)
  let ?buf = "take 4096 (drop (is_pos f) (is_text f))"
  show ?case
  proof (cases "stream_faults 4096 f")
    case True
    then show ?thesis
      using "1.prems" by (subst copy_loop.simps) (auto simp: stream_read_def stream_faults_def split: option.splits)
  next
    case False
    note r = stream_read_def [of 4096 f, unfolded Let_def]
    obtain f' where f': "f' = snd (stream_read 4096 f)" by simp
    let ?g = "stream_clear f'"
    have g: "stream_read 4096 f = (?buf, f')"
        "stream_good ?g" "is_text ?g = is_text f" "is_faulty ?g = is_faulty f"
        "is_pos ?g = is_pos f + length ?buf" "is_gcount ?g = length ?buf" "\<not> is_bad f'"
      using False "1.prems"(1) by (simp_all add: r f' stream_clear_def stream_good_def)
    show ?thesis
    proof (cases "length ?buf = 4096")
      case full: True
      have ahead: "is_pos ?g \<le> k" if "is_faulty ?g = Some k" for k
        using False that full g(4,5) "1.prems"(2) by (auto simp: stream_faults_def)
      have "copy_loop ?g = (case is_faulty f of
          Some k \<Rightarrow> if k \<le> length (is_text f) then Inl (Exit EX_NOINPUT) else Inr (drop (is_pos ?g) (is_text f))
        | None \<Rightarrow> Inr (drop (is_pos ?g) (is_text f)))"
        using "1.IH" [OF g(1) [symmetric] g(7) refl refl _ g(2) _ ahead] full g(3-6) by (auto split: option.split)
      moreover have "copy_loop f = rbind (copy_loop ?g) (\<lambda>rest. Inr (?buf @ rest))"
        using full g(1,6,7) by (subst copy_loop.simps) (simp add: Let_def del: length_take)
      moreover have "?buf @ drop (is_pos ?g) (is_text f) = drop (is_pos f) (is_text f)"
        using full g(5) by (metis append_take_drop_id drop_drop add.commute)
      ultimately show ?thesis by (auto split: option.split)
    next
      case short: False
      then have "?buf = drop (is_pos f) (is_text f)" by simp
      moreover have "is_faulty f = Some k \<Longrightarrow> \<not> k \<le> length (is_text f)" for k
        using False short by (auto simp: stream_faults_def)
      moreover have "copy_loop f = Inr ?buf"
        using short g(1,6,7) by (subst copy_loop.simps) (auto simp: Let_def min_def)
      ultimately show ?thesis by (auto split: option.split)
    qed
  qed
qed

text \<open>That the temporary file can be opened again and read is assumed of the generators.\<close>

definition copy_to :: "string \<Rightarrow> outp" where
  "copy_to text = rbind (copy_loop (stream_open text None)) (\<lambda>t. cat [tx t, endl])"

lemma copy_to_text: "copy_to text = cat [tx text, endl]"
  using copy_loop_verdict [of "stream_open text None"] by (simp add: copy_to_def stream_open_def stream_good_def)

section \<open>Declarations\<close>

definition action_decl :: "string \<Rightarrow> sym \<Rightarrow> outp" where
  "action_decl kind n = cat [ind 2, tx ''void '', tx kind, tx PREFIX_ACTION, tx_mangle n, tx ''( '',
     tx NS, tx ''::state const&, '', tx NS, tx ''::event const&'', tx '' );'', endl]"

definition emit_actions :: "compiler \<Rightarrow> sym \<Rightarrow> outp" where
  "emit_actions cc n = with_info as_state cc n (\<lambda>s. cat [
     if st_action_enter s then action_decl PREFIX_ENTER n else nothing,
     if st_action_exit s then action_decl PREFIX_EXIT n else nothing])"

definition declare_event_common :: "sym \<Rightarrow> outp" where
  "declare_event_common n = cat [tx ''private:'', endl, ind 1, tx ''static '', tx NS, tx ''::transition::id const '',
     tx n, tx TRANSITIONS_SUFFIX, tx ''[];'', endl, tx ''public:'', endl]"

definition declare_plain_state :: "compiler \<Rightarrow> sym \<Rightarrow> outp" where
  "declare_plain_state cc n = cat [ind 1, lib_class cc n, tx '' '', tx (state_base_name n), tx ''; // id = '',
     rbind (serial cc (Some n)) (\<lambda>i. tx (int_text i))]"

definition declare_parent :: "compiler \<Rightarrow> sym \<Rightarrow> outp \<Rightarrow> string option \<Rightarrow> outp" where
  "declare_parent cc n children formal_params = (let base_name = state_base_name n in cat [
     ind 1, tx ''class '', tx PARENT_CLASS_PREFIX, tx base_name, tx '' : public '', lib_class cc n,
     tx '' { // id = '', rbind (serial cc (Some n)) (\<lambda>i. tx (int_text i)), endl, ind 1, tx ''public:'', endl,
     (if Some n \<noteq> SY_ROOT cc then cat [Inr [Inc], children, Inr [Dec], endl] else nothing),
     ind 2, tx PARENT_CLASS_PREFIX, tx base_name, tx ''( CHSM_STATE_ARGS'',
     (case formal_params of Some f \<Rightarrow> cat [tx '', '', tx f] | None \<Rightarrow> nothing),
     tx '' );'', endl, ind 1, tx ''private:'', endl, ind 2, tx ''static state::id const children_[];'', endl,
     ind 1, tx ''} '', tx base_name, tx '';''])"

text \<open>The recursion follows the children; the bound is the number of symbols.\<close>

fun declare_state :: "nat \<Rightarrow> compiler \<Rightarrow> sym \<Rightarrow> outp" where
  "declare_state bound cc n = rbind (first_info cc n) (\<lambda>i. let
       nested = (\<lambda>children. case bound of 0 \<Rightarrow> Inl Crash
         | Suc b \<Rightarrow> cat (map (\<lambda>c. cat [declare_state b cc c, endl]) children))
     in case i of
       State_info _ \<Rightarrow> declare_plain_state cc n
     | Cluster_info _ children _ \<Rightarrow> declare_parent cc n (nested children) (Some ''bool chsm_history_'')
     | Set_info _ children \<Rightarrow> declare_parent cc n (nested children) None
     | _ \<Rightarrow> Inl Crash)"

declare declare_state.simps [simp del]

definition declare_user_event :: "config \<Rightarrow> compiler \<Rightarrow> sym \<Rightarrow> user_event_info \<Rightarrow> outp" where
  "declare_user_event cf cc n ue = rbind (has_any_parameters (depth_bound cc) cc ue) (\<lambda>params. cat [
     declare_event_common n,
     ind 1, tx ''class '', tx (class_name n), tx '' : public '', tx (base_class_name cc ue), tx '' {'', endl,
     ind 2, tx ''typedef '', tx (base_class_name cc ue), tx '' base_event;'', endl,
     ind 2, tx ''typedef base_event::param_block base_param_block;'', endl, ind 1, tx ''public:'', endl,
     ind 2, tx ''struct param_block : base_param_block {'', endl,
     cat (map (\<lambda>p. cat [emit_source_line_no cf cc (fp_line_no p), ind 3,
       tx_of (stuff_decl (fp_decl p) [] (fp_name p)), tx '';'', endl]) (ue_params ue)),
     ind 3, tx ''param_block( '', tx NS, tx ''::event const&'',
     (if params then cat [tx_of (event_param_list cc ue EMIT_COMMA), tx '');'', endl]
      else cat [tx '' event ) : '', endl, ind 4, tx ''base_param_block( event ) { }'', endl]),
     ind 2, tx ''protected:'', endl, ind 3, tx ''virtual ~param_block();'', endl,
     (if ue_precondition ue \<noteq> PRECONDITION_NONE then cat [ind 3, tx ''bool precondition() const;'', endl] else nothing),
     ind 2, tx ''};'', endl,
     (if params then cat [ind 2, tx ''param_block* operator->() const {'', endl,
        ind 3, tx ''return static_cast<param_block*>(param_block_);'', endl, ind 2, tx ''}'', endl] else nothing),
     (if params \<or> ue_precondition ue \<noteq> PRECONDITION_NONE
      then cat [ind 2, tx ''void operator()('', tx_of (event_param_list cc ue 0), tx '');'', endl] else nothing),
     ind 1, tx ''protected:'', endl, ind 2, tx (class_name n),
     tx ''( CHSM_EVENT_ARGS ) : base_event( CHSM_EVENT_INIT ) { }'', endl,
     ind 2, tx ''friend class '', tx (chsm_name cc), tx '';'', endl, ind 1, tx ''} '', tx n, tx '';'', endl,
     ind 1, tx ''alignas('', tx (class_name n), tx ''::param_block) char '', tx n, tx ''_param_block[ sizeof('',
     tx (class_name n), tx ''::param_block) ];'', endl,
     (if ue_precondition ue = PRECONDITION_FUNC
      then cat [ind 1, tx ''bool '', tx n, tx ''_precondition( '', tx_of (event_param_list cc ue 0), tx '') const;'', endl]
      else nothing)])"

definition declare_event :: "config \<Rightarrow> compiler \<Rightarrow> sym \<Rightarrow> outp" where
  "declare_event cf cc n = rbind (first_info cc n) (\<lambda>i.
     case i of
       Enex_event_info _ \<Rightarrow> cat [declare_event_common n, ind 1, lib_class cc n, tx '' '', tx n, tx '';'']
     | User_event_info _ ue \<Rightarrow> declare_user_event cf cc n ue
     | _ \<Rightarrow> Inl Crash)"

definition numbered :: "nat \<Rightarrow> (string \<Rightarrow> outp) \<Rightarrow> outp" where
  "numbered count f = cat (map (\<lambda>i. f (decimal i)) [1..<Suc count])"

definition declare_chsm :: "config \<Rightarrow> compiler \<Rightarrow> chsm_info \<Rightarrow> outp" where
  "declare_chsm cf cc ch = (let n = chsm_name cc; bound = depth_bound cc;
       count = (if ch_transitions ch = [] then 1 else length (ch_transitions ch)) in
     with_info as_children cc (ch_root ch) (\<lambda>root_children. cat [
     tx (section_comment cf), tx ''machine class declaration'', endl, endl, tx ''class '', tx n, tx '' : public '',
     tx (if ch_derived ch \<noteq> [] then ch_derived ch else NS @ ''::machine''), tx '' {'', endl, tx ''public:'', endl,
     ind 1, tx n, tx ''('', tx_of (chsm_param_list ch 0), tx '');'', endl,
     ind 1, tx ''~'', tx n, tx ''();'', endl,
     endl, ind 1, tx ''// states'', endl, declare_state bound cc (ch_root ch), endl,
     cat (map (\<lambda>c. cat [declare_state bound cc c, endl]) root_children),
     endl, ind 1, tx ''// events'', endl, cat (map (\<lambda>e. cat [declare_event cf cc e, endl]) (ch_events ch)),
     endl, ind 1, tx ''// transition conditions'', endl,
     numbered (ch_condition_id ch) (\<lambda>i. cat [ind 1, tx ''bool '', tx PREFIX_CONDITION, tx i, tx ''( '', tx NS,
       tx ''::event const& );'', endl]),
     endl, ind 1, tx ''// transition targets'', endl,
     numbered (ch_target_id ch) (\<lambda>i. cat [ind 1, tx NS, tx ''::state* '', tx PREFIX_TARGET, tx i, tx ''( '', tx NS,
       tx ''::event const& );'', endl]),
     endl, ind 1, tx ''// transition actions'', endl,
     numbered (ch_action_id ch) (\<lambda>i. cat [ind 1, tx ''void '', tx PREFIX_ACTION, tx i, tx ''( '', tx NS,
       tx ''::event const& );'', endl]),
     endl, ind 1, tx ''// enter/exit actions'', endl, emit_actions cc (ch_root ch), cat (map (emit_actions cc) (ch_states ch)),
     endl, tx ''private:'', endl, ind 1, tx NS, tx ''::state *state_['', tx (decimal (length (ch_states ch) + 1)),
     tx ''];'', endl, ind 1, tx ''static '', tx NS, tx ''::transition const transition_[];'', endl,
     ind 1, tx NS, tx ''::event const *taken_['', tx (decimal count), tx ''];'', endl,
     ind 1, tx NS, tx ''::state *target_['', tx (decimal count), tx ''];'', endl, tx ''};'', endl,
     emit_the_end cf, tx ''#endif'', endl]))"

text \<open>The declaration file; \<^verbatim>\<open>emit\<close> then goes on with the definitions, in the same stream if
  only code is to be generated.\<close>

definition emit_declarations :: "config \<Rightarrow> compiler \<Rightarrow> outp" where
  "emit_declarations cf cc = (let include_guard = identify (base_name (sf_path (cc_source cc))) @ ''_H'' in cat [
     Inr [Inc], tx ''#ifndef '', tx include_guard, endl, tx ''#define '', tx include_guard, endl, endl,
     tx (section_comment cf), tx ''<<'', tx (cf_package_string cf), tx ''>>'', endl, endl,
     tx ''#include <chsm.h>'', endl, tx ''namespace '', tx NS, tx '' = CHSM_NS;'', endl, endl,
     tx (section_comment cf), tx ''user declarations'', endl, endl, emit_source_line_no cf cc 0,
     with_chsm cc (declare_chsm cf cc)])"

definition emit_definition_header :: "config \<Rightarrow> outp" where
  "emit_definition_header cf = cat [Inr [Inc], tx ''///// <<'', tx (cf_package_string cf), tx ''>>'', endl, endl,
     tx ''#include '', tx (dq @ cf_target_path cf @ dq), endl, endl]"

section \<open>Initializers\<close>

definition action_init :: "compiler \<Rightarrow> bool \<Rightarrow> string \<Rightarrow> sym \<Rightarrow> outp" where
  "action_init cc has kind n = (if has
     then cat [tx ''static_cast<'', tx NS, tx ''::state::action>(&'', tx (chsm_name cc), tx ''::'', tx kind,
       tx PREFIX_ACTION, tx_mangle n, tx '')'']
     else tx ''nullptr'')"

definition event_init :: "compiler \<Rightarrow> bool \<Rightarrow> string \<Rightarrow> string \<Rightarrow> sym \<Rightarrow> outp" where
  "event_init cc has chsm_ref kind n = (if has
     then cat [tx ''&(('', tx (chsm_name cc), tx ''&)'', tx chsm_ref, tx '').'', tx kind, tx_mangle n]
     else tx ''nullptr'')"

definition init_state_common :: "bool \<Rightarrow> compiler \<Rightarrow> sym \<Rightarrow> state_info \<Rightarrow> outp" where
  "init_state_common emitting_constructor cc n s = (
     let chsm_ref = (if emitting_constructor then ''*this'' else ''chsm_machine_'') in cat [
     ind 1, tx (state_base_name n), tx ''( '', tx chsm_ref, tx ('', '' @ dq), tx n, tx (dq @ '', ''),
     tx (case st_parent s of
           Some p \<Rightarrow> (if Some p = SY_ROOT cc then ''&root'' else ''this'')
         | None \<Rightarrow> ''nullptr''), tx '', '',
     action_init cc (st_action_enter s) PREFIX_ENTER n, tx '', '',
     action_init cc (st_action_exit s) PREFIX_EXIT n, tx '', '',
     event_init cc (st_event_enter s) chsm_ref PREFIX_ENTER n, tx '', '',
     event_init cc (st_event_exit s) chsm_ref PREFIX_EXIT n])"

definition init_state :: "bool \<Rightarrow> compiler \<Rightarrow> sym \<Rightarrow> outp" where
  "init_state emitting_constructor cc n = rbind (first_info cc n) (\<lambda>i.
     case i of
       Cluster_info s _ history \<Rightarrow> cat [init_state_common emitting_constructor cc n s, tx '', '',
         tx (if history then ''true'' else ''false''), tx '' )'']
     | Set_info s _ \<Rightarrow> cat [init_state_common emitting_constructor cc n s, tx '' )'']
     | State_info s \<Rightarrow> cat [init_state_common emitting_constructor cc n s, tx '' )'']
     | _ \<Rightarrow> Inl Crash)"

definition init_event_common :: "compiler \<Rightarrow> sym \<Rightarrow> event_info \<Rightarrow> outp" where
  "init_event_common cc n e = cat [ind 1, tx n, tx ''( this, '', tx n, tx TRANSITIONS_SUFFIX, tx ('', '' @ dq),
     (if ev_kind e = KIND_USER then tx n
      else cat [tx (if ev_kind e = KIND_ENTER then ''enter'' else ''exit''), tx ''('',
        (case demangle (tl n) of Some d \<Rightarrow> tx d | None \<Rightarrow> Inl Crash), tx '')'']),
     tx (dq @ '', '')]"

definition init_event :: "compiler \<Rightarrow> sym \<Rightarrow> outp" where
  "init_event cc n = rbind (first_info cc n) (\<lambda>i.
     case i of
       Enex_event_info e \<Rightarrow> cat [init_event_common cc n e, tx (decimal 0), tx '' )'']
     | User_event_info e ue \<Rightarrow> cat [init_event_common cc n e,
         tx (case ue_base ue of Some b \<Rightarrow> ''&'' @ b | None \<Rightarrow> ''nullptr''), tx '' )'']
     | _ \<Rightarrow> Inl Crash)"

section \<open>Definitions\<close>

text \<open>A table of numbers ends with the sentinel.\<close>

definition number_list :: "int list \<Rightarrow> outp" where
  "number_list is = cat [cat (map (\<lambda>i. tx (int_text i @ '', '')) is), tx (int_text (-1)), endl]"

definition define_event_common :: "compiler \<Rightarrow> sym \<Rightarrow> event_info \<Rightarrow> outp" where
  "define_event_common cc n e = cat [tx NS, tx ''::transition::id const '', tx (chsm_name cc), tx ''::'', tx n,
     tx TRANSITIONS_SUFFIX, tx ''[] = {'', endl, ind 1, number_list (ev_transition_ids e), tx ''};'', endl]"

text \<open>The class of a nested state: \<^verbatim>\<open>x.y.z\<close> becomes \<^verbatim>\<open>state_x::state_y::state_z\<close>.\<close>

fun conv_loop :: "string \<Rightarrow> string" where
  "conv_loop [] = []"
| "conv_loop (c # cs) = (if c = CHR ''.'' then ''::'' @ PARENT_CLASS_PREFIX @ conv_loop cs else c # conv_loop cs)"

definition conv_name :: "string \<Rightarrow> stop + string" where
  "conv_name name = (let buf = PARENT_CLASS_PREFIX @ conv_loop name
     in if length buf + 1 > 256 then Inl Crash else Inr buf)"

fun serials :: "compiler \<Rightarrow> sym list \<Rightarrow> stop + int list" where
  "serials cc [] = Inr []"
| "serials cc (c # cs) = rbind (serial cc (Some c)) (\<lambda>i. rbind (serials cc cs) (\<lambda>is. Inr (i # is)))"

definition children_table :: "compiler \<Rightarrow> sym \<Rightarrow> sym list \<Rightarrow> outp" where
  "children_table cc n children = rbind (conv_name n) (\<lambda>conv_buf. cat [
     tx NS, tx ''::state::id const '', tx (chsm_name cc), tx ''::'', tx conv_buf, tx ''::children_[] = {'', endl, ind 1,
     rbind (serials cc children) number_list, tx ''};'', endl])"

definition define_parent ::
    "compiler \<Rightarrow> sym \<Rightarrow> sym list \<Rightarrow> string option \<Rightarrow> string option \<Rightarrow> outp" where
  "define_parent cc n children formal_params actual_params = rbind (conv_name n) (\<lambda>conv_buf. cat [
     children_table cc n children,
     tx (chsm_name cc), tx ''::'', tx conv_buf, tx ''::'', tx PARENT_CLASS_PREFIX, tx (state_base_name n),
     tx ''( CHSM_STATE_ARGS'', (case formal_params of Some f \<Rightarrow> cat [tx '', '', tx f] | None \<Rightarrow> nothing), tx '' ) :'', endl,
     ind 1, lib_class cc n, tx ''( CHSM_STATE_INIT, children_'',
     (case actual_params of Some a \<Rightarrow> cat [tx '', '', tx a] | None \<Rightarrow> nothing), tx '' )'',
     (if Some n \<noteq> SY_ROOT cc
      then cat (map (\<lambda>c. cat [tx '','', endl, init_state False cc c]) children) else nothing),
     endl, tx ''{'', endl, tx ''}'', endl])"

definition define_state :: "compiler \<Rightarrow> sym \<Rightarrow> outp" where
  "define_state cc n = rbind (first_info cc n) (\<lambda>i.
     case i of
       Cluster_info _ children _ \<Rightarrow> define_parent cc n children (Some ''bool chsm_history_'') (Some ''chsm_history_'')
     | Set_info _ children \<Rightarrow> define_parent cc n children None None
     | _ \<Rightarrow> Inl Crash)"

definition emit_states :: "config \<Rightarrow> compiler \<Rightarrow> outp" where
  "emit_states cf cc = with_chsm cc (\<lambda>ch. cat [
     tx (section_comment cf), tx ''state definitions'', endl, endl, define_state cc (ch_root ch), endl,
     cat (map (\<lambda>n. if type_of cc n 0 AND T_PARENT \<noteq> T_NONE then cat [define_state cc n, endl] else nothing)
       (ch_states ch))])"

definition define_user_event :: "compiler \<Rightarrow> sym \<Rightarrow> event_info \<Rightarrow> user_event_info \<Rightarrow> outp" where
  "define_user_event cc n e ue = rbind (has_any_parameters (depth_bound cc) cc ue) (\<lambda>params.
     rbind (base_has_any_parameters (depth_bound cc) cc ue) (\<lambda>base_params. cat [
     define_event_common cc n e,
     (if params then cat [
        tx (chsm_name cc), tx ''::'', tx (class_name n), tx ''::param_block::param_block( '', tx NS, tx ''::event const &event'',
        tx_of (event_param_list cc ue (EMIT_COMMA OR EMIT_PREFIX OR EMIT_FORMAL)), tx '' ) :'', endl,
        ind 1, tx ''base_param_block( event'',
        (if base_params then (case ue_base ue of None \<Rightarrow> Inl Crash | Some b \<Rightarrow> with_info as_user_event cc b (\<lambda>base.
           tx_of (event_param_list cc base (EMIT_COMMA OR EMIT_PREFIX OR EMIT_ACTUAL)))) else nothing),
        tx '' )'',
        cat (map (\<lambda>p. tx ('', '' @ fp_name p @ ''( '' @ PARAM_PREFIX @ fp_name p @ '' )'')) (ue_params ue)),
        endl, tx ''{'', endl, tx ''}'', endl] else nothing),
     tx (chsm_name cc), tx ''::'', tx (class_name n), tx ''::param_block::~param_block() { }'', endl,
     (if params \<or> ue_precondition ue \<noteq> PRECONDITION_NONE then cat [
        endl, tx ''void '', tx (chsm_name cc), tx ''::'', tx (class_name n), tx ''::operator()'', tx ''('',
        tx_of (event_param_list cc ue EMIT_FORMAL), tx '') {'', endl,
        ind 1, tx ''machine_lock const lock( machine_ );'', endl, ind 1, tx ''if ( in_progress_ == 0 )'', endl,
        ind 2, tx ''broadcast( new( static_cast<'', tx (chsm_name cc), tx ''&>(machine_).'', tx n,
        tx ''_param_block ) param_block( *this'', tx_of (event_param_list cc ue (EMIT_COMMA OR EMIT_ACTUAL)), tx '' ) );'', endl,
        tx ''}'', endl] else nothing)]))"

definition define_event :: "compiler \<Rightarrow> sym \<Rightarrow> outp" where
  "define_event cc n = rbind (first_info cc n) (\<lambda>i.
     case i of
       Enex_event_info e \<Rightarrow> define_event_common cc n e
     | User_event_info e ue \<Rightarrow> define_user_event cc n e ue
     | _ \<Rightarrow> Inl Crash)"

definition emit_events :: "config \<Rightarrow> compiler \<Rightarrow> outp" where
  "emit_events cf cc = with_chsm cc (\<lambda>ch. cat [
     tx (section_comment cf), tx ''event definitions'', endl, endl,
     cat (map (\<lambda>n. cat [define_event cc n, endl]) (ch_events ch))])"

definition member_cast :: "compiler \<Rightarrow> string \<Rightarrow> string \<Rightarrow> nat \<Rightarrow> string" where
  "member_cast cc what prefix i = (if i > 0
     then ''static_cast<'' @ NS @ ''::transition::'' @ what @ ''>(&'' @ chsm_name cc @ ''::'' @ prefix @ decimal i @ '')''
     else ''nullptr'')"

definition define_transition :: "compiler \<Rightarrow> transition_info \<Rightarrow> outp" where
  "define_transition cc t = cat [ind 1, tx ''{ '',
     tx (member_cast cc ''condition'' PREFIX_CONDITION (ti_condition_id t)),
     tx '', '', rbind (serial cc (Some (ti_from t))) (\<lambda>i. tx (int_text i)),
     tx '', '', rbind (serial cc (ti_to t)) (\<lambda>i. tx (int_text i)), tx '', '',
     tx (member_cast cc ''target'' PREFIX_TARGET (ti_target_id t)), tx '', '',
     tx (member_cast cc ''action'' PREFIX_ACTION (ti_action_id t)), tx '' },'']"

definition emit_transitions :: "config \<Rightarrow> compiler \<Rightarrow> outp" where
  "emit_transitions cf cc = with_chsm cc (\<lambda>ch. cat [
     tx (section_comment cf), tx ''transitions'', endl, endl, tx NS, tx ''::transition const '', tx (chsm_name cc),
     tx ''::transition_[] = {'', endl, cat (map (\<lambda>t. cat [define_transition cc t, endl]) (ch_transitions ch)),
     ind 1, tx ''{ nullptr, 0, 0, nullptr, nullptr }'', endl, tx ''};'', endl, endl])"

definition state_vector :: "sym list \<Rightarrow> outp" where
  "state_vector states = cat [
     cat (map (\<lambda>(i, n). cat [ind 1, tx ''state_['', tx (decimal i), tx ''] = &'', tx n, tx '';'', endl]) (enumerate 0 states)),
     ind 1, tx ''state_['', tx (decimal (length states)), tx ''] = nullptr;'', endl]"

definition define_chsm :: "config \<Rightarrow> compiler \<Rightarrow> chsm_info \<Rightarrow> outp" where
  "define_chsm cf cc ch = (let n = chsm_name cc in
     with_info as_children cc (ch_root ch) (\<lambda>root_children. cat [
     tx (section_comment cf), tx ''CHSM constructor definition'', endl, endl, tx n, tx ''::'', tx n, tx ''('',
     tx_of (chsm_param_list ch (EMIT_PREFIX OR EMIT_FORMAL)), tx '') :'', endl, ind 1,
     tx (if ch_derived ch \<noteq> [] then ch_derived ch else NS @ ''::machine''),
     tx ''( state_, root, transition_, taken_, target_, '', tx (decimal (length (ch_transitions ch))),
     tx_of (chsm_param_list ch (EMIT_COMMA OR EMIT_ACTUAL OR EMIT_PREFIX)), tx '' )'',
     tx '','', endl, init_state True cc (ch_root ch),
     cat (map (\<lambda>c. cat [tx '','', endl, init_state True cc c]) root_children),
     cat (map (\<lambda>e. cat [tx '','', endl, init_event cc e]) (ch_events ch)),
     endl, tx ''{'', endl, state_vector (ch_states ch), tx ''}'', endl,
     endl, tx n, tx ''::~'', tx n, tx ''() {'', endl, tx ''}'', endl]))"

definition emit_definitions :: "config \<Rightarrow> compiler \<Rightarrow> string \<Rightarrow> outp" where
  "emit_definitions cf cc user_code = cat [tx ''#include <new>'', endl, endl,
     emit_states cf cc, emit_events cf cc, emit_transitions cf cc, with_chsm cc (define_chsm cf cc),
     endl, tx ''// user-code'', endl, copy_to user_code, emit_source_line_no cf cc 0, emit_the_end cf]"

text \<open>\<^verbatim>\<open>cpp_declarer::emit\<close>: the two files, or one.\<close>

definition emit_cpp :: "config \<Rightarrow> compiler \<Rightarrow> string \<Rightarrow> stop + item list list" where
  "emit_cpp cf cc user_code = rbind (emit_declarations cf cc) (\<lambda>d.
     rbind (if cf_codegen_only cf then nothing else emit_definition_header cf) (\<lambda>h.
     rbind (emit_definitions cf cc user_code) (\<lambda>c.
       Inr (if cf_codegen_only cf then [d @ c] else [d, h @ c]))))"

end
