(* ===== verification/Chsmc_Tables.thy ===== *)
theory Chsmc_Tables
  imports Chsmc_Cpp
begin

text \<open>
  The tables of numbers the generator writes, read back the way a C++ compiler reads an
  initializer: the text between the braces, split at its commas.  What comes back are the
  serial numbers of the children, the ids of the transitions of an event, and the two states of
  a transition.
\<close>

section \<open>Reading an initializer\<close>

fun fields :: "string \<Rightarrow> string list" where
  "fields [] = [[]]"
| "fields (c # cs) = (if c = CHR '','' then [] # fields cs
     else case fields cs of f # fs \<Rightarrow> (c # f) # fs | [] \<Rightarrow> [[c]])"

definition braces :: "string \<Rightarrow> string" where
  "braces t = takeWhile (\<lambda>c. c \<noteq> CHR ''}'') (tl (dropWhile (\<lambda>c. c \<noteq> CHR ''{'') t))"

definition read_ids :: "string \<Rightarrow> int list" where
  "read_ids t = map atoi (fields (braces t))"

text \<open>The run-time library reads such an array up to the sentinel.\<close>

definition before_sentinel :: "int list \<Rightarrow> int list" where
  "before_sentinel is = takeWhile (\<lambda>i. i \<noteq> -1) is"

lemma fields_plain: "CHR '','' \<notin> set s \<Longrightarrow> fields s = [s]"
  by (induction s) auto

lemma fields_comma: "CHR '','' \<notin> set s \<Longrightarrow> fields (s @ CHR '','' # rest) = s # fields rest"
  by (induction s) auto

lemma before_sentinel_append: "\<forall>i \<in> set is. 0 \<le> i \<Longrightarrow> before_sentinel (is @ [-1]) = is"
  by (induction "is") (auto simp: before_sentinel_def)

section \<open>Numbers\<close>

lemma int_text_chars: "c \<in> set (int_text i) \<Longrightarrow> c = CHR ''-'' \<or> isdigit c"
  using decimal_chars(1) by (auto simp: int_text_def split: if_splits)

lemma int_text_plain: "\<not> isdigit c \<Longrightarrow> c \<noteq> CHR ''-'' \<Longrightarrow> c \<notin> set (int_text i)"
  using int_text_chars by blast

lemma atoi_int_text:
  assumes "rest = [] \<or> \<not> isdigit (hd rest)"
  shows "atoi (int_text i @ rest) = i"
proof (cases "i < 0")
  case True
  then show ?thesis
    using takeWhile_decimal [OF assms] not_space_minus by (simp add: int_text_def atoi_def)
qed (simp add: int_text_def atoi_decimal [OF assms])

lemma atoi_space: "isspace c \<Longrightarrow> atoi (c # s) = atoi s"
  by (simp add: atoi_def)

lemma space_chars [simp]:
  "isspace CHR '' ''" "isspace CHR 0x0A" "isspace CHR 0x09" "\<not> isdigit CHR 0x0A" "\<not> isdigit CHR '' ''"
  "\<not> isdigit CHR '',''" "\<not> isdigit CHR ''}''" "\<not> isdigit CHR ''{''"
  by code_simp+

lemma fields_not_Nil: "fields t \<noteq> []"
  by (induction t) (auto split: list.splits)

lemma fields_space:
  assumes "isspace c" "c \<noteq> CHR '',''"
  shows "map atoi (fields (c # t)) = map atoi (fields t)"
  using assms fields_not_Nil [of t] by (cases "fields t") (auto simp: atoi_space)

section \<open>Text of a list of numbers\<close>

definition number_items :: "int list \<Rightarrow> item list" where
  "number_items is = map (\<lambda>i. Txt (int_text i @ '', '')) is @ [Txt (int_text (-1)), Endl]"

lemma item_text_append_txt: "item_text a (map Txt ts @ rest) = concat ts @ item_text a rest"
  by (induction ts) auto

lemma number_list_items: "number_list is = Inr (number_items is)"
proof -
  have "cat (map (\<lambda>i. tx (int_text i @ '', '')) is) = Inr (map (\<lambda>i. Txt (int_text i @ '', '')) is)"
    by (induction "is") (simp_all add: tx_def)
  then show ?thesis by (simp add: number_list_def number_items_def tx_def endl_def)
qed

definition number_text :: "int list \<Rightarrow> string" where
  "number_text is = concat (map (\<lambda>i. int_text i @ '', '') is) @ ''-1'' @ [CHR 0x0A]"

lemma minus_one_text: "int_text (-1) = ''-1''"
  by code_simp

lemma number_items_text: "item_text a (number_items is @ rest) = number_text is @ item_text a rest"
proof -
  have "map (\<lambda>i. Txt (int_text i @ '', '')) is = map Txt (map (\<lambda>i. int_text i @ '', '') is)"
    by simp
  then show ?thesis
    by (simp only: number_items_def append_assoc item_text_append_txt)
      (simp add: number_text_def minus_one_text)
qed

lemma number_text_fields: "map atoi (fields (number_text is)) = is @ [-1]"
proof (induction "is")
  case Nil
  have "fields (number_text []) = [''-1'' @ [CHR 0x0A]]"
    by (simp add: number_text_def)
  then show ?case
    using atoi_int_text [of "[CHR 0x0A]" "-1"] by (simp add: minus_one_text)
next
  case (Cons i "is")
  have "number_text (i # is) = int_text i @ CHR '','' # CHR '' '' # number_text is"
    by (simp add: number_text_def)
  moreover have "CHR '','' \<notin> set (int_text i)" by (rule int_text_plain) simp_all
  ultimately have "fields (number_text (i # is)) = int_text i # fields (CHR '' '' # number_text is)"
    by (metis fields_comma)
  then show ?case
    using fields_space [of "CHR '' ''" "number_text is"] Cons atoi_int_text [of "[]" i]
    by (simp del: fields.simps)
qed

lemma number_text_braces: "CHR ''}'' \<notin> set (number_text is)"
  using int_text_plain [of "CHR ''}''"] by (auto simp: number_text_def)

text \<open>A table whose heading has no brace reads back.\<close>

lemma read_ids_table:
  assumes "CHR ''{'' \<notin> set before"
  shows "read_ids (before @ CHR ''{'' # CHR 0x0A # replicate a CHR 0x09 @ number_text is @ CHR ''}'' # after)
    = is @ [-1]"
proof -
  have "braces (before @ CHR ''{'' # CHR 0x0A # replicate a CHR 0x09 @ number_text is @ CHR ''}'' # after)
      = CHR 0x0A # replicate a CHR 0x09 @ number_text is"
    using assms number_text_braces [of "is"]
    by (simp add: braces_def dropWhile_append takeWhile_append takeWhile_eq_all_conv in_set_replicate) 
  moreover have "map atoi (fields (CHR 0x0A # replicate a CHR 0x09 @ t)) = map atoi (fields t)" for t
    by (induction a) (simp_all add: fields_space del: fields.simps)
  ultimately show ?thesis
    by (simp add: read_ids_def number_text_fields)
qed

section \<open>The tables of the generator\<close>

text \<open>The identifiers that go into the headings hold neither a brace nor a comma.\<close>

definition plain_text :: "string \<Rightarrow> bool" where
  "plain_text s \<longleftrightarrow> CHR ''{'' \<notin> set s \<and> CHR '','' \<notin> set s"

lemma plain_append [simp]: "plain_text (s @ t) \<longleftrightarrow> plain_text s \<and> plain_text t"
  by (auto simp: plain_text_def)

lemma conv_loop_plain: "plain_text s \<Longrightarrow> plain_text (conv_loop s)"
  by (induction s rule: conv_loop.induct) (auto simp: plain_text_def PARENT_CLASS_PREFIX_def)

lemma children_table_reads:
  assumes "children_table cc n children = Inr items" "plain_text n" "plain_text (chsm_name cc)"
  obtains "is" where "serials cc children = Inr is" "read_ids (item_text a items) = is @ [-1]"
proof -
  obtain buf "is" where buf: "conv_name n = Inr buf" and "is": "serials cc children = Inr is"
    and items: "items = [Txt NS, Txt ''::state::id const '', Txt (chsm_name cc), Txt ''::'', Txt buf,
      Txt ''::children_[] = {'', Endl, Ind 1] @ number_items is @ [Txt ''};'', Endl]"
    using assms(1) by (auto simp: children_table_def tx_def endl_def ind_def number_list_items)
  let ?before = "NS @ ''::state::id const '' @ chsm_name cc @ ''::'' @ buf @ ''::children_[] = ''"
  have "plain_text buf"
    using buf conv_loop_plain [OF assms(2)]
    by (auto simp: conv_name_def Let_def PARENT_CLASS_PREFIX_def plain_text_def split: if_splits)
  then have "CHR ''{'' \<notin> set ?before"
    using assms(3) by (auto simp: plain_text_def NS_def)
  moreover have "item_text a items
      = ?before @ CHR ''{'' # CHR 0x0A # replicate a CHR 0x09 @ number_text is @ CHR ''}'' # '';'' @ [CHR 0x0A]"
    by (simp add: items number_items_text)
  ultimately have "read_ids (item_text a items) = is @ [-1]"
    by (metis read_ids_table)
  with "is" show ?thesis by (rule that)
qed

lemma event_table_reads:
  assumes "define_event_common cc n e = Inr items" "plain_text n" "plain_text (chsm_name cc)"
  shows "read_ids (item_text a items) = ev_transition_ids e @ [-1]"
proof -
  let ?before = "NS @ ''::transition::id const '' @ chsm_name cc @ ''::'' @ n @ TRANSITIONS_SUFFIX @ ''[] = ''"
  have "items = [Txt NS, Txt ''::transition::id const '', Txt (chsm_name cc), Txt ''::'', Txt n,
      Txt TRANSITIONS_SUFFIX, Txt ''[] = {'', Endl, Ind 1] @ number_items (ev_transition_ids e) @ [Txt ''};'', Endl]"
    using assms(1) by (auto simp: define_event_common_def tx_def endl_def ind_def number_list_items)
  then have "item_text a items = ?before @ CHR ''{'' # CHR 0x0A # replicate a CHR 0x09
      @ number_text (ev_transition_ids e) @ CHR ''}'' # '';'' @ [CHR 0x0A]"
    by (simp add: number_items_text)
  moreover have "CHR ''{'' \<notin> set ?before"
    using assms(2,3) by (auto simp: plain_text_def NS_def TRANSITIONS_SUFFIX_def)
  ultimately show ?thesis
    by (metis read_ids_table)
qed

text \<open>A row of the table of transitions: five fields, the second and the third numbers.\<close>

lemma member_cast_plain: "plain_text (chsm_name cc) \<Longrightarrow> plain_text w \<Longrightarrow> plain_text pre \<Longrightarrow>
    CHR '','' \<notin> set (member_cast cc w pre i)"
  using decimal_chars(1) [of "CHR '',''" i]
  by (auto simp: member_cast_def plain_text_def NS_def)

lemma transition_row_reads:
  assumes "define_transition cc t = Inr items" "plain_text (chsm_name cc)"
  obtains from_id to_id cond targ act where
    "serial cc (Some (ti_from t)) = Inr from_id" "serial cc (ti_to t) = Inr to_id"
    "fields (item_text a items) = [cond, CHR '' '' # int_text from_id, CHR '' '' # int_text to_id, targ, act, []]"
    "cond = replicate a CHR 0x09 @ ''{ '' @ member_cast cc ''condition'' PREFIX_CONDITION (ti_condition_id t)"
    "targ = CHR '' '' # member_cast cc ''target'' PREFIX_TARGET (ti_target_id t)"
    "act = CHR '' '' # member_cast cc ''action'' PREFIX_ACTION (ti_action_id t) @ '' }''"
proof -
  obtain i j where ij: "serial cc (Some (ti_from t)) = Inr i" "serial cc (ti_to t) = Inr j"
    and items: "items = [Ind 1, Txt ''{ '', Txt (member_cast cc ''condition'' PREFIX_CONDITION (ti_condition_id t)),
      Txt '', '', Txt (int_text i), Txt '', '', Txt (int_text j), Txt '', '',
      Txt (member_cast cc ''target'' PREFIX_TARGET (ti_target_id t)), Txt '', '',
      Txt (member_cast cc ''action'' PREFIX_ACTION (ti_action_id t)), Txt '' },'']"
    using assms(1) by (auto simp: define_transition_def tx_def ind_def)
  let ?c = "replicate a CHR 0x09 @ ''{ '' @ member_cast cc ''condition'' PREFIX_CONDITION (ti_condition_id t)"
  let ?t = "CHR '' '' # member_cast cc ''target'' PREFIX_TARGET (ti_target_id t)"
  let ?a = "CHR '' '' # member_cast cc ''action'' PREFIX_ACTION (ti_action_id t) @ '' }''"
  have p: "CHR '','' \<notin> set ?c" "CHR '','' \<notin> set ?t" "CHR '','' \<notin> set ?a"
      "CHR '','' \<notin> set (CHR '' '' # int_text i)" "CHR '','' \<notin> set (CHR '' '' # int_text j)"
    using member_cast_plain [OF assms(2)] int_text_plain [of "CHR '',''"]
    by (auto simp: plain_text_def PREFIX_CONDITION_def PREFIX_TARGET_def PREFIX_ACTION_def in_set_replicate)
  have "item_text a items = ?c @ CHR '','' # (CHR '' '' # int_text i) @ CHR '','' # (CHR '' '' # int_text j)
      @ CHR '','' # ?t @ CHR '','' # ?a @ CHR '','' # []"
    by (simp add: items)
  then have "fields (item_text a items) = [?c, CHR '' '' # int_text i, CHR '' '' # int_text j, ?t, ?a, []]"
    by (metis p fields_comma fields.simps(1))
  with ij show ?thesis by (rule that [OF _ _ _ refl refl refl])
qed

end
