(* ===== verification/Chsmc_Java.thy ===== *)
theory Chsmc_Java
  imports Chsmc_Cpp
begin

text \<open>
  The generator of Java code (\<^verbatim>\<open>chsmc/java_generator.cpp\<close>): the macros it substitutes in
  the user's text, what its three visitors insert into the one target file, and the text the
  parser's actions have it insert into the file of user code.  Last come the operations of
  \<^verbatim>\<open>code_generator\<close> that the parser calls without knowing the language.
\<close>

section \<open>Names\<close>

definition CHSM_PACKAGE_NAME :: string where "CHSM_PACKAGE_NAME = ''CHSM''"
definition EVENT_SUFFIX :: string where "EVENT_SUFFIX = ''Event''"
definition STATE_CLASS_PREFIX :: string where "STATE_CLASS_PREFIX = ''State_''"
definition TRANSITIONS_END :: string where "TRANSITIONS_END = ''Transitions''"

definition java_or_default :: "string \<Rightarrow> string \<Rightarrow> string" where
  "java_or_default derived name = (if derived \<noteq> [] then derived else CHSM_PACKAGE_NAME @ name)"

definition java_lib_class_name :: "info \<Rightarrow> stop + string" where
  "java_lib_class_name i = (case i of
     Cluster_info s _ _ \<Rightarrow> Inr (java_or_default (st_derived s) ''.Cluster'')
   | Enex_event_info _ \<Rightarrow> Inr (CHSM_PACKAGE_NAME @ ''.Event'')
   | User_event_info _ _ \<Rightarrow> Inr (CHSM_PACKAGE_NAME @ ''.Event'')
   | Set_info s _ \<Rightarrow> Inr (java_or_default (st_derived s) ''.Set'')
   | State_info s \<Rightarrow> Inr (java_or_default (st_derived s) ''.State'')
   | _ \<Rightarrow> Inl (Exit EX_SOFTWARE))"

definition java_lib_class :: "compiler \<Rightarrow> sym \<Rightarrow> outp" where
  "java_lib_class cc n = tx_of (rbind (first_info cc n) java_lib_class_name)"

definition java_base_class_name :: "compiler \<Rightarrow> user_event_info \<Rightarrow> string" where
  "java_base_class_name cc ue = (case ue_base ue of
     Some b \<Rightarrow> chsm_name cc @ ''.'' @ b @ EVENT_SUFFIX
   | None \<Rightarrow> CHSM_PACKAGE_NAME @ ''.Event'')"

definition java_class_name :: "sym \<Rightarrow> string" where
  "java_class_name n = n @ EVENT_SUFFIX"

section \<open>Macros\<close>

text \<open>The argument lists of the library's constructors: each argument with its type, of which an
  actual argument list only takes the name.\<close>

type_synonym arg_list = "(string \<times> string) list"

definition formal_args :: "arg_list \<Rightarrow> string" where
  "formal_args args = concat (map (\<lambda>(t, n). t @ '' '' @ n) args)"

definition actual_args :: "arg_list \<Rightarrow> string" where
  "actual_args args = concat (map snd args)"

definition STATE_ARG_LIST :: arg_list where
  "STATE_ARG_LIST = [(''CHSM.Machine'', ''chsmM, ''), (''String'', ''chsmN, ''), (''CHSM.Parent'', ''chsmP, ''),
     (''CHSM.State.Action'', ''chsmEA, ''), (''CHSM.State.Action'', ''chsmXA, ''),
     (''CHSM.Event'', ''chsmEE, ''), (''CHSM.Event'', ''chsmXE'')]"

definition EVENT_ARG_LIST :: arg_list where
  "EVENT_ARG_LIST = [(''CHSM.Machine'', ''chsmM, ''), (''int[]'', ''chsmTids, ''), (''String'', ''chsmN, ''),
     (''CHSM.Event'', ''chsmBE'')]"

definition CHSM_STATE_ARGS :: string where "CHSM_STATE_ARGS = formal_args STATE_ARG_LIST"
definition CHSM_STATE_INIT :: string where "CHSM_STATE_INIT = actual_args STATE_ARG_LIST"
definition CHSM_EVENT_ARGS :: string where "CHSM_EVENT_ARGS = formal_args EVENT_ARG_LIST"
definition CHSM_EVENT_INIT :: string where "CHSM_EVENT_INIT = actual_args EVENT_ARG_LIST"
definition CHSM_PARENT_ARGS :: string where
  "CHSM_PARENT_ARGS = CHSM_STATE_ARGS @ '', '' @ formal_args [(''int[]'', ''chsmCids'')]"
definition CHSM_PARENT_INIT :: string where
  "CHSM_PARENT_INIT = CHSM_STATE_INIT @ '', '' @ actual_args [(''int[]'', ''chsmCids'')]"
definition CHSM_CLUSTER_ARGS :: string where
  "CHSM_CLUSTER_ARGS = CHSM_PARENT_ARGS @ '', '' @ formal_args [(''boolean'', ''chsmH'')]"
definition CHSM_CLUSTER_INIT :: string where
  "CHSM_CLUSTER_INIT = CHSM_PARENT_INIT @ '', '' @ actual_args [(''boolean'', ''chsmH'')]"

text \<open>The map is ordered by its keys.\<close>

definition macro_map :: "(string \<times> string) list" where
  "macro_map = [
     (''CHSM_CLUSTER_ARGS'', CHSM_CLUSTER_ARGS), (''CHSM_CLUSTER_INIT'', CHSM_CLUSTER_INIT),
     (''CHSM_EVENT_ARGS'', CHSM_EVENT_ARGS), (''CHSM_EVENT_INIT'', CHSM_EVENT_INIT),
     (''CHSM_PARENT_ARGS'', CHSM_PARENT_ARGS), (''CHSM_PARENT_INIT'', CHSM_PARENT_INIT),
     (''CHSM_SET_ARGS'', CHSM_PARENT_ARGS), (''CHSM_SET_INIT'', CHSM_PARENT_INIT),
     (''CHSM_STATE_ARGS'', CHSM_STATE_ARGS), (''CHSM_STATE_INIT'', CHSM_STATE_INIT)]"

text \<open>\<^verbatim>\<open>std::string::find\<close>: the first occurrence.\<close>

fun find_text :: "string \<Rightarrow> string \<Rightarrow> nat option" where
  "find_text k [] = (if k = [] then Some 0 else None)"
| "find_text k (c # cs) = (if take (length k) (c # cs) = k then Some 0 else map_option Suc (find_text k cs))"

text \<open>The inner loop replaces as long as it finds the macro.  It ends because no expansion has an
  underscore; the bound is the number of underscores.\<close>

fun replace_loop :: "nat \<Rightarrow> string \<Rightarrow> string \<Rightarrow> string \<Rightarrow> stop + string" where
  "replace_loop bound key expansion s = (case find_text key s of
     None \<Rightarrow> Inr s
   | Some pos \<Rightarrow> (case bound of 0 \<Rightarrow> Inl Crash
      | Suc b \<Rightarrow> replace_loop b key expansion (take pos s @ expansion @ drop (pos + length key) s)))"

declare replace_loop.simps [simp del]

definition substitute :: "string \<Rightarrow> stop + string" where
  "substitute line = iter_res (\<lambda>(key, expansion) s. replace_loop (count_list s CHR ''_'') key expansion s) macro_map line"

section \<open>User code\<close>

definition java_action_block_begin :: "config \<Rightarrow> compiler \<Rightarrow> outp" where
  "java_action_block_begin cf cc = with_chsm cc (\<lambda>ch. let i = decimal (ch_action_id ch) in cat [
     ind 1, tx ''private static final class Thunk_'', tx PREFIX_ACTION, tx i,
     tx '' implements '', tx CHSM_PACKAGE_NAME, tx (''.Transition.Action {'' @ nl),
     ind 2, tx ''public void exec('', tx CHSM_PACKAGE_NAME, tx (''.Event event ) {'' @ nl),
     ind 3, tx ''(('', tx (chsm_name cc), tx '')event.machine()).thunk_'', tx PREFIX_ACTION, tx i,
     tx (''( event );'' @ nl), ind 2, tx (''}'' @ nl), ind 1, tx (''}'' @ nl),
     ind 1, tx ''private void thunk_'', tx PREFIX_ACTION, tx i, tx ''( '', tx CHSM_PACKAGE_NAME,
     tx (''.Event event ) {'' @ nl), base_emit_source_line_no cf cc 0])"

definition java_action_block_end :: outp where
  "java_action_block_end = tx (''}'' @ nl)"

definition java_condition_expr_begin :: "config \<Rightarrow> compiler \<Rightarrow> outp" where
  "java_condition_expr_begin cf cc = with_chsm cc (\<lambda>ch. let i = decimal (ch_condition_id ch) in cat [
     ind 1, tx ''private static final class Thunk_'', tx PREFIX_CONDITION, tx i,
     tx '' implements '', tx CHSM_PACKAGE_NAME, tx (''.Transition.Condition {'' @ nl),
     ind 2, tx ''public boolean eval( '', tx CHSM_PACKAGE_NAME, tx (''.Event event ) {'' @ nl),
     ind 3, tx ''return (('', tx (chsm_name cc), tx '')event.machine()).thunk_'', tx PREFIX_CONDITION, tx i,
     tx (''( event );'' @ nl), ind 2, tx (''}'' @ nl), ind 1, tx (''}'' @ nl),
     ind 1, tx ''private boolean thunk_'', tx PREFIX_CONDITION, tx i, tx ''( '', tx CHSM_PACKAGE_NAME,
     tx (''.Event event ) {'' @ nl), base_emit_source_line_no cf cc 0, ind 2, tx ''return ''])"

definition java_condition_expr_end :: outp where
  "java_condition_expr_end = cat [tx ('';'' @ nl), ind 1, tx (''}'' @ nl)]"

definition java_enter_exit_begin :: "config \<Rightarrow> compiler \<Rightarrow> string \<Rightarrow> sym \<Rightarrow> outp" where
  "java_enter_exit_begin cf cc kind sy_state = cat [
     ind 1, tx ''private static final class Thunk_'', tx kind, tx PREFIX_ACTION, tx_mangle sy_state,
     tx '' implements '', tx CHSM_PACKAGE_NAME, tx (''.State.Action {'' @ nl),
     ind 2, tx ''public void exec( '', tx CHSM_PACKAGE_NAME, tx ''.State state, '', tx CHSM_PACKAGE_NAME,
     tx (''.Event event ) {'' @ nl),
     ind 3, tx ''(('', tx (chsm_name cc), tx '')state.machine()).'', tx kind, tx PREFIX_ACTION,
     tx_mangle sy_state, tx (''( state, event );'' @ nl), ind 2, tx (''}'' @ nl), ind 1, tx (''}'' @ nl),
     ind 1, tx ''private void '', tx kind, tx PREFIX_ACTION, tx_mangle sy_state, tx ''( '',
     tx CHSM_PACKAGE_NAME, tx ''.State state, '', tx CHSM_PACKAGE_NAME, tx (''.Event event ) {'' @ nl),
     base_emit_source_line_no cf cc 0]"

definition java_enter_exit_end :: outp where
  "java_enter_exit_end = cat [ind 1, tx (''}'' @ nl)]"

text \<open>The method that evaluates a precondition has the parameters of the event.\<close>

definition java_precondition_method :: "compiler \<Rightarrow> sym \<Rightarrow> outp" where
  "java_precondition_method cc ev = with_info as_user_event cc ev (\<lambda>ue. cat [
     ind 1, tx ''boolean '', tx ev, tx ''_precondition'', tx ''( '', tx_of (event_param_list cc ue EMIT_FORMAL),
     tx ('' ) {'' @ nl)])"

definition java_precondition_expr_begin :: "config \<Rightarrow> compiler \<Rightarrow> sym \<Rightarrow> outp" where
  "java_precondition_expr_begin cf cc ev = cat [java_precondition_method cc ev, ind 2, tx (''return ('' @ nl),
     base_emit_source_line_no cf cc 0]"

definition java_precondition_expr_end :: outp where
  "java_precondition_expr_end = cat [tx nl, ind 2, tx ('');'' @ nl), ind 1, tx (''}'' @ nl)]"

definition java_precondition_func_begin :: "config \<Rightarrow> compiler \<Rightarrow> sym \<Rightarrow> outp" where
  "java_precondition_func_begin cf cc ev = cat [java_precondition_method cc ev, base_emit_source_line_no cf cc 0]"

definition java_precondition_func_end :: outp where
  "java_precondition_func_end = cat [tx nl, ind 1, tx (''}'' @ nl)]"

definition java_emit_text :: "string \<Rightarrow> outp" where
  "java_emit_text t = tx_of (substitute t)"

definition java_transition_target_begin :: "config \<Rightarrow> compiler \<Rightarrow> outp" where
  "java_transition_target_begin cf cc = with_chsm cc (\<lambda>ch. let i = decimal (ch_target_id ch) in cat [
     ind 1, tx ''private static final class Thunk_'', tx PREFIX_TARGET, tx i,
     tx '' implements '', tx CHSM_PACKAGE_NAME, tx (''.Transition.Target {'' @ nl),
     ind 2, tx ''public '', tx CHSM_PACKAGE_NAME, tx ''.State eval( '', tx CHSM_PACKAGE_NAME, tx (''.Event event ) {'' @ nl),
     ind 3, tx ''return (('', tx (chsm_name cc), tx '')event.machine()).thunk_'', tx PREFIX_TARGET, tx i,
     tx (''( event );'' @ nl), ind 2, tx (''}'' @ nl), ind 1, tx (''}'' @ nl),
     ind 1, tx ''private '', tx CHSM_PACKAGE_NAME, tx ''.State thunk_'', tx PREFIX_TARGET, tx i, tx ''( '',
     tx CHSM_PACKAGE_NAME, tx (''.Event event ) {'' @ nl), base_emit_source_line_no cf cc 0, ind 2, tx ''return ''])"

definition java_transition_target_end :: outp where
  "java_transition_target_end = cat [tx ('';'' @ nl), ind 1, tx (''}'' @ nl)]"

definition java_filename_exts :: "string \<times> string" where
  "java_filename_exts = (''java'', ''java'')"

section \<open>Initializers\<close>

definition java_init_event_common :: "compiler \<Rightarrow> sym \<Rightarrow> event_info \<Rightarrow> outp" where
  "java_init_event_common cc n e = cat [tx ''( this, '', tx n, tx TRANSITIONS_END, tx ('', '' @ dq),
     (if ev_kind e = KIND_USER then tx n
      else cat [tx (if ev_kind e = KIND_ENTER then ''enter'' else ''exit''), tx ''('',
        (case demangle (tl n) of Some d \<Rightarrow> tx d | None \<Rightarrow> Inl Crash), tx '')'']),
     tx (dq @ '', '')]"

definition java_action_init :: "bool \<Rightarrow> string \<Rightarrow> string \<Rightarrow> outp" where
  "java_action_init has kind m_name = (if has then cat [tx ''new Thunk_'', tx kind, tx PREFIX_ACTION, tx m_name, tx ''()'']
     else tx ''null'')"

definition java_init_state_common :: "bool \<Rightarrow> compiler \<Rightarrow> sym \<Rightarrow> state_info \<Rightarrow> outp" where
  "java_init_state_common emitting_constructor cc n s = (case mangle n of None \<Rightarrow> Inl Crash | Some m_name \<Rightarrow>
     let chsm_ref = (if emitting_constructor then ''this'' else ''chsmM'') in cat [
     tx ''( '', tx chsm_ref, tx ('', '' @ dq), tx n, tx (dq @ '', ''),
     tx (case st_parent s of
           Some p \<Rightarrow> (if Some p = SY_ROOT cc then ''root'' else ''this'')
         | None \<Rightarrow> ''null''), tx '', '',
     java_action_init (st_action_enter s) PREFIX_ENTER m_name, tx '', '',
     java_action_init (st_action_exit s) PREFIX_EXIT m_name, tx '', '',
     (if st_event_enter s then cat [tx ''(('', tx (chsm_name cc), tx '')'', tx chsm_ref, tx '').'', tx PREFIX_ENTER, tx m_name]
      else tx ''null''), tx '', '',
     (if st_event_exit s then cat [tx ''( ('', tx (chsm_name cc), tx '')'', tx chsm_ref, tx '' ).'', tx PREFIX_EXIT, tx m_name]
      else tx ''null'')])"

definition java_init_parent :: "bool \<Rightarrow> compiler \<Rightarrow> sym \<Rightarrow> state_info \<Rightarrow> outp" where
  "java_init_parent emitting_constructor cc n s = (let base_name = state_base_name n in cat [
     ind 2, tx base_name, tx '' = new '', tx STATE_CLASS_PREFIX, tx base_name,
     java_init_state_common emitting_constructor cc n s])"

definition java_init_cluster :: "bool \<Rightarrow> compiler \<Rightarrow> sym \<Rightarrow> state_info \<Rightarrow> bool \<Rightarrow> outp" where
  "java_init_cluster emitting_constructor cc n s history = cat [java_init_parent emitting_constructor cc n s,
     tx '', '', tx (if history then ''true'' else ''false''), tx '' );'', endl]"

definition java_init_plain_state :: "bool \<Rightarrow> compiler \<Rightarrow> sym \<Rightarrow> state_info \<Rightarrow> outp" where
  "java_init_plain_state emitting_constructor cc n s = cat [ind 2, tx (state_base_name n), tx '' = new '',
     (if Some n = SY_ROOT cc then tx ''State_root'' else java_lib_class cc n),
     java_init_state_common emitting_constructor cc n s, tx '' );'', endl]"

definition java_init_state :: "bool \<Rightarrow> compiler \<Rightarrow> sym \<Rightarrow> outp" where
  "java_init_state emitting_constructor cc n = rbind (first_info cc n) (\<lambda>i.
     case i of
       Cluster_info s _ history \<Rightarrow> java_init_cluster emitting_constructor cc n s history
     | Set_info s _ \<Rightarrow> cat [java_init_parent emitting_constructor cc n s, tx '' );'', endl]
     | State_info s \<Rightarrow> java_init_plain_state emitting_constructor cc n s
     | _ \<Rightarrow> Inl Crash)"

definition java_init_enex_event :: "compiler \<Rightarrow> sym \<Rightarrow> event_info \<Rightarrow> outp" where
  "java_init_enex_event cc n e = cat [ind 2, tx n, tx '' = new '', java_lib_class cc n, java_init_event_common cc n e,
     tx ''null );'', endl]"

definition java_init_event :: "compiler \<Rightarrow> sym \<Rightarrow> outp" where
  "java_init_event cc n = rbind (first_info cc n) (\<lambda>i.
     case i of
       Enex_event_info e \<Rightarrow> java_init_enex_event cc n e
     | User_event_info e ue \<Rightarrow> cat [ind 2, tx n, tx '' = new '', tx n, tx EVENT_SUFFIX, java_init_event_common cc n e,
         tx (case ue_base ue of Some b \<Rightarrow> b | None \<Rightarrow> ''null''), tx '' );'', endl]
     | _ \<Rightarrow> Inl Crash)"

section \<open>Definitions\<close>

definition comma_list :: "string list \<Rightarrow> outp" where
  "comma_list ts = tx (sep_list (list_sep_ctor '', '') ts)"

definition java_define_event :: "sym \<Rightarrow> event_info \<Rightarrow> outp" where
  "java_define_event n e = cat [ind 1, tx ''private final static int '', tx n, tx TRANSITIONS_END, tx ''[] = { '',
     comma_list (map int_text (ev_transition_ids e)), tx '' };'', endl]"

definition java_define_parent :: "compiler \<Rightarrow> sym \<Rightarrow> sym list \<Rightarrow> string option \<Rightarrow> outp" where
  "java_define_parent cc n children actual_params = cat [
     ind 3, tx (''super( '' @ CHSM_STATE_INIT @ '', children_''),
     (case actual_params of Some a \<Rightarrow> cat [tx '', '', tx a] | None \<Rightarrow> nothing), tx '' );'', endl,
     (if Some n \<noteq> SY_ROOT cc then cat (map (java_init_state False cc) children) else nothing),
     ind 2, tx ''}'', endl]"

definition java_define_user_event :: "compiler \<Rightarrow> user_event_info \<Rightarrow> outp" where
  "java_define_user_event cc ue = rbind (has_any_parameters (depth_bound cc) cc ue) (\<lambda>params. cat [
     ind 4, tx ''super( event'',
     (if params then rbind (base_has_any_parameters (depth_bound cc) cc ue) (\<lambda>base_params. cat [
        (if base_params then (case ue_base ue of None \<Rightarrow> Inl Crash | Some b \<Rightarrow> with_info as_user_event cc b (\<lambda>base.
           tx_of (event_param_list cc base (EMIT_COMMA OR EMIT_PREFIX OR EMIT_ACTUAL)))) else nothing),
        tx '' );'', endl])
      else cat [tx '' );'', endl]),
     cat (map (\<lambda>p. cat [ind 4, tx (fp_name p), tx '' = '', tx PARAM_PREFIX, tx (fp_name p), tx '';'', endl]) (ue_params ue))])"

definition java_define_chsm :: "compiler \<Rightarrow> chsm_info \<Rightarrow> outp" where
  "java_define_chsm cc ch = with_info as_children cc (ch_root ch) (\<lambda>root_children. cat [
     endl, ind 1, tx ''// constructor definition'', endl, ind 1, tx ''public '', tx (chsm_name cc), tx ''( '',
     tx_of (chsm_param_list ch EMIT_FORMAL), tx '' ) {'', endl, ind 2, tx ''super( '',
     tx_of (chsm_param_list ch EMIT_ACTUAL), tx '' );'', endl,
     endl, ind 2, tx ''// initialize events'', endl, cat (map (java_init_event cc) (ch_events ch)),
     endl, ind 2, tx ''// initialize states'', endl, java_init_state True cc (ch_root ch),
     cat (map (java_init_state True cc) root_children),
     endl, ind 2, tx ''// initialize state array'', endl,
     cat (map (\<lambda>(i, n). cat [ind 2, tx ''state_[ '', tx (decimal i), tx '' ] = '', tx n, tx '';'', endl])
       (enumerate 0 (ch_states ch))),
     endl, ind 2, tx ''init( '', tx (ch_root ch), tx '', state_, transition_ );'', endl, ind 1, tx ''}'', endl])"

section \<open>Declarations\<close>

definition java_declare_plain_state :: "compiler \<Rightarrow> sym \<Rightarrow> outp" where
  "java_declare_plain_state cc n = cat [ind 1, tx ''public final '', java_lib_class cc n, tx '' '',
     tx (state_base_name n), tx ''; // id = '', rbind (serial cc (Some n)) (\<lambda>i. tx (int_text i)), endl]"

definition java_children_table :: "compiler \<Rightarrow> sym list \<Rightarrow> outp" where
  "java_children_table cc children = cat [
     ind 2, tx ''private static final int children_[] = new int[] { '',
     rbind (serials cc children) (\<lambda>is. comma_list (map int_text is)), tx '' };'', endl]"

definition java_declare_parent ::
    "compiler \<Rightarrow> sym \<Rightarrow> sym list \<Rightarrow> outp \<Rightarrow> string option \<Rightarrow> string option \<Rightarrow> outp" where
  "java_declare_parent cc n children nested formal_params actual_params = (let base_name = state_base_name n in cat [
     ind 1, tx ''final static class '', tx STATE_CLASS_PREFIX, tx base_name, tx '' extends '', java_lib_class cc n,
     tx '' { // '', rbind (serial cc (Some n)) (\<lambda>i. tx (int_text i)), endl,
     java_children_table cc children,
     (if Some n \<noteq> SY_ROOT cc then cat [Inr [Inc], nested, Inr [Dec]] else nothing),
     ind 2, tx STATE_CLASS_PREFIX, tx base_name, tx (''( '' @ CHSM_STATE_ARGS),
     (case formal_params of Some f \<Rightarrow> cat [tx '', '', tx f] | None \<Rightarrow> nothing), tx '' ) {'', endl,
     java_define_parent cc n children actual_params,
     ind 1, tx ''}'', endl, ind 1, tx ''public final '', tx STATE_CLASS_PREFIX, tx base_name, tx '' '',
     tx base_name, tx '';'', endl])"

text \<open>The recursion follows the children; the bound is the number of symbols.\<close>

fun java_declare_state :: "nat \<Rightarrow> compiler \<Rightarrow> sym \<Rightarrow> outp" where
  "java_declare_state bound cc n = rbind (first_info cc n) (\<lambda>i. let
       nested = (\<lambda>children. case bound of 0 \<Rightarrow> Inl Crash | Suc b \<Rightarrow> cat (map (java_declare_state b cc) children))
     in case i of
       State_info _ \<Rightarrow> java_declare_plain_state cc n
     | Cluster_info _ children _ \<Rightarrow> java_declare_parent cc n children (nested children)
         (Some ''boolean chsm_history_'') (Some ''chsm_history_'')
     | Set_info _ children \<Rightarrow> java_declare_parent cc n children (nested children) None None
     | _ \<Rightarrow> Inl Crash)"

declare java_declare_state.simps [simp del]

definition java_param_block :: "compiler \<Rightarrow> sym \<Rightarrow> user_event_info \<Rightarrow> outp" where
  "java_param_block cc n ue = cat [
     ind 2, tx ''protected static class ParamBlock extends '', tx (java_base_class_name cc ue), tx ''.ParamBlock {'', endl,
     cat (map (\<lambda>p. cat [ind 3, tx_of (stuff_decl (fp_decl p) [] (fp_name p)), tx '';'', endl]) (ue_params ue)),
     ind 3, tx ''protected ParamBlock( '', tx CHSM_PACKAGE_NAME, tx ''.Event event'',
     tx_of (event_param_list cc ue (EMIT_COMMA OR EMIT_PREFIX OR EMIT_FORMAL)), tx '' ) {'', endl,
     java_define_user_event cc ue, ind 3, tx ''}'', endl,
     (if ue_precondition ue \<noteq> PRECONDITION_NONE then cat [
        ind 3, tx ''protected boolean precondition() {'', endl,
        ind 4, tx (''return super.precondition() &&'' @ nl), ind 5, tx ''(('', tx (chsm_name cc),
        tx '')event_.machine()).'', tx n, tx ''_precondition( '', tx_of (event_param_list cc ue EMIT_ACTUAL),
        tx '' );'', endl, ind 3, tx ''}'', endl] else nothing),
     ind 2, tx ''}'', endl]"

definition java_broadcast :: "compiler \<Rightarrow> sym \<Rightarrow> user_event_info \<Rightarrow> outp" where
  "java_broadcast cc n ue = cat [
     ind 2, tx ''public void broadcast( '', tx_of (event_param_list cc ue EMIT_FORMAL), tx '' ) {'', endl,
     ind 3, tx ''broadcast( new ParamBlock( this'', tx_of (event_param_list cc ue (EMIT_COMMA OR EMIT_ACTUAL)),
     tx '' ) );'', endl, ind 2, tx ''}'', endl,
     ind 2, tx ''public final ParamBlock '', tx n, tx ''Param() {'', endl,
     ind 3, tx ''return (ParamBlock)paramBlock_;'', endl, ind 2, tx ''}'', endl]"

text \<open>The method that broadcasts the event.\<close>

definition java_shorthand :: "compiler \<Rightarrow> sym \<Rightarrow> user_event_info \<Rightarrow> bool \<Rightarrow> outp" where
  "java_shorthand cc n ue params = cat [
     ind 1, tx ''public final void '', tx n, tx ''( '', tx_of (event_param_list cc ue EMIT_FORMAL), tx '' ) {'', endl,
     ind 2, tx n, tx ''.broadcast( '',
     (if params then tx_of (event_param_list cc ue EMIT_ACTUAL) else tx ''null''), tx '' );'', endl,
     ind 1, tx ''}'', endl]"

definition java_declare_user_event :: "compiler \<Rightarrow> sym \<Rightarrow> event_info \<Rightarrow> user_event_info \<Rightarrow> outp" where
  "java_declare_user_event cc n e ue = rbind (has_any_parameters (depth_bound cc) cc ue) (\<lambda>params. cat [
     java_define_event n e,
     ind 1, tx ''protected static class '', tx (java_class_name n), tx '' extends '', tx (java_base_class_name cc ue),
     tx '' {'', endl, java_param_block cc n ue,
     ind 2, tx n, tx EVENT_SUFFIX, tx (''( '' @ CHSM_EVENT_ARGS @ '' ) {''), endl,
     ind 3, tx (''super( '' @ CHSM_EVENT_INIT @ '' );''), endl, ind 2, tx ''}'', endl,
     (if params \<or> ue_precondition ue \<noteq> PRECONDITION_NONE then java_broadcast cc n ue else nothing),
     ind 1, tx ''}'', endl,
     ind 1, tx ''protected final '', tx n, tx EVENT_SUFFIX, tx '' '', tx n, tx '';'', endl,
     java_shorthand cc n ue params])"

definition java_declare_event :: "compiler \<Rightarrow> sym \<Rightarrow> outp" where
  "java_declare_event cc n = rbind (first_info cc n) (\<lambda>i.
     case i of
       Enex_event_info e \<Rightarrow> cat [java_define_event n e, ind 1, tx ''protected final '', java_lib_class cc n, tx '' '',
         tx n, tx '';'']
     | User_event_info e ue \<Rightarrow> java_declare_user_event cc n e ue
     | _ \<Rightarrow> Inl Crash)"

definition java_member :: "string \<Rightarrow> nat \<Rightarrow> string" where
  "java_member kind i = (if i > 0 then kind @ decimal i else ''null'')"

definition java_transition :: "compiler \<Rightarrow> transition_info \<Rightarrow> outp" where
  "java_transition cc t = cat [tx ''new CHSM.Transition( '', tx (java_member PREFIX_CONDITION (ti_condition_id t)),
     tx '', '', rbind (serial cc (Some (ti_from t))) (\<lambda>i. tx (int_text i)),
     tx '', '', rbind (serial cc (ti_to t)) (\<lambda>i. tx (int_text i)),
     tx '', '', tx (java_member PREFIX_TARGET (ti_target_id t)),
     tx '', '', tx (java_member PREFIX_ACTION (ti_action_id t)), tx '' )'']"

text \<open>A separator, the end of the line, then the transition.\<close>

fun java_transitions :: "compiler \<Rightarrow> list_sep \<Rightarrow> transition_info list \<Rightarrow> outp" where
  "java_transitions cc comma [] = nothing"
| "java_transitions cc comma (t # ts) = (case list_sep_emit comma of (sep, comma') \<Rightarrow>
     cat [tx sep, endl, ind 2, java_transition cc t, java_transitions cc comma' ts])"

definition java_thunks :: "string \<Rightarrow> nat \<Rightarrow> outp" where
  "java_thunks kind count = numbered count (\<lambda>i. cat [ind 1, tx ''private static final Thunk_'', tx kind, tx i, tx '' '',
     tx kind, tx i, tx '' = new Thunk_'', tx kind, tx i, tx ''();'', endl])"

definition java_emit_actions :: "compiler \<Rightarrow> sym \<Rightarrow> outp" where
  "java_emit_actions cc n = nothing"

definition java_declare_chsm :: "config \<Rightarrow> compiler \<Rightarrow> string \<Rightarrow> chsm_info \<Rightarrow> outp" where
  "java_declare_chsm cf cc user_code ch = (let bound = depth_bound cc in
     with_info as_children cc (ch_root ch) (\<lambda>root_children. cat [
     tx (section_comment cf), tx ''CHSM class declaration'', endl, endl,
     (if ch_java_public ch then tx ''public '' else nothing), tx ''class '', tx (chsm_name cc), tx '' extends '',
     tx (if ch_derived ch \<noteq> [] then ch_derived ch else CHSM_PACKAGE_NAME @ ''.Machine''), tx '' {'', endl,
     endl, ind 1, tx ''// states'', endl, java_declare_state bound cc (ch_root ch),
     cat (map (java_declare_state bound cc) root_children),
     endl, ind 1, tx ''// events'', endl, cat (map (java_declare_event cc) (ch_events ch)),
     endl, ind 1, tx ''// enter/exit actions'', endl, java_emit_actions cc (ch_root ch),
     cat (map (java_emit_actions cc) (ch_states ch)),
     java_define_chsm cc ch,
     endl, ind 1, tx ''// transition conditions'', endl, java_thunks PREFIX_CONDITION (ch_condition_id ch),
     endl, ind 1, tx ''// transition targets'', endl, java_thunks PREFIX_TARGET (ch_target_id ch),
     endl, ind 1, tx ''// transition actions'', endl, java_thunks PREFIX_ACTION (ch_action_id ch),
     endl, ind 1, tx ''// data members'', endl,
     ind 1, tx ''private final '', tx CHSM_PACKAGE_NAME, tx ''.State state_[] = new '', tx CHSM_PACKAGE_NAME,
     tx ''.State['', tx (decimal (length (ch_states ch))), tx ''];'', endl,
     ind 1, tx ''private static final '', tx CHSM_PACKAGE_NAME, tx ''.Transition transition_[] = { '',
     (if ch_transitions ch \<noteq> [] then java_transitions cc (list_sep_ctor '', '') (ch_transitions ch) else tx ''null''),
     endl, ind 1, tx ''};'', endl,
     endl, ind 1, tx ''// user-code'', endl, copy_to user_code, tx ''}'', endl]))"

text \<open>\<^verbatim>\<open>java_declarer::emit\<close>: everything goes to one file.\<close>

definition emit_java :: "config \<Rightarrow> compiler \<Rightarrow> string \<Rightarrow> stop + item list list" where
  "emit_java cf cc user_code = rbind (cat [
     Inr [Inc], tx (section_comment cf), tx ''<<'', tx (cf_package_string cf), tx ''>>'', endl, endl,
     tx (section_comment cf), tx ''user-declarations'', endl, endl, base_emit_source_line_no cf cc 0,
     with_chsm cc (java_declare_chsm cf cc user_code)]) (\<lambda>is. Inr [is])"

section \<open>The generator of a language\<close>

text \<open>The parser calls the virtual functions of \<^verbatim>\<open>cc.code_gen_\<close>, which \<^verbatim>\<open>main\<close> chose.\<close>

definition gen_action_block_begin :: "lang \<Rightarrow> config \<Rightarrow> compiler \<Rightarrow> outp" where
  "gen_action_block_begin l = (if l = Lang_java then java_action_block_begin else emit_action_block_begin)"

definition gen_action_block_end :: "lang \<Rightarrow> outp" where
  "gen_action_block_end l = (if l = Lang_java then java_action_block_end else emit_action_block_end)"

definition gen_condition_expr_begin :: "lang \<Rightarrow> config \<Rightarrow> compiler \<Rightarrow> outp" where
  "gen_condition_expr_begin l = (if l = Lang_java then java_condition_expr_begin else emit_condition_expr_begin)"

definition gen_condition_expr_end :: "lang \<Rightarrow> outp" where
  "gen_condition_expr_end l = (if l = Lang_java then java_condition_expr_end else emit_condition_expr_end)"

definition gen_enter_exit_begin :: "lang \<Rightarrow> config \<Rightarrow> compiler \<Rightarrow> string \<Rightarrow> sym \<Rightarrow> outp" where
  "gen_enter_exit_begin l = (if l = Lang_java then java_enter_exit_begin else emit_enter_exit_begin)"

definition gen_enter_exit_end :: "lang \<Rightarrow> outp" where
  "gen_enter_exit_end l = (if l = Lang_java then java_enter_exit_end else emit_enter_exit_end)"

definition gen_precondition_expr_begin :: "lang \<Rightarrow> config \<Rightarrow> compiler \<Rightarrow> sym \<Rightarrow> outp" where
  "gen_precondition_expr_begin l = (if l = Lang_java then java_precondition_expr_begin else emit_precondition_expr_begin)"

definition gen_precondition_expr_end :: "lang \<Rightarrow> outp" where
  "gen_precondition_expr_end l = (if l = Lang_java then java_precondition_expr_end else emit_precondition_expr_end)"

definition gen_precondition_func_begin :: "lang \<Rightarrow> config \<Rightarrow> compiler \<Rightarrow> sym \<Rightarrow> outp" where
  "gen_precondition_func_begin l = (if l = Lang_java then java_precondition_func_begin else emit_precondition_func_begin)"

definition gen_precondition_func_end :: "lang \<Rightarrow> compiler \<Rightarrow> sym \<Rightarrow> outp" where
  "gen_precondition_func_end l cc ev = (if l = Lang_java then java_precondition_func_end else emit_precondition_func_end cc ev)"

definition gen_transition_target_begin :: "lang \<Rightarrow> config \<Rightarrow> compiler \<Rightarrow> outp" where
  "gen_transition_target_begin l = (if l = Lang_java then java_transition_target_begin else emit_transition_target_begin)"

definition gen_transition_target_end :: "lang \<Rightarrow> outp" where
  "gen_transition_target_end l = (if l = Lang_java then java_transition_target_end else emit_transition_target_end)"

definition gen_emit :: "lang \<Rightarrow> config \<Rightarrow> compiler \<Rightarrow> string \<Rightarrow> stop + item list list" where
  "gen_emit l = (if l = Lang_java then emit_java else emit_cpp)"

end
