(* ===== verification/Chsmc_Actions.thy ===== *)
theory Chsmc_Actions
  imports Chsmc_Java
begin

text \<open>
  The semantic actions of the grammar (\<^verbatim>\<open>chsmc/parser.ypp\<close>) and the semantic stack they work
  on (\<^verbatim>\<open>semantic.h\<close>, \<^verbatim>\<open>semantic.cpp\<close>).  The parser itself is generated by Bison and the
  lexer by Flex; a description free of syntax errors is a syntax tree here, one constructor per
  production, and running it executes the actions of its productions in the order in which the
  parser reduces them.  The productions with \<^verbatim>\<open>error\<close> are not modelled.  The line number the
  lexer advances stays where it is: only messages and \<^verbatim>\<open>#line\<close> directives read it.  The code
  generator is that of C++.
\<close>

section \<open>The semantic stack\<close>

text \<open>An element is an \<^verbatim>\<open>int\<close> or a pointer: to a symbol, a string or parameter data (those of
  the first info of a symbol).  The array has 100 elements and \<^verbatim>\<open>stack_push\<close> does not check
  it.  Reading an element as something it is not is \<open>Crash\<close>.\<close>

datatype semantic = Sem_int nat | Sem_sym "sym option" | Sem_str "string option" | Sem_params "sym option"

definition sem_stack_size :: nat where "sem_stack_size = 100"

datatype lex_state = STATE_NORMAL | STATE_MAYBE_CCLASS | STATE_MAYBE_CEXPR | STATE_MAYBE_CPARAMS

record lexer =
  lx_state :: lex_state
  lx_stack :: "lex_state list"

record front =
  fr_cc :: compiler
  fr_stack :: "semantic list"
  fr_parent :: "sym option"
  fr_outer_deep :: "sym option"
  fr_next_no :: nat
  fr_user :: "item list"
  fr_lexer :: lexer
  fr_lang :: lang
  fr_config :: config

type_synonym act = "front \<Rightarrow> stop + front"

fun run_all :: "act list \<Rightarrow> act" where
  "run_all [] fr = Inr fr"
| "run_all (a # as) fr = rbind (a fr) (run_all as)"

definition stack_push :: "semantic \<Rightarrow> act" where
  "stack_push v fr = (if length (fr_stack fr) \<ge> sem_stack_size then Inl Crash
     else Inr (fr \<lparr> fr_stack := v # fr_stack fr \<rparr>))"

definition stack_pop :: "(semantic \<Rightarrow> act) \<Rightarrow> act" where
  "stack_pop k fr = (case fr_stack fr of [] \<Rightarrow> Inl Crash | v # s \<Rightarrow> k v (fr \<lparr> fr_stack := s \<rparr>))"

definition stack_peek :: "nat \<Rightarrow> (semantic \<Rightarrow> act) \<Rightarrow> act" where
  "stack_peek depth k fr = (if depth < length (fr_stack fr) then k (fr_stack fr ! depth) fr else Inl Crash)"

definition as_int :: "(nat \<Rightarrow> act) \<Rightarrow> semantic \<Rightarrow> act" where
  "as_int k v fr = (case v of Sem_int i \<Rightarrow> k i fr | _ \<Rightarrow> Inl Crash)"

definition as_sym :: "(sym option \<Rightarrow> act) \<Rightarrow> semantic \<Rightarrow> act" where
  "as_sym k v fr = (case v of Sem_sym s \<Rightarrow> k s fr | _ \<Rightarrow> Inl Crash)"

definition as_string :: "(string option \<Rightarrow> act) \<Rightarrow> semantic \<Rightarrow> act" where
  "as_string k v fr = (case v of Sem_str s \<Rightarrow> k s fr | _ \<Rightarrow> Inl Crash)"

definition as_params :: "(sym option \<Rightarrow> act) \<Rightarrow> semantic \<Rightarrow> act" where
  "as_params k v fr = (case v of Sem_params s \<Rightarrow> k s fr | _ \<Rightarrow> Inl Crash)"

text \<open>A symbol about to be dereferenced.\<close>

definition the_sym :: "(sym \<Rightarrow> act) \<Rightarrow> sym option \<Rightarrow> act" where
  "the_sym k s fr = (case s of Some n \<Rightarrow> k n fr | None \<Rightarrow> Inl Crash)"

abbreviation "POP_INT k \<equiv> stack_pop (as_int k)"
abbreviation "POP_SYMBOL k \<equiv> stack_pop (as_sym k)"
abbreviation "POP_STRING k \<equiv> stack_pop (as_string k)"
abbreviation "POP_PARAMS k \<equiv> stack_pop (as_params k)"
abbreviation "TOP_SYMBOL k \<equiv> stack_peek 0 (as_sym k)"
abbreviation "TOP_PARAMS k \<equiv> stack_peek 0 (as_params k)"
abbreviation "PEEK_SYMBOL d k \<equiv> stack_peek d (as_sym k)"
abbreviation "PUSH_INT i \<equiv> stack_push (Sem_int i)"
abbreviation "PUSH_SYMBOL s \<equiv> stack_push (Sem_sym s)"
abbreviation "PUSH_STRING s \<equiv> stack_push (Sem_str s)"
abbreviation "PUSH_PARAMS s \<equiv> stack_push (Sem_params s)"

section \<open>The state of the lexer\<close>

text \<open>Its stack has five elements, and \<^verbatim>\<open>push_state\<close> does not check it either.\<close>

definition push_state :: "lex_state \<Rightarrow> act" where
  "push_state s fr = (let lx = fr_lexer fr in if length (lx_stack lx) \<ge> 5 then Inl Crash
     else Inr (fr \<lparr> fr_lexer := \<lparr> lx_state = s, lx_stack = lx_state lx # lx_stack lx \<rparr> \<rparr>))"

definition pop_state :: act where
  "pop_state fr = (case lx_stack (fr_lexer fr) of [] \<Rightarrow> Inl Crash
     | s # ss \<Rightarrow> Inr (fr \<lparr> fr_lexer := \<lparr> lx_state = s, lx_stack = ss \<rparr> \<rparr>))"

section \<open>Changing the compiler\<close>

definition on_cc :: "(compiler \<Rightarrow> compiler) \<Rightarrow> act" where
  "on_cc f fr = Inr (fr \<lparr> fr_cc := f (fr_cc fr) \<rparr>)"

definition check_cc :: "(compiler \<Rightarrow> bool \<times> compiler) \<Rightarrow> (bool \<Rightarrow> act) \<Rightarrow> act" where
  "check_cc f k fr = (case f (fr_cc fr) of (ok, cc) \<Rightarrow> k ok (fr \<lparr> fr_cc := cc \<rparr>))"

definition skip :: act where "skip fr = Inr fr"

text \<open>\<^verbatim>\<open>insert_info( new ... )\<close>; a new info notes the current line.\<close>

definition insert_new :: "sym \<Rightarrow> (nat \<Rightarrow> synfo) \<Rightarrow> compiler \<Rightarrow> compiler" where
  "insert_new n new_info cc = cc \<lparr> cc_table :=
     update_sym n (insert_info (new_info (sf_line_no (cc_source cc)))) (cc_table cc) \<rparr>"

text \<open>A \<^verbatim>\<open>state_info\<close> takes the next serial number.\<close>

definition insert_state_info :: "sym \<Rightarrow> sym option \<Rightarrow> string option \<Rightarrow> (state_info \<Rightarrow> info) \<Rightarrow> act" where
  "insert_state_info n parent derived k fr = Inr (fr \<lparr>
     fr_cc := insert_new n (\<lambda>line. global_info_ctor line (k (state_info_ctor parent derived (fr_next_no fr)))) (fr_cc fr),
     fr_next_no := fr_next_no fr + 1 \<rparr>)"

text \<open>Changes of \<^verbatim>\<open>*CHSM\<close>.\<close>

fun map_chsm :: "(chsm_info \<Rightarrow> chsm_info) \<Rightarrow> info \<Rightarrow> info" where
  "map_chsm f (Chsm_info c) = Chsm_info (f c)"
| "map_chsm f i = i"

definition with_CHSM :: "(chsm_info \<Rightarrow> act) \<Rightarrow> act" where
  "with_CHSM k fr = (case CHSM (fr_cc fr) of None \<Rightarrow> Inl Crash | Some c \<Rightarrow> k c fr)"

definition update_CHSM :: "(chsm_info \<Rightarrow> chsm_info) \<Rightarrow> act" where
  "update_CHSM f fr = (case (cc_chsm (fr_cc fr), CHSM (fr_cc fr)) of
     (Some n, Some _) \<Rightarrow> Inr (fr \<lparr> fr_cc := set_info n (map_chsm f) (fr_cc fr) \<rparr>)
   | _ \<Rightarrow> Inl Crash)"

definition error_text :: "string \<Rightarrow> compiler \<Rightarrow> compiler" where
  "error_text t cc = emit_cerr (t @ [CHR 0x0A]) (src_error 0 cc)"

text \<open>What the code generator inserts into the file of user code.\<close>

definition emit_user :: "(front \<Rightarrow> outp) \<Rightarrow> act" where
  "emit_user f fr = rbind (f fr) (\<lambda>is. Inr (fr \<lparr> fr_user := fr_user fr @ is \<rparr>))"

definition delete_first_info :: "sym \<Rightarrow> act" where
  "delete_first_info n = on_cc (\<lambda>cc. cc \<lparr> cc_table := update_sym n delete_info (cc_table cc) \<rparr>)"

section \<open>Identifiers and derived classes\<close>

definition act_identifier :: "string \<Rightarrow> act" where
  "act_identifier token = run_all [on_cc (compiler_emplace token), PUSH_SYMBOL (Some token)]"

definition angle_text :: "string \<Rightarrow> string" where
  "angle_text token = (let t = (if token \<noteq> [] \<and> hd token = CHR ''<'' then tl token else token)
     in case find_last_of CHR ''>'' t of Some n \<Rightarrow> take n t | None \<Rightarrow> t)"

definition act_derived_class_spec_opt :: "string option \<Rightarrow> act" where
  "act_derived_class_spec_opt token = run_all [pop_state, PUSH_STRING (map_option angle_text token)]"

section \<open>Names of states\<close>

datatype scope_resolver = Here | Dots nat | Outermost

record state_ref =
  sr_scope :: scope_resolver
  sr_ident :: string
  sr_substates :: string

definition act_scope_resolver_opt :: "scope_resolver \<Rightarrow> act" where
  "act_scope_resolver_opt r fr = (let scope = tb_scope (cc_table (fr_cc fr)) in case r of
     Here \<Rightarrow> PUSH_INT 0 fr
   | Dots dots \<Rightarrow> (if dots > scope
       then run_all [on_cc (\<lambda>cc. emit_cerr (''dots exceed current scope-depth'' @ [CHR 0x0A]) (src_warning 0 cc)),
              PUSH_INT scope] fr
       else PUSH_INT dots fr)
   | Outermost \<Rightarrow> PUSH_INT scope fr)"

fun as_child :: "info \<Rightarrow> (sym \<times> bool) option" where
  "as_child (Child_info p d) = Some (p, d)"
| "as_child _ = None"

text \<open>The cases of the \<^verbatim>\<open>switch\<close> on the type of the identifier; the name of a child is made with
  the parent of its first info, whatever \<^verbatim>\<open>dots\<close> is.\<close>

definition plain_types :: "symbol_type list" where
  "plain_types = [T_STATE, T_CLUSTER, T_SET, T_GLOBAL, T_NONE]"

definition referred_state :: "nat \<Rightarrow> sym \<Rightarrow> (string \<Rightarrow> act) \<Rightarrow> act" where
  "referred_state dots ident k fr = (let t = type_of (fr_cc fr) ident dots in
     if t = T_CHILD
     then (case INFO as_child (fr_cc fr) (Some ident) of
        None \<Rightarrow> Inl Crash
      | Some (parent, _) \<Rightarrow> k (parent @ ''.'' @ ident) fr)
     else if t \<in> set plain_types then k ident fr
     else check_cc (type_check ident T_STATE MUST_EXIST [] dots) (\<lambda>_. k ident) fr)"

definition reference_state :: "sym \<Rightarrow> act" where
  "reference_state name = run_all [on_cc (compiler_emplace name),
     \<lambda>fr. if info_of (deref (fr_cc fr) name) = None
          then on_cc (insert_new name (\<lambda>line. global_info_ctor line Global_info)) fr else Inr fr,
     PUSH_SYMBOL (Some name)]"

definition act_state_name_end :: act where
  "act_state_name_end = POP_STRING (\<lambda>substates. POP_SYMBOL (the_sym (\<lambda>ident. POP_INT (\<lambda>dots.
     referred_state dots ident (\<lambda>name. reference_state (name @ text_or_empty substates))))))"

definition act_state_name :: "state_ref \<Rightarrow> act" where
  "act_state_name s = run_all [act_scope_resolver_opt (sr_scope s), act_identifier (sr_ident s),
     PUSH_STRING (Some (sr_substates s)), act_state_name_end]"

section \<open>Names of events\<close>

text \<open>An event is a user event, or the enter (\<open>True\<close>) or exit event of a state.\<close>

datatype event_ref = User_event string | Enter_exit bool state_ref

definition enex_prefix :: "bool \<Rightarrow> string" where
  "enex_prefix is_enter = (if is_enter then PREFIX_ENTER else PREFIX_EXIT)"

definition act_enter_or_exit :: "bool \<Rightarrow> act" where
  "act_enter_or_exit is_enter = PUSH_STRING (Some (enex_prefix is_enter))"

definition declare_event_sym :: "sym \<Rightarrow> (nat \<Rightarrow> synfo) \<Rightarrow> act" where
  "declare_event_sym ev new_info = run_all [on_cc (insert_new ev new_info),
     update_CHSM (\<lambda>c. c \<lparr> ch_events := ch_events c @ [ev] \<rparr>)]"

definition act_enex_event_end :: act where
  "act_enex_event_end = POP_SYMBOL (the_sym (\<lambda>state. POP_STRING (\<lambda>kind fr. case mangle state of
     None \<Rightarrow> Inl Crash
   | Some m \<Rightarrow> (let name = text_or_empty kind @ m in run_all [on_cc (compiler_emplace name),
       \<lambda>fr. if info_of (deref (fr_cc fr) name) = None
            then declare_event_sym name (\<lambda>line. global_info_ctor line (Enex_event_info (event_info_ctor
                   (if kind = Some PREFIX_ENTER then KIND_ENTER else KIND_EXIT) (Some state)))) fr
            else Inr fr,
       PUSH_SYMBOL (Some name)] fr))))"

definition act_user_event_end :: act where
  "act_user_event_end = TOP_SYMBOL (the_sym (\<lambda>ev. check_cc (type_check ev T_USER_EVENT NO_INFO [] 0) (\<lambda>ok.
     if ok then declare_event_sym ev (\<lambda>line. global_info_ctor line (user_event_info_ctor None)) else skip)))"

definition act_user_event :: "string \<Rightarrow> act" where
  "act_user_event token = run_all [act_identifier token, act_user_event_end]"

fun act_event_name :: "event_ref \<Rightarrow> act" where
  "act_event_name (User_event token) = act_user_event token"
| "act_event_name (Enter_exit is_enter s) =
     run_all [act_enter_or_exit is_enter, act_state_name s, act_enex_event_end]"

section \<open>Embedded user code\<close>

text \<open>Text goes to the file of user code as the lexer reads it, between the constructs that
  begin with a dollar sign: \<^verbatim>\<open>$param(e,p)\<close>, \<^verbatim>\<open>${s}\<close>, \<^verbatim>\<open>$enter(s)\<close> and \<^verbatim>\<open>$exit(s)\<close>, \<^verbatim>\<open>$in(s)\<close>.\<close>

datatype embedded = Echo string | Param string string | State_name state_ref
  | Enter_exit_name bool state_ref | In_state state_ref

definition emit_user_text :: "string \<Rightarrow> act" where
  "emit_user_text t = emit_user (\<lambda>_. tx t)"

definition act_param_end :: act where
  "act_param_end = POP_SYMBOL (the_sym (\<lambda>ident. POP_SYMBOL (the_sym (\<lambda>ev.
     emit_user_text (ev @ ''.'' @ ev @ ''Param().'' @ ident)))))"

definition act_state_name_embedded :: act where
  "act_state_name_embedded = POP_SYMBOL (the_sym (\<lambda>s. emit_user_text s))"

text \<open>The tokens \<^verbatim>\<open>Y_ENTER\<close> and \<^verbatim>\<open>Y_IN\<close>, whose values Bison chooses.\<close>

definition Y_ENTER :: nat where "Y_ENTER = 261"
definition Y_IN :: nat where "Y_IN = 265"

definition act_keyword_end :: act where
  "act_keyword_end = POP_SYMBOL (the_sym (\<lambda>s. POP_INT (\<lambda>keyword.
     if keyword = Y_ENTER
     then POP_STRING (\<lambda>kind. run_all [emit_user_text (text_or_empty kind),
            \<lambda>fr. case mangle s of None \<Rightarrow> Inl Crash | Some m \<Rightarrow> emit_user_text m fr])
     else if keyword = Y_IN then emit_user_text (s @ ''.active()'')
     else skip)))"

fun act_embedded :: "embedded \<Rightarrow> act" where
  "act_embedded (Echo t) = emit_user_text t"
| "act_embedded (Param ev ident) = run_all [act_user_event ev, act_identifier ident, act_param_end]"
| "act_embedded (State_name s) = run_all [act_state_name s, act_state_name_embedded]"
| "act_embedded (Enter_exit_name is_enter s) =
     run_all [act_enter_or_exit is_enter, PUSH_INT Y_ENTER, act_state_name s, act_keyword_end]"
| "act_embedded (In_state s) = run_all [PUSH_INT Y_IN, act_state_name s, act_keyword_end]"

definition act_code :: "embedded list \<Rightarrow> act" where
  "act_code es = run_all (map act_embedded es)"

section \<open>Actions, conditions, targets\<close>

definition act_action_block :: "embedded list \<Rightarrow> act" where
  "act_action_block body = run_all [
     update_CHSM (\<lambda>c. c \<lparr> ch_action_id := ch_action_id c + 1 \<rparr>),
     emit_user (\<lambda>fr. gen_action_block_begin (fr_lang fr) (fr_config fr) (fr_cc fr)),
     with_CHSM (\<lambda>c. PUSH_INT (ch_action_id c)),
     act_code body, emit_user (\<lambda>fr. gen_action_block_end (fr_lang fr))]"

definition act_action_block_opt :: "embedded list option \<Rightarrow> act" where
  "act_action_block_opt action = (case action of None \<Rightarrow> PUSH_INT 0 | Some c \<Rightarrow> act_action_block c)"

definition act_event_condition_opt :: "embedded list option \<Rightarrow> act" where
  "act_event_condition_opt cond = (case cond of None \<Rightarrow> PUSH_INT 0 | Some body \<Rightarrow> run_all [
     update_CHSM (\<lambda>c. c \<lparr> ch_condition_id := ch_condition_id c + 1 \<rparr>),
     emit_user (\<lambda>fr. gen_condition_expr_begin (fr_lang fr) (fr_config fr) (fr_cc fr)),
     with_CHSM (\<lambda>c. PUSH_INT (ch_condition_id c)),
     act_code body, emit_user (\<lambda>fr. gen_condition_expr_end (fr_lang fr))])"

definition act_event_condition_end :: act where
  "act_event_condition_end = run_all [pop_state, POP_INT (\<lambda>cond. POP_SYMBOL (\<lambda>ev. POP_INT (\<lambda>n.
     run_all [PUSH_SYMBOL ev, PUSH_INT cond, PUSH_INT (n + 1)])))]"

definition act_event_condition_spec :: "event_ref \<times> embedded list option \<Rightarrow> act" where
  "act_event_condition_spec ec = run_all [act_event_name (fst ec), push_state STATE_MAYBE_CEXPR,
     act_event_condition_opt (snd ec), act_event_condition_end]"

datatype target_spec = To_state state_ref | To_expr "embedded list"

fun act_transition_target :: "target_spec \<Rightarrow> act" where
  "act_transition_target (To_state s) = run_all [act_state_name s, PUSH_INT 0]"
| "act_transition_target (To_expr body) = run_all [
     update_CHSM (\<lambda>c. c \<lparr> ch_target_id := ch_target_id c + 1 \<rparr>),
     emit_user (\<lambda>fr. gen_transition_target_begin (fr_lang fr) (fr_config fr) (fr_cc fr)),
     PUSH_SYMBOL None,
     with_CHSM (\<lambda>c. PUSH_INT (ch_target_id c)),
     act_code body, emit_user (\<lambda>fr. gen_transition_target_end (fr_lang fr))]"

datatype transition_type = Goto target_spec "embedded list option" | Internal "embedded list"

fun act_transition_type :: "transition_type \<Rightarrow> act" where
  "act_transition_type (Goto t action) = run_all [push_state STATE_MAYBE_CEXPR,
     act_transition_target t, pop_state, act_action_block_opt action]"
| "act_transition_type (Internal body) = run_all [act_action_block body,
     POP_INT (\<lambda>action_id. run_all [PUSH_SYMBOL None, PUSH_INT 0, PUSH_INT action_id])]"

section \<open>Transitions\<close>

fun map_event :: "(event_info \<Rightarrow> event_info) \<Rightarrow> info \<Rightarrow> info" where
  "map_event f (Enex_event_info e) = Enex_event_info (f e)"
| "map_event f (User_event_info e u) = User_event_info (f e) u"
| "map_event f i = i"

definition note_transition :: "sym \<Rightarrow> chsm_info \<Rightarrow> compiler \<Rightarrow> compiler" where
  "note_transition ev c cc = cc \<lparr> cc_table := update_sym ev (set_first (\<lambda>si. si \<lparr> si_used := True,
     si_info := map_event (\<lambda>e. e \<lparr> ev_transition_ids := ev_transition_ids e
       @ [int (length (ch_transitions c)) - 1] \<rparr>) (si_info si) \<rparr>)) (cc_table cc) \<rparr>"

definition use_event :: "sym \<Rightarrow> act" where
  "use_event ev = with_CHSM (\<lambda>c fr.
     if type_of (fr_cc fr) ev 0 AND T_EVENT = T_NONE then Inr fr
     else if INFO as_event (fr_cc fr) (Some ev) = None then Inl Crash
     else on_cc (note_transition ev c) fr)"

primrec transition_loop :: "nat \<Rightarrow> sym \<Rightarrow> sym option \<Rightarrow> nat \<Rightarrow> nat \<Rightarrow> act" where
  "transition_loop 0 from to target_id action_id = skip"
| "transition_loop (Suc n) from to target_id action_id = run_all [
     POP_INT (\<lambda>condition_id. run_all [
       \<lambda>fr. update_CHSM (\<lambda>c. c \<lparr> ch_transitions := ch_transitions c @ [transition_info_ctor
          (sf_line_no (cc_source (fr_cc fr))) condition_id from to target_id action_id] \<rparr>) fr,
       POP_SYMBOL (the_sym use_event)]),
     transition_loop n from to target_id action_id]"

definition act_transition_end :: act where
  "act_transition_end = POP_INT (\<lambda>action_id. POP_INT (\<lambda>target_id. POP_SYMBOL (\<lambda>to. POP_INT (\<lambda>num_events.
     PEEK_SYMBOL (2 * num_events) (the_sym (\<lambda>from. transition_loop num_events from to target_id action_id))))))"

datatype transition_descr = Transition_descr "(event_ref \<times> embedded list option) list" transition_type

fun act_transition :: "transition_descr \<Rightarrow> act" where
  "act_transition (Transition_descr ecs t) = run_all ([PUSH_INT 0] @ map act_event_condition_spec ecs
     @ [act_transition_type t, act_transition_end])"

section \<open>Enter and exit actions\<close>

definition flag_action :: "bool \<Rightarrow> state_info \<Rightarrow> state_info" where
  "flag_action is_enter s = (if is_enter then s \<lparr> st_action_enter := True \<rparr> else s \<lparr> st_action_exit := True \<rparr>)"

definition act_upon :: act where
  "act_upon = POP_STRING (\<lambda>kind. TOP_SYMBOL (the_sym (\<lambda>s fr.
     let is_enter = (kind = Some PREFIX_ENTER) in case INFO as_state (fr_cc fr) (Some s) of
       None \<Rightarrow> Inl Crash
     | Some info \<Rightarrow> (if \<not> (if is_enter then st_action_enter info else st_action_exit info)
         then run_all [emit_user (\<lambda>fr. gen_enter_exit_begin (fr_lang fr) (fr_config fr) (fr_cc fr) (text_or_empty kind) s),
                on_cc (set_info s (map_state (flag_action is_enter)))] fr
         else on_cc (error_text ((if is_enter then ''enter'' else ''exit'')
                @ '' action already specified for '' @ s)) fr))))"

definition act_enter_exit_action :: "bool \<times> embedded list \<Rightarrow> act" where
  "act_enter_exit_action ea = run_all [act_enter_or_exit (fst ea), act_upon, act_code (snd ea),
     emit_user (\<lambda>fr. gen_enter_exit_end (fr_lang fr))]"

datatype transition_spec = Transition_spec "(bool \<times> embedded list) list" "transition_descr list"

fun act_transition_spec :: "transition_spec \<Rightarrow> act" where
  "act_transition_spec (Transition_spec actions transitions) =
     run_all (map act_enter_exit_action actions @ map act_transition transitions)"

definition act_transition_spec_opt :: "transition_spec option \<Rightarrow> act" where
  "act_transition_spec_opt spec = (case spec of None \<Rightarrow> skip | Some s \<Rightarrow> act_transition_spec s)"

end
