(* ===== verification/Chsmc_Descriptions.thy ===== *)
theory Chsmc_Descriptions
  imports Chsmc_Actions
begin

text \<open>
  The second half of the grammar's actions (\<^verbatim>\<open>chsmc/parser.ypp\<close>): states, clusters, sets and
  events, their bodies, the description as a whole, and what \<^verbatim>\<open>main\<close> makes of it.
\<close>

section \<open>Declarations of states\<close>

fun add_child :: "sym \<Rightarrow> info \<Rightarrow> info" where
  "add_child n (Cluster_info s cs h) = Cluster_info s (cs @ [n]) h"
| "add_child n (Set_info s cs) = Set_info s (cs @ [n])"
| "add_child n i = i"

fun define_child :: "info \<Rightarrow> info" where
  "define_child (Child_info p d) = Child_info p True"
| "define_child i = i"

text \<open>The name of the state, and the mark on the child it defines.\<close>

definition check_child_of :: "sym \<Rightarrow> sym \<Rightarrow> act" where
  "check_child_of parent ident = check_cc (type_check ident T_CHILD MUST_EXIST ''in state declaration'' 0) (\<lambda>ok fr.
     if ok then (case INFO as_child (fr_cc fr) (Some ident) of
          None \<Rightarrow> Inl Crash
        | Some (p, _) \<Rightarrow> (if p = parent then on_cc (set_info ident define_child) fr
            else on_cc (error_text (type_text (type_of (fr_cc fr) ident 0) @ '' '' @ in_quotes ident
                   @ '' is not a child of '' @ in_quotes parent)) fr))
     else Inr fr)"

definition scoped_name :: "sym \<Rightarrow> (string \<Rightarrow> act) \<Rightarrow> act" where
  "scoped_name ident k fr = (case CHSM (fr_cc fr) of
     None \<Rightarrow> Inl Crash
   | Some c \<Rightarrow> (if fr_parent fr \<noteq> Some (ch_root c)
       then (case fr_parent fr of
           None \<Rightarrow> Inl Crash
         | Some parent \<Rightarrow> run_all [check_child_of parent ident, k (parent @ ''.'' @ ident)] fr)
       else k ident fr))"

text \<open>A dummy info goes; a state not seen before joins the machine's states and its parent's
  children.\<close>

definition forget_dummy :: "sym \<Rightarrow> act" where
  "forget_dummy name fr = (if type_of (fr_cc fr) name 0 AND T_GLOBAL \<noteq> T_NONE
     then delete_first_info name fr else Inr fr)"

definition add_to_parent :: "sym \<Rightarrow> act" where
  "add_to_parent name fr = (case fr_parent fr of
     None \<Rightarrow> Inr fr
   | Some parent \<Rightarrow> (if type_of (fr_cc fr) parent 0 AND T_PARENT \<noteq> T_NONE
       then on_cc (set_info parent (add_child name)) fr else Inr fr))"

definition enrol_state :: "sym \<Rightarrow> act" where
  "enrol_state name fr = (if info_of (deref (fr_cc fr) name) = None
     then run_all [update_CHSM (\<lambda>c. c \<lparr> ch_states := ch_states c @ [name] \<rparr>), add_to_parent name] fr
     else Inr fr)"

definition act_state_declaration_end :: act where
  "act_state_declaration_end = POP_SYMBOL (the_sym (\<lambda>ident. scoped_name ident (\<lambda>name. run_all [
     on_cc (compiler_emplace name), forget_dummy name, enrol_state name, PUSH_SYMBOL (Some name)])))"

definition act_state_declaration :: "string option \<Rightarrow> string \<Rightarrow> act" where
  "act_state_declaration derived token = run_all [act_derived_class_spec_opt derived, act_identifier token,
     act_state_declaration_end]"

section \<open>Declarations of children\<close>

definition insert_child :: "sym \<Rightarrow> sym \<Rightarrow> act" where
  "insert_child parent child fr = on_cc (insert_new child
     (\<lambda>line. child_info_ctor line (tb_scope (cc_table (fr_cc fr))) parent)) fr"

definition act_child_end :: act where
  "act_child_end = POP_SYMBOL (the_sym (\<lambda>child. TOP_SYMBOL (the_sym (\<lambda>parent.
     check_cc (not_exists child T_EVENT) (\<lambda>ok fr.
       if ok \<and> type_of (fr_cc fr) child 0 AND T_CHILD \<noteq> T_NONE
          \<and> map_option fst (INFO as_child (fr_cc fr) (Some child)) = Some parent
       then on_cc (error_text (type_text (type_of (fr_cc fr) child 0) @ '' '' @ in_quotes child
              @ '' previously declared'')) fr
       else insert_child parent child fr)))))"

definition act_child :: "string \<Rightarrow> act" where
  "act_child token = run_all [act_identifier token, act_child_end]"

section \<open>Histories\<close>

text \<open>No history, a history, or a deep one.\<close>

datatype history_spec = No_history | History | Deep_history

definition act_deep :: act where
  "act_deep fr = (case fr_outer_deep fr of
     None \<Rightarrow> TOP_SYMBOL (\<lambda>s fr. Inr (fr \<lparr> fr_outer_deep := s \<rparr>)) fr
   | Some _ \<Rightarrow> Inr fr)"

fun act_history_opt :: "history_spec \<Rightarrow> act" where
  "act_history_opt No_history = PUSH_INT 0"
| "act_history_opt History = PUSH_INT 1"
| "act_history_opt Deep_history = run_all [act_deep, PUSH_INT 1]"

section \<open>States, clusters and sets\<close>

definition act_state_end :: act where
  "act_state_end = POP_SYMBOL (the_sym (\<lambda>s. POP_STRING (\<lambda>derived. run_all [
     check_cc (not_exists s T_NONE) (\<lambda>ok fr.
       if ok then insert_state_info s (fr_parent fr) derived State_info fr else Inr fr),
     PUSH_SYMBOL (Some s)])))"

definition act_cluster_end :: act where
  "act_cluster_end = POP_INT (\<lambda>history. POP_SYMBOL (the_sym (\<lambda>s. POP_STRING (\<lambda>derived. run_all [
     check_cc (not_exists s T_NONE) (\<lambda>ok fr.
       if ok then insert_state_info s (fr_parent fr) derived
              (\<lambda>i. Cluster_info i [] (history \<noteq> 0 \<or> fr_outer_deep fr \<noteq> None)) fr
       else Inr fr),
     PUSH_SYMBOL (Some s)]))))"

definition act_set_end :: act where
  "act_set_end = POP_SYMBOL (the_sym (\<lambda>s. POP_STRING (\<lambda>derived. run_all [
     check_cc (not_exists s T_NONE) (\<lambda>ok fr.
       if ok then insert_state_info s (fr_parent fr) derived (\<lambda>i. Set_info i []) fr else Inr fr),
     PUSH_SYMBOL (Some s)])))"

definition pop_junk :: act where
  "pop_junk = POP_SYMBOL (\<lambda>_. skip)"

section \<open>Bodies\<close>

definition act_body_begin :: act where
  "act_body_begin = POP_SYMBOL (\<lambda>new_parent fr. run_all [PUSH_SYMBOL (fr_parent fr),
     (\<lambda>fr. Inr (fr \<lparr> fr_parent := new_parent \<rparr>)),
     on_cc (\<lambda>cc. cc \<lparr> cc_table := open_scope (cc_table cc) \<rparr>)] fr)"

definition act_body_end :: act where
  "act_body_end = run_all [on_cc check_child_states_defined,
     on_cc (\<lambda>cc. cc \<lparr> cc_table := close_scope (cc_table cc) \<rparr>),
     (\<lambda>fr. Inr (if fr_parent fr = fr_outer_deep fr then fr \<lparr> fr_outer_deep := None \<rparr> else fr)),
     POP_SYMBOL (\<lambda>old_parent fr. Inr (fr \<lparr> fr_parent := old_parent \<rparr>))]"

section \<open>Parameter lists\<close>

fun add_param :: "fn_param \<Rightarrow> info \<Rightarrow> info" where
  "add_param p (Chsm_info c) = Chsm_info (c \<lparr> ch_params := ch_params c @ [p] \<rparr>)"
| "add_param p (User_event_info e u) = User_event_info e (u \<lparr> ue_params := ue_params u @ [p] \<rparr>)"
| "add_param p i = i"

definition push_params :: "sym option \<Rightarrow> fn_param list \<Rightarrow> act" where
  "push_params pd params = run_all (map (\<lambda>p. the_sym (\<lambda>n. on_cc (set_info n (add_param p))) pd) params)"

definition act_parameter_list :: "string \<Rightarrow> act" where
  "act_parameter_list token = TOP_PARAMS (\<lambda>pd fr. case parser_create (fr_lang fr) token of
     None \<Rightarrow> Inl Crash
   | Some ps \<Rightarrow> (case parse_param_list (fr_lang fr) ps of
       Inr params \<Rightarrow> push_params pd params fr
     | Inl (Throw what) \<Rightarrow> on_cc (error_text what) fr
     | Inl _ \<Rightarrow> Inl Crash))"

definition act_parameter_list_opt :: "string option \<Rightarrow> act" where
  "act_parameter_list_opt token = (case token of None \<Rightarrow> skip | Some t \<Rightarrow> act_parameter_list t)"

section \<open>Events\<close>

definition act_base_event_spec_opt :: "string option \<Rightarrow> act" where
  "act_base_event_spec_opt base = (case base of
     None \<Rightarrow> PUSH_SYMBOL None
   | Some token \<Rightarrow> run_all [act_identifier token, TOP_SYMBOL (the_sym (\<lambda>s.
       check_cc (type_check s T_USER_EVENT MUST_EXIST ''in base event specification'' 0) (\<lambda>_. skip)))])"

definition act_event_declare :: act where
  "act_event_declare = POP_SYMBOL (the_sym (\<lambda>ev. POP_SYMBOL (\<lambda>base. run_all [
     check_cc (not_exists ev T_NONE) (\<lambda>ok.
       if ok then declare_event_sym ev (\<lambda>line. global_info_ctor line (user_event_info_ctor base)) else skip),
     PUSH_SYMBOL (Some ev),
     (\<lambda>fr. PUSH_PARAMS (if INFO as_user_event (fr_cc fr) (Some ev) = None then None else Some ev) fr),
     push_state STATE_MAYBE_CPARAMS])))"

datatype precondition_spec = No_precondition | Precondition_expr "embedded list" | Precondition_func "embedded list"

fun map_user_event :: "(user_event_info \<Rightarrow> user_event_info) \<Rightarrow> info \<Rightarrow> info" where
  "map_user_event f (User_event_info e u) = User_event_info e (f u)"
| "map_user_event f i = i"

definition set_precondition :: "precondition \<Rightarrow> sym \<Rightarrow> act" where
  "set_precondition p ev fr = (if INFO as_user_event (fr_cc fr) (Some ev) = None then Inl Crash
     else on_cc (set_info ev (map_user_event (\<lambda>u. u \<lparr> ue_precondition := p \<rparr>))) fr)"

fun act_event_precondition_opt :: "precondition_spec \<Rightarrow> act" where
  "act_event_precondition_opt No_precondition = skip"
| "act_event_precondition_opt (Precondition_expr body) = run_all [
     PEEK_SYMBOL 1 (the_sym (\<lambda>ev. run_all [set_precondition PRECONDITION_EXPR ev,
       emit_user (\<lambda>fr. gen_precondition_expr_begin (fr_lang fr) (fr_config fr) (fr_cc fr) ev)])),
     act_code body, emit_user (\<lambda>fr. gen_precondition_expr_end (fr_lang fr))]"
| "act_event_precondition_opt (Precondition_func body) = run_all [
     PEEK_SYMBOL 1 (the_sym (\<lambda>ev. run_all [set_precondition PRECONDITION_FUNC ev,
       emit_user (\<lambda>fr. gen_precondition_func_begin (fr_lang fr) (fr_config fr) (fr_cc fr) ev)])),
     act_code body,
     PEEK_SYMBOL 1 (the_sym (\<lambda>ev. emit_user (\<lambda>fr. gen_precondition_func_end (fr_lang fr) (fr_cc fr) ev)))]"

definition act_event_end :: act where
  "act_event_end = run_all [pop_state, POP_PARAMS (\<lambda>_. skip), pop_junk]"

section \<open>Descriptions\<close>

datatype description =
    State_description "string option" string "transition_spec option"
  | Cluster_description "string option" string "string list" history_spec "transition_spec option" "description list"
  | Set_description "string option" string "string list" "transition_spec option" "description list"
  | Event_description "string option" string "string option" precondition_spec

fun act_description :: "description \<Rightarrow> act" where
  "act_description (State_description derived token spec) = run_all [push_state STATE_MAYBE_CCLASS,
     act_state_declaration derived token, act_state_end, act_transition_spec_opt spec, pop_junk]"
| "act_description (Cluster_description derived token child_names history spec body) = run_all ([
     push_state STATE_MAYBE_CCLASS, act_state_declaration derived token] @ map act_child child_names @ [
     act_history_opt history, act_cluster_end, act_transition_spec_opt spec, act_body_begin]
     @ map act_description body @ [act_body_end])"
| "act_description (Set_description derived token child_names spec body) = run_all ([
     push_state STATE_MAYBE_CCLASS, act_state_declaration derived token] @ map act_child child_names @ [
     act_set_end, act_transition_spec_opt spec, act_body_begin]
     @ map act_description body @ [act_body_end])"
| "act_description (Event_description base token params precondition) = run_all [
     act_base_event_spec_opt base, act_identifier token, act_event_declare, act_parameter_list_opt params,
     act_event_precondition_opt precondition, act_event_end]"

section \<open>The description of a machine\<close>

record chsm_description =
  cd_public :: bool
  cd_derived :: "string option"
  cd_name :: string
  cd_params :: "string option"
  cd_history :: history_spec
  cd_actions :: "(bool \<times> embedded list) list"
  cd_body :: "description list"

definition act_public_opt :: "bool \<Rightarrow> act" where
  "act_public_opt public fr = (if \<not> public then PUSH_INT 0 fr
     else if fr_lang fr = Lang_java then PUSH_INT 1 fr
     else run_all [on_cc (\<lambda>cc. emit_cerr (in_quotes ''public'' @ '' is Java-only; ignored'' @ [CHR 0x0A]) (src_warning 0 cc)),
            PUSH_INT 0] fr)"

definition act_chsm_declare :: act where
  "act_chsm_declare = POP_SYMBOL (the_sym (\<lambda>ident. POP_STRING (\<lambda>derived. POP_INT (\<lambda>is_public. run_all [
     on_cc (compiler_emplace ''root''),
     on_cc (insert_new ident (\<lambda>line. global_info_ctor line (Chsm_info (chsm_info_ctor ''root'' derived False)))),
     on_cc (\<lambda>cc. cc \<lparr> cc_chsm := Some ident \<rparr>),
     PUSH_SYMBOL (Some ident),
     (\<lambda>fr. PUSH_PARAMS (if CHSM (fr_cc fr) = None then None else Some ident) fr),
     push_state STATE_MAYBE_CPARAMS]))))"

fun params_of :: "info \<Rightarrow> fn_param list" where
  "params_of (Chsm_info c) = ch_params c"
| "params_of (User_event_info _ u) = ue_params u"
| "params_of _ = []"

definition check_chsm_params :: "sym \<Rightarrow> act" where
  "check_chsm_params pd fr = (case info_helper (fr_cc fr) (Some pd) of
     None \<Rightarrow> Inl Crash
   | Some si \<Rightarrow> (if params_of (si_info si) \<noteq> [] then with_CHSM (\<lambda>c.
         if ch_derived c = [] then on_cc (error_text ''parameters allowed only for derived CHSMs'') else skip) fr
       else Inr fr))"

definition act_chsm_params_end :: act where
  "act_chsm_params_end = run_all [pop_state, POP_PARAMS (the_sym check_chsm_params), pop_junk,
     with_CHSM (\<lambda>c. PUSH_SYMBOL (Some (ch_root c)))]"

definition act_root :: act where
  "act_root = POP_INT (\<lambda>history. with_CHSM (\<lambda>c. insert_state_info (ch_root c) None None
     (\<lambda>i. Cluster_info i [] (history \<noteq> 0))))"

definition act_chsm_description :: "chsm_description \<Rightarrow> act" where
  "act_chsm_description d = run_all ([act_public_opt (cd_public d), push_state STATE_MAYBE_CCLASS,
     act_derived_class_spec_opt (cd_derived d), act_identifier (cd_name d), act_chsm_declare,
     act_parameter_list_opt (cd_params d), act_chsm_params_end, act_history_opt (cd_history d), act_root]
     @ map act_enter_exit_action (cd_actions d) @ [act_body_begin]
     @ map act_description (cd_body d) @ [act_body_end])"

text \<open>The file of user code is written with an indentation of one.\<close>

definition user_code_ctor :: "item list" where
  "user_code_ctor = [Inc]"

definition front_init :: "lang \<Rightarrow> config \<Rightarrow> string \<Rightarrow> front" where
  "front_init l cf path = \<lparr>
     fr_cc = \<lparr> cc_table = empty_table, cc_chsm = None, cc_source = source_init path, cc_cerr = [] \<rparr>,
     fr_stack = [], fr_parent = None, fr_outer_deep = None, fr_next_no = 0, fr_user = user_code_ctor,
     fr_lexer = \<lparr> lx_state = STATE_NORMAL, lx_stack = [] \<rparr>, fr_lang = l, fr_config = cf \<rparr>"

text \<open>The action of \<^verbatim>\<open>chsm\<close> in the middle of its rule: the checks, then the code or nothing.\<close>

definition checked :: "front \<Rightarrow> stop + compiler" where
  "checked fr = check_transitions (check_events_used (check_states_defined (fr_cc fr)))"

definition act_chsm :: "front \<Rightarrow> stop + compiler \<times> item list list option" where
  "act_chsm fr = rbind (checked fr) (\<lambda>cc.
     if errors cc = 0
     then rbind (backpatch_enter_exit_events cc) (\<lambda>cc2.
       rbind (gen_emit (fr_lang fr) (fr_config fr) cc2 (item_text 0 (fr_user fr))) (\<lambda>files. Inr (cc2, Some files)))
     else Inr (cc, None))"

definition compile :: "lang \<Rightarrow> config \<Rightarrow> string \<Rightarrow> chsm_description \<Rightarrow> stop + compiler \<times> item list list option" where
  "compile l cf path d = rbind (act_chsm_description d (front_init l cf path)) act_chsm"

section \<open>The end of the input\<close>

text \<open>
  The checks and the generator run in an action before \<^verbatim>\<open>the_end_opt\<close>.  Of the tokens that
  follow the description and an optional \<^verbatim>\<open>%%\<close>, the first makes the parser call \<^verbatim>\<open>yyerror\<close> and
  recover by the production \<^verbatim>\<open>chsm: error\<close>, whose action completes the message; while it
  discards the others the parser reports no further error.  No message precedes, so
  \<^verbatim>\<open>error_newlined\<close> is false, as it was set initially.
\<close>

definition yyerror :: "string \<Rightarrow> compiler \<Rightarrow> compiler" where
  "yyerror msg cc = emit_cerr msg (src_error 0 (emit_cerr [CHR 0x0A] cc))"

definition elaborate_error :: "string \<Rightarrow> string \<Rightarrow> compiler \<Rightarrow> compiler" where
  "elaborate_error token msg cc = emit_cerr ('': '' @ (if token \<noteq> [] then in_quotes token @ '': '' else []) @ msg)
     (check_only cc)"

fun act_the_end :: "string list \<Rightarrow> compiler \<Rightarrow> compiler" where
  "act_the_end [] cc = cc"
| "act_the_end (token # tokens) cc =
     elaborate_error token (''no '' @ in_quotes ''%%'' @ '' ever encountered'' @ [CHR 0x0A]) (yyerror ''syntax error'' cc)"

lemma the_end_errors: "errors (act_the_end tokens cc) = errors cc + (if tokens = [] then 0 else 1)"
  by (cases tokens) (simp_all add: elaborate_error_def yyerror_def check_only_def map_source_def)

text \<open>The status \<^verbatim>\<open>main\<close> returns; \<open>yyresult\<close> is what the generated \<^verbatim>\<open>yyparse\<close> returned.\<close>

definition EX_OK :: nat where "EX_OK = 0"
definition EX_DATAERR :: nat where "EX_DATAERR = 65"

definition main_status :: "int \<Rightarrow> stop + compiler \<times> item list list option \<Rightarrow> stop + nat" where
  "main_status yyresult r = rbind r (\<lambda>(cc, _).
     Inr (if yyresult = 0 \<and> errors cc = 0 then EX_OK else EX_DATAERR))"

end
