(* ===== verification/Chsmc_Example.thy ===== *)
theory Chsmc_Example
  imports Chsmc_Descriptions
begin

text \<open>
  A description that uses most of the language: an event with a parameter, one derived from it,
  a cluster with a history and dotted names, a set, enter events, a deferred event.  The facts
  about its compilation are the concrete inputs the properties of the compiler are tried on.
\<close>

definition here :: "string \<Rightarrow> string \<Rightarrow> state_ref" where
  "here ident sub = \<lparr> sr_scope = Here, sr_ident = ident, sr_substates = sub \<rparr>"

definition on_goto :: "event_ref \<Rightarrow> string \<Rightarrow> string \<Rightarrow> transition_descr" where
  "on_goto ev ident sub = Transition_descr [(ev, None)] (Goto (To_state (here ident sub)) None)"

definition demo_config :: config where
  "demo_config = \<lparr> cf_package_string = ''CHSM 1'', cf_package_name = ''CHSM'', cf_line_directives = False,
     cf_codegen_only = False, cf_target_path = ''m.h'' \<rparr>"

definition demo_description :: chsm_description where
  "demo_description = \<lparr> cd_public = False, cd_derived = None, cd_name = ''M'', cd_params = None,
     cd_history = No_history, cd_actions = [],
     cd_body = [
       Event_description None ''e'' (Some ''(int n)'') No_precondition,
       Event_description (Some ''e'') ''g'' (Some ''(char *s)'') No_precondition,
       State_description None ''a'' (Some (Transition_spec [] [on_goto (User_event ''e'') ''x'' []])),
       Cluster_description None ''x'' [''p'', ''q''] History
         (Some (Transition_spec [] [on_goto (User_event ''f'') ''a'' [], on_goto (User_event ''g'') ''x'' ''.q'']))
         [State_description None ''p'' (Some (Transition_spec [] [on_goto (User_event ''e'') ''q'' []])),
          State_description None ''q'' None],
       Set_description None ''y'' [''p''] (Some (Transition_spec []
           [on_goto (Enter_exit True (here ''x'' [])) ''a'' []]))
         [State_description None ''p'' None]] \<rparr>"

definition demo_run :: "stop + front" where
  "demo_run = act_chsm_description demo_description (front_init Lang_cpp demo_config ''m.chsmc'')"

text \<open>The states in the order of their declaration, the events, the ends of the transitions, the
  parameters, the tables: the run is evaluated once.\<close>

lemma demo_facts:
  "case demo_run of Inl _ \<Rightarrow> False | Inr fr \<Rightarrow>
     (errors (fr_cc fr) = 0) \<and>
     ((case CHSM (fr_cc fr) of None \<Rightarrow> False | Some c \<Rightarrow>
     ch_states c = [''a'', ''x'', ''x.p'', ''x.q'', ''y'', ''y.p''] \<and>
     ch_events c = [''e'', ''g'', ''f'', ''EM1x''] \<and>
     map ti_from (ch_transitions c) = [''a'', ''x'', ''x'', ''x.p'', ''y''])) \<and>
     (0 < depth_bound (fr_cc fr) \<and>
     (case INFO as_user_event (fr_cc fr) (Some ''g'') of None \<Rightarrow> False | Some ue \<Rightarrow> ue_base ue = Some ''e'' \<and>
        ue_params ue = [\<lparr> fp_line_no = 0, fp_decl = ''char *$'', fp_name = ''s'' \<rparr>]) \<and>
     (case INFO as_user_event (fr_cc fr) (Some ''e'') of None \<Rightarrow> False | Some base \<Rightarrow> ue_base base = None \<and>
        ue_params base = [\<lparr> fp_line_no = 0, fp_decl = ''int $'', fp_name = ''n'' \<rparr>])) \<and>
     (chsm_name (fr_cc fr) = ''M'' \<and>
     (case children_table (fr_cc fr) ''x'' [''x.p'', ''x.q''] of Inl _ \<Rightarrow> False | Inr _ \<Rightarrow> True) \<and>
     serials (fr_cc fr) [''x.p'', ''x.q''] = Inr [2, 3] \<and>
     (case INFO as_event (fr_cc fr) (Some ''e'') of None \<Rightarrow> False | Some e \<Rightarrow> ev_transition_ids e = [0, 3] \<and>
       \<not> isl (define_event_common (fr_cc fr) ''e'' e))) \<and>
     ((case CHSM (fr_cc fr) of None \<Rightarrow> False | Some c \<Rightarrow> ch_events c = [''e'', ''g'', ''f'', ''EM1x'']) \<and>
     list_all (\<lambda>ev. map_option ev_state (INFO as_event (fr_cc fr) (Some ev)) = Some None) [''e'', ''g'', ''f''] \<and>
     (case INFO as_event (fr_cc fr) (Some ''EM1x'') of None \<Rightarrow> False | Some e \<Rightarrow>
        ev_state e = Some ''x'' \<and> ev_kind e = KIND_ENTER) \<and>
     (case INFO as_state (fr_cc fr) (Some ''x'') of None \<Rightarrow> False | Some _ \<Rightarrow> True) \<and>
     (case INFO as_state (fr_cc fr) (Some ''a'') of None \<Rightarrow> False | Some a \<Rightarrow> \<not> st_event_enter a))"
  by code_simp

lemma sum_part:
  "case r of Inl _ \<Rightarrow> False | Inr x \<Rightarrow> P x \<Longrightarrow> (\<And>x. P x \<Longrightarrow> Q x) \<Longrightarrow> case r of Inl _ \<Rightarrow> False | Inr x \<Rightarrow> Q x"
  by (cases r) simp_all

lemma demo_ends:
  "case demo_run of Inl _ \<Rightarrow> False | Inr fr \<Rightarrow> errors (fr_cc fr) = 0"
  by (rule sum_part [OF demo_facts]) (elim conjE, (intro conjI)?, assumption+)

lemma demo_tables:
  "case demo_run of Inl _ \<Rightarrow> False | Inr fr \<Rightarrow> (case CHSM (fr_cc fr) of None \<Rightarrow> False | Some c \<Rightarrow>
     ch_states c = [''a'', ''x'', ''x.p'', ''x.q'', ''y'', ''y.p''] \<and>
     ch_events c = [''e'', ''g'', ''f'', ''EM1x''] \<and>
     map ti_from (ch_transitions c) = [''a'', ''x'', ''x'', ''x.p'', ''y''])"
  by (rule sum_part [OF demo_facts]) (elim conjE, (intro conjI)?, assumption+)

lemma demo_events:
  "case demo_run of Inl _ \<Rightarrow> False | Inr fr \<Rightarrow> 0 < depth_bound (fr_cc fr) \<and>
     (case INFO as_user_event (fr_cc fr) (Some ''g'') of None \<Rightarrow> False | Some ue \<Rightarrow> ue_base ue = Some ''e'' \<and>
        ue_params ue = [\<lparr> fp_line_no = 0, fp_decl = ''char *$'', fp_name = ''s'' \<rparr>]) \<and>
     (case INFO as_user_event (fr_cc fr) (Some ''e'') of None \<Rightarrow> False | Some base \<Rightarrow> ue_base base = None \<and>
        ue_params base = [\<lparr> fp_line_no = 0, fp_decl = ''int $'', fp_name = ''n'' \<rparr>])"
  by (rule sum_part [OF demo_facts]) (elim conjE, (intro conjI)?, assumption+)

lemma demo_generates:
  "case demo_run of Inl _ \<Rightarrow> False | Inr fr \<Rightarrow> chsm_name (fr_cc fr) = ''M'' \<and>
     (case children_table (fr_cc fr) ''x'' [''x.p'', ''x.q''] of Inl _ \<Rightarrow> False | Inr _ \<Rightarrow> True) \<and>
     serials (fr_cc fr) [''x.p'', ''x.q''] = Inr [2, 3] \<and>
     (case INFO as_event (fr_cc fr) (Some ''e'') of None \<Rightarrow> False | Some e \<Rightarrow> ev_transition_ids e = [0, 3] \<and>
       \<not> isl (define_event_common (fr_cc fr) ''e'' e))"
  by (rule sum_part [OF demo_facts]) (elim conjE, (intro conjI)?, assumption+)

lemma demo_events_of_states:
  "case demo_run of Inl _ \<Rightarrow> False | Inr fr \<Rightarrow>
     (case CHSM (fr_cc fr) of None \<Rightarrow> False | Some c \<Rightarrow> ch_events c = [''e'', ''g'', ''f'', ''EM1x'']) \<and>
     list_all (\<lambda>ev. map_option ev_state (INFO as_event (fr_cc fr) (Some ev)) = Some None) [''e'', ''g'', ''f''] \<and>
     (case INFO as_event (fr_cc fr) (Some ''EM1x'') of None \<Rightarrow> False | Some e \<Rightarrow>
        ev_state e = Some ''x'' \<and> ev_kind e = KIND_ENTER) \<and>
     (case INFO as_state (fr_cc fr) (Some ''x'') of None \<Rightarrow> False | Some _ \<Rightarrow> True) \<and>
     (case INFO as_state (fr_cc fr) (Some ''a'') of None \<Rightarrow> False | Some a \<Rightarrow> \<not> st_event_enter a)"
  by (rule sum_part [OF demo_facts]) (elim conjE, (intro conjI)?, assumption+)

end
