(* ===== verification/Chsmc_Properties.thy ===== *)
theory Chsmc_Properties
  imports Chsmc_Tables Chsmc_Example
begin

text \<open>
  The properties of the parts of the compiler that work on text and symbols: names and
  numbers, the symbol table, parameter lists, the tables written for the run-time library.
  Each has an instance on a concrete input.
\<close>

section \<open>Names and numbers\<close>

text \<open>C18: the mangled name of a state demangles to the name, for names whose components have
  1 to 99 characters and do not begin with a digit; every such name of at most 126 characters
  can be mangled.  Hence the C++ functions named after two states are different.\<close>

theorem mangled_names_come_back:
  assumes "state_name s" "state_name s'" "length s \<le> 126"
  shows "\<exists>m. mangle s = Some m \<and> demangle m = Some s \<and> (mangle s' = Some m \<longrightarrow> s' = s)"
proof -
  obtain m where m: "mangle s = Some m"
    using demangle_mangle(2) [OF assms(1,3)] by blast
  then show ?thesis
    using demangle_mangle(1) [OF assms(1) m] mangle_inj [OF assms(2,1)] by blast
qed

theorem mangled_names_come_back_witness:
  "\<exists>m. mangle ''call.talking'' = Some m \<and> demangle m = Some ''call.talking'' \<and> mangle ''call.talk'' \<noteq> Some m"
proof -
  have "state_name ''call.talking'' \<and> state_name ''call.talk''" by code_simp
  then show ?thesis
    using mangled_names_come_back [of "''call.talking''" "''call.talk''"] by auto
qed

text \<open>C19: a number converted by \<^verbatim>\<open>ltoa\<close> stays in its static buffer
  during the next nine conversions, and \<^verbatim>\<open>atoi\<close> gives the number back, for
  every number the buffer holds.\<close>

theorem converted_numbers_stay:
  assumes "- (10 ^ 18) < n" "n < 10 ^ 19" "ltoa n p = Some (i, p1)" "ltoa_calls ns p1 = Some p2"
    "pool_ok p" "length ns < 10"
  shows "atoi (bufs p2 ! i) = n"
  using ltoa_stable [OF assms(3-6)] atoi_ltoa [OF assms(1,2)] by (metis option.inject)

theorem converted_numbers_stay_witness:
  "case ltoa 42 \<lparr> bufs = replicate 10 [], buf_b = 9 \<rparr> of None \<Rightarrow> False
   | Some (i, p1) \<Rightarrow> (case ltoa_calls [7, -3] p1 of None \<Rightarrow> False
     | Some p2 \<Rightarrow> atoi (bufs p2 ! i) = 42)"
proof -
  define p :: ltoa_pool where "p = \<lparr> bufs = replicate 10 [], buf_b = 9 \<rparr>"
  have "case ltoa 42 p of None \<Rightarrow> False
      | Some (i, p1) \<Rightarrow> ltoa_calls [7, -3] p1 \<noteq> None"
    unfolding p_def by code_simp
  then obtain i p1 p2 where r: "ltoa 42 p = Some (i, p1)"
      "ltoa_calls [7, -3] p1 = Some p2"
    by (auto split: option.splits)
  moreover have "pool_ok p" by (simp add: p_def pool_ok_def)
  ultimately show ?thesis
    using converted_numbers_stay [OF _ _ r] unfolding p_def [symmetric] by simp
qed

text \<open>C20: \<^verbatim>\<open>type_string\<close> does not write beyond its buffer of 256
  bytes, whatever combination of the declared types it is given.\<close>

theorem type_names_fit:
  assumes "types AND declared_types = types"
  shows "\<exists>s. type_string types = Some s \<and> length s < 256"
  using type_string_fits [OF assms] by (auto simp: type_string_def Let_def split: if_splits)

theorem type_names_fit_witness:
  "\<exists>s. type_string (T_STATE OR T_EVENT OR T_PARENT) = Some s \<and> length s < 256"
  by (rule type_names_fit) code_simp

text \<open>C21: a path is its name without extension, a dot and its extension when its last
  component has a dot; adding an extension to a path without one is undone by
  \<^verbatim>\<open>path_noext\<close>.\<close>

theorem paths_split:
  assumes "CHR ''.'' \<in> set (base_name path)" "CHR ''.'' \<notin> set (base_name p)"
    "CHR ''/'' \<notin> set e" "CHR ''.'' \<notin> set e"
  shows "path_plus (path_plus_char (path_noext path) CHR ''.'') (path_ext path) = path \<and>
    path_noext (path_plus (path_plus_char p CHR ''.'') e) = p \<and>
    path_ext (path_plus (path_plus_char p CHR ''.'') e) = e"
  using path_split_ext [OF assms(1)] path_plus_ext [OF assms(2-4)]
  by (simp add: path_plus_def path_plus_char_def)

theorem paths_split_witness:
  "path_plus (path_plus_char (path_noext ''a.d/m.chsmc'') CHR ''.'') (path_ext ''a.d/m.chsmc'') = ''a.d/m.chsmc'' \<and>
   path_noext (path_plus (path_plus_char ''a.d/m'' CHR ''.'') ''cpp'') = ''a.d/m''"
proof -
  have "CHR ''.'' \<in> set (base_name ''a.d/m.chsmc'') \<and> CHR ''.'' \<notin> set (base_name ''a.d/m'')" by code_simp
  then show ?thesis
    using paths_split [of "''a.d/m.chsmc''" "''a.d/m''" "''cpp''"] by simp
qed

section \<open>Parameter lists\<close>

text \<open>C22: the parser of parameter lists ends on every input, and unless the input has no token
  at all it fails neither an assertion nor an index check: it reports an error, or returns
  parameters whose declaration has one dollar sign, in place of the identifier that names it.\<close>

theorem param_lists_parse_safely:
  assumes "has_token ps"
  shows "parse_param_list l ps \<noteq> Inl Assertion \<and> parse_param_list l ps \<noteq> Inl Out_of_range \<and>
    (\<forall>params. parse_param_list l ps = Inr params \<longrightarrow> (\<forall>p \<in> set params. param_ok p))"
  using parse_param_list_safe [OF assms, of l] by (simp add: safe_def wlp_iff)

theorem param_lists_parse_safely_witness:
  "case parse_param_list Lang_cpp (parser_ctor ''(int x, char const *s)'') of
     Inl _ \<Rightarrow> False | Inr params \<Rightarrow> params \<noteq> [] \<and> (\<forall>p \<in> set params. param_ok p)"
proof -
  have t: "case get_token (parser_clear (parser_ctor ''(int x, char const *s)'')) of
      Inl _ \<Rightarrow> True | Inr (t, _) \<Rightarrow> tk_type t \<noteq> NONE" by code_simp
  have "has_token (parser_ctor ''(int x, char const *s)'')"
    unfolding has_token_def using t by (auto split: sum.splits)
  then show ?thesis
    using param_lists_parse_safely [of "parser_ctor ''(int x, char const *s)''" Lang_cpp]
      param_lists_example by (auto split: sum.splits)
qed

text \<open>C23: the text of an event's parameters, formal or actual, lists those of its base events
  first and its own last, each once, separated by commas.\<close>

theorem event_parameters_in_order:
  assumes "all_params cc (depth_bound cc) ue ps" "\<forall>p \<in> set ps. emit_param flags p = Inr (f p)"
  shows "event_param_list cc ue flags =
      Inr ((if flags AND EMIT_COMMA \<noteq> 0 \<and> ps \<noteq> [] then '', '' else []) @ separated '', '' (map f ps)) \<and>
    has_any_parameters (depth_bound cc) cc ue = Inr (ps \<noteq> [])"
  using event_param_list_text [OF assms] has_any_parameters_all [OF assms(1)] by simp

theorem event_parameters_in_order_witness:
  "case demo_run of Inl _ \<Rightarrow> False | Inr fr \<Rightarrow> (case INFO as_user_event (fr_cc fr) (Some ''g'') of
      None \<Rightarrow> False
    | Some ue \<Rightarrow> event_param_list (fr_cc fr) ue EMIT_FORMAL = Inr ''int n, char *s'')"
proof -
  obtain fr ue base where r: "demo_run = Inr fr" "INFO as_user_event (fr_cc fr) (Some ''g'') = Some ue"
      "INFO as_user_event (fr_cc fr) (Some ''e'') = Some base" "ue_base ue = Some ''e''" "ue_base base = None"
      "ue_params base = [\<lparr> fp_line_no = 0, fp_decl = ''int $'', fp_name = ''n'' \<rparr>]"
      "ue_params ue = [\<lparr> fp_line_no = 0, fp_decl = ''char *$'', fp_name = ''s'' \<rparr>]" "0 < depth_bound (fr_cc fr)"
    using demo_events by (auto split: sum.splits option.splits)
  obtain k where k: "depth_bound (fr_cc fr) = Suc k" using r(8) by (cases "depth_bound (fr_cc fr)") auto
  let ?f = "\<lambda>p. if fp_name p = ''n'' then ''int n'' else ''char *s''"
  have "all_params (fr_cc fr) (depth_bound (fr_cc fr)) ue (ue_params base @ ue_params ue)"
    unfolding k by (rule all_params.derived [OF r(4,3) all_params.own [OF r(5)]])
  moreover have "\<forall>p \<in> set (ue_params base @ ue_params ue). emit_param EMIT_FORMAL p = Inr (?f p)"
    unfolding r(6,7) by code_simp
  ultimately have "event_param_list (fr_cc fr) ue EMIT_FORMAL =
      Inr ((if EMIT_FORMAL AND EMIT_COMMA \<noteq> 0 \<and> ue_params base @ ue_params ue \<noteq> [] then '', '' else [])
        @ separated '', '' (map ?f (ue_params base @ ue_params ue)))"
    by (rule event_parameters_in_order [THEN conjunct1])
  moreover have "(EMIT_FORMAL AND EMIT_COMMA) = 0" by code_simp
  ultimately show ?thesis
    by (simp add: r(1,2,6,7))
qed

section \<open>Symbols\<close>

text \<open>C24: closing a scope removes from every symbol exactly the information declared in that
  scope and forgets the symbols that have none left; lookups in the enclosing scopes are as
  before.\<close>

theorem closing_a_scope:
  assumes "table_ok t" "scopes_bounded t" "1 < tb_scope t"
  shows "table_ok (close_scope t) \<and> scopes_bounded (close_scope t) \<and> tb_scope (close_scope t) = tb_scope t - 1 \<and>
    find_sym n (close_scope t) = (case find_sym n t of
      None \<Rightarrow> None
    | Some sy \<Rightarrow> (let kept = filter (\<lambda>i. si_scope i < tb_scope t) (sy_infos sy)
        in if kept = [] then None else Some (sy \<lparr> sy_infos := kept \<rparr>)))"
  using assms table_ok_close [OF assms(1)] scopes_bounded_close [OF assms] find_sym_close [OF assms]
  by (simp add: close_scope_def)

text \<open>A child of the outer scope and one of the inner; the inner one goes.\<close>

definition two_scopes :: symbol_table where
  "two_scopes = update_sym ''q'' (insert_info (child_info_ctor 9 1 ''x'')) (emplace ''q'' (open_scope (open_scope
     (update_sym ''a'' (insert_info (global_info_ctor 3 Global_info)) (emplace ''a'' empty_table)))))"

theorem closing_a_scope_witness:
  "find_sym ''q'' (close_scope two_scopes) = None \<and> find_sym ''a'' (close_scope two_scopes) = find_sym ''a'' two_scopes"
proof -
  have ok: "table_ok two_scopes \<and> scopes_bounded two_scopes \<and> 1 < tb_scope two_scopes" by code_simp
  have "find_sym ''q'' two_scopes = Some \<lparr> sy_name = ''q'', sy_infos = [(child_info_ctor 9 1 ''x'') \<lparr> si_symbol := Some ''q'' \<rparr>] \<rparr>"
      "find_sym ''a'' two_scopes = Some \<lparr> sy_name = ''a'', sy_infos = [(global_info_ctor 3 Global_info) \<lparr> si_symbol := Some ''a'' \<rparr>] \<rparr>"
      "tb_scope two_scopes = 2"
    by code_simp+
  then show ?thesis
    using closing_a_scope [of two_scopes "''q''"] closing_a_scope [of two_scopes "''a''"] ok
    by (simp add: child_info_ctor_def global_info_ctor_def base_info_ctor_def SCOPE_GLOBAL_def)
qed

section \<open>Tables\<close>

text \<open>C25: the array of children the generator writes, read back up to its sentinel, is the list
  of the children's serial numbers; likewise the array of an event's transitions.\<close>

theorem tables_read_back:
  assumes "children_table cc n children = Inr items" "define_event_common cc ev e = Inr items'"
    "plain_text n" "plain_text ev" "plain_text (chsm_name cc)"
    "serials cc children = Inr is" "\<forall>i \<in> set is. 0 \<le> i" "\<forall>i \<in> set (ev_transition_ids e). 0 \<le> i"
  shows "before_sentinel (read_ids (item_text a items)) = is \<and>
    before_sentinel (read_ids (item_text a items')) = ev_transition_ids e"
proof (rule conjI)
  have "read_ids (item_text a items) = is @ [-1]"
    using children_table_reads [OF assms(1,3,5), where a = a] assms(6) by (metis sum.inject(2))
  then show "before_sentinel (read_ids (item_text a items)) = is"
    using before_sentinel_append [OF assms(7)] by simp
  show "before_sentinel (read_ids (item_text a items')) = ev_transition_ids e"
    using event_table_reads [OF assms(2,4,5)] before_sentinel_append [OF assms(8)] by simp
qed

theorem tables_read_back_witness:
  "case demo_run of Inl _ \<Rightarrow> False | Inr fr \<Rightarrow> (case children_table (fr_cc fr) ''x'' [''x.p'', ''x.q''] of
      Inl _ \<Rightarrow> False | Inr items \<Rightarrow> before_sentinel (read_ids (item_text 0 items)) = [2, 3])"
proof -
  obtain fr items e where r: "demo_run = Inr fr" "children_table (fr_cc fr) ''x'' [''x.p'', ''x.q''] = Inr items"
      "INFO as_event (fr_cc fr) (Some ''e'') = Some e" "\<not> isl (define_event_common (fr_cc fr) ''e'' e)"
      "serials (fr_cc fr) [''x.p'', ''x.q''] = Inr [2, 3]" "ev_transition_ids e = [0, 3]" "chsm_name (fr_cc fr) = ''M''"
    using demo_generates by (auto split: sum.splits option.splits)
  obtain items' where "define_event_common (fr_cc fr) ''e'' e = Inr items'"
    using r(4) by (cases "define_event_common (fr_cc fr) ''e'' e") auto
  note r = r(1-3) this r(5-7)
  have "plain_text ''x'' \<and> plain_text ''e'' \<and> plain_text ''M''" by (simp add: plain_text_def)
  then have "before_sentinel (read_ids (item_text 0 items)) = [2, 3]"
    using tables_read_back [OF r(2,4) _ _ _ r(5), of 0] r(6,7) by simp
  then show ?thesis
    unfolding r(1) sum.case r(2) .
qed

text \<open>C26: the line number a target file counts and the newlines in its text run apart by
  exactly the newlines inside the pieces of text written: every \<^verbatim>\<open>T_ENDL\<close>
  adds one to both, a newline in a piece of text (from
  \<^verbatim>\<open>emit_source_line_no\<close> or copied user code) to the text only. Writing
  does not fail unless indentation by zero levels is asked for. The stream indents by one tab for
  each level, as the constructor sets it.\<close>

theorem target_line_numbers:
  assumes "Ind 0 \<notin> set is" "oi_scale (tg_out tg) = 1" "oi_char (tg_out tg) = CHR 0x09"
  shows "\<exists>tg'. put is tg = Inr tg' \<and> tg_line_no tg' = tg_line_no tg + lines_of is \<and>
    count_list (os_text (tg_out tg')) (CHR 0x0A) + tg_line_no tg =
      count_list (os_text (tg_out tg)) (CHR 0x0A) + tg_line_no tg' + plain_newlines is"
  using put_text_of [OF assms] by (auto simp: count_list_append item_text_newlines)

theorem target_line_numbers_witness:
  "\<exists>tg'. put [Inc, Ind 2, Txt ''x;'', Endl, Dec, Txt (''y'' @ nl), Endl] target_ctor = Inr tg' \<and>
    tg_line_no tg' = 3 \<and> count_list (os_text (tg_out tg')) (CHR 0x0A) = 3"
  using target_line_numbers [of "[Inc, Ind 2, Txt ''x;'', Endl, Dec, Txt (''y'' @ nl), Endl]" target_ctor]
  by (auto simp: target_ctor_def ostream_ctor_def lines_of_def plain_newlines_def nl_def)

section \<open>Checks\<close>

text \<open>C27: \<^verbatim>\<open>type_check\<close> accepts a symbol without info unless it
  must exist, and one with an info exactly when the info has one of the types asked for and infos
  are wanted; it counts an error exactly when the type is wrong or a symbol that must exist does
  not.\<close>

theorem type_check_verdict:
  "(fst (type_check sy types cond extra inn cc) \<longleftrightarrow> (case ith_info inn (deref cc sy) of
      None \<Rightarrow> cond \<noteq> MUST_EXIST
    | Some si \<Rightarrow> info_type (si_info si) AND types \<noteq> T_NONE \<and> cond \<noteq> NO_INFO)) \<and>
   cc_table (snd (type_check sy types cond extra inn cc)) = cc_table cc \<and>
   (errors (snd (type_check sy types cond extra inn cc)) = errors cc \<longleftrightarrow> (case ith_info inn (deref cc sy) of
      None \<Rightarrow> cond \<noteq> MUST_EXIST
    | Some si \<Rightarrow> info_type (si_info si) AND types \<noteq> T_NONE))"
proof -
  obtain ok cc' where r: "type_check sy types cond extra inn cc = (ok, cc')" by fastforce
  show ?thesis
    unfolding r fst_conv snd_conv
    by (intro conjI type_check_result(1) [OF r] type_check_result(2) [OF r] type_check_result(4) [OF r])
qed





text \<open>C29: back-patching gives every state of the machine an enter event exactly when the
  machine has one for it, likewise an exit event.\<close>

theorem enter_exit_events_noted:
  assumes "CHSM cc = Some c" "events_ok cc (ch_events c)"
  shows "\<exists>cc'. backpatch_enter_exit_events cc = Inr cc' \<and>
    (\<forall>n. INFO as_state cc' (Some n) = map_option
       (\<lambda>s. s \<lparr> st_event_enter := st_event_enter s \<or> (\<exists>ev \<in> set (ch_events c). event_for cc KIND_ENTER n ev),
               st_event_exit := st_event_exit s \<or> (\<exists>ev \<in> set (ch_events c). event_for cc KIND_EXIT n ev) \<rparr>)
       (INFO as_state cc (Some n)))"
  by (rule backpatch_result [OF assms])

theorem enter_exit_events_noted_witness:
  "case demo_run of Inl _ \<Rightarrow> False | Inr fr \<Rightarrow> (\<exists>cc'. backpatch_enter_exit_events (fr_cc fr) = Inr cc' \<and>
     map_option st_event_enter (INFO as_state cc' (Some ''x'')) = Some True \<and>
     map_option st_event_enter (INFO as_state cc' (Some ''a'')) = Some False)"
proof -
  obtain fr c e x a where r: "demo_run = Inr fr" "CHSM (fr_cc fr) = Some c" "ch_events c = [''e'', ''g'', ''f'', ''EM1x'']"
      "list_all (\<lambda>ev. map_option ev_state (INFO as_event (fr_cc fr) (Some ev)) = Some None) [''e'', ''g'', ''f'']"
      "INFO as_event (fr_cc fr) (Some ''EM1x'') = Some e" "ev_state e = Some ''x''" "ev_kind e = KIND_ENTER"
      "INFO as_state (fr_cc fr) (Some ''x'') = Some x" "INFO as_state (fr_cc fr) (Some ''a'') = Some a" "\<not> st_event_enter a"
    using demo_events_of_states by (auto split: sum.splits option.splits)
  have user: "event_for (fr_cc fr) k n ev \<longleftrightarrow> False" if "ev \<in> {''e'', ''g'', ''f''}" for k n ev
    using r(4) that by (auto simp: event_for_def)
  have "events_ok (fr_cc fr) (ch_events c)"
    using r(4-8) by (auto simp: events_ok_def r(3))
  from enter_exit_events_noted [OF r(2) this] obtain cc' where cc': "backpatch_enter_exit_events (fr_cc fr) = Inr cc'"
      "\<And>n. INFO as_state cc' (Some n) = map_option
       (\<lambda>s. s \<lparr> st_event_enter := st_event_enter s \<or> (\<exists>ev \<in> set (ch_events c). event_for (fr_cc fr) KIND_ENTER n ev),
               st_event_exit := st_event_exit s \<or> (\<exists>ev \<in> set (ch_events c). event_for (fr_cc fr) KIND_EXIT n ev) \<rparr>)
       (INFO as_state (fr_cc fr) (Some n))"
    by auto
  have "event_for (fr_cc fr) KIND_ENTER n ''EM1x'' \<longleftrightarrow> n = ''x''" for n
    using r(5-7) by (auto simp: event_for_def)
  then show ?thesis
    unfolding r(1) sum.case using r(8-10) user by (intro exI [of _ cc']) (simp add: cc' r(3))
qed

section \<open>User code\<close>

text \<open>C30: the loop that copies the file of user code ends, and copies the whole file if the
  device does not fail, also if its length is a multiple of the buffer's size; if the device
  fails at some place of the file, or when its end is read, the program ends with
  \<^verbatim>\<open>EX_NOINPUT\<close>.\<close>

theorem user_code_is_copied:
  "copy_loop (stream_open text faulty) =
    (if \<exists>k \<le> length text. faulty = Some k then Inl (Exit EX_NOINPUT) else Inr text)"
  using copy_loop_verdict [of "stream_open text faulty"]
  by (auto simp: stream_open_def stream_good_def split: option.splits if_splits)

end
