(* ===== verification/Chsmc_Options.thy ===== *)
theory Chsmc_Options
  imports Chsmc_Descriptions
begin

text \<open>
  The command line of the compiler (\<^verbatim>\<open>chsmc/options.cpp\<close>, \<^verbatim>\<open>options.h\<close>) and what
  \<^verbatim>\<open>main.cpp\<close> does before it parses.  \<^verbatim>\<open>getopt_long\<close> is not of this program: its results,
  an option character and perhaps an argument for each call, and the arguments it leaves are a
  parameter.  A run that ends early is \<open>Inl\<close> of how it ends and of the text on \<^verbatim>\<open>cerr\<close>.  The
  parts of the sources that depend on macros depend on a \<open>build\<close>.
\<close>

section \<open>Options and where they are kept\<close>

record build =
  enable_java :: bool
  enable_stack_debug :: bool
  yydebug :: bool

type_synonym 'a cli = "(stop \<times> string) + 'a"
type_synonym given = "(char \<times> string option) list"

definition EX_USAGE :: nat where "EX_USAGE = 64"

record options =
  opt_codegen_only :: bool
  opt_declaration_path :: string
  opt_definition_path :: string
  opt_lang :: lang
  opt_line_directives :: bool
  opt_stack_debug :: bool
  opt_bison_debug :: bool
  opts_given :: "char list"

definition options_start :: options where
  "options_start = \<lparr> opt_codegen_only = False, opt_declaration_path = [], opt_definition_path = [],
     opt_lang = Lang_none, opt_line_directives = True, opt_stack_debug = False,
     opt_bison_debug = False, opts_given = replicate 128 CHR 0x00 \<rparr>"

text \<open>The tables of long and of short options: name, whether an argument is required, short
  option.\<close>

definition LONG_OPTS :: "build \<Rightarrow> (string \<times> bool \<times> char) list" where
  "LONG_OPTS b = [(''declaration'', True, CHR ''d''), (''definition'', True, CHR ''D''), (''stdout'', False, CHR ''E'')]
     @ (if enable_java b then [(''java'', True, CHR ''j'')] else [])
     @ [(''no-line'', False, CHR ''P'')]
     @ (if enable_stack_debug b then [(''stack-debug'', False, CHR ''S'')] else [])
     @ [(''version'', False, CHR ''v''), (''language'', True, CHR ''x'')]
     @ (if yydebug b then [(''yydebug'', False, CHR ''y'')] else [])"

definition SHORT_OPTS :: "build \<Rightarrow> string" where
  "SHORT_OPTS b = ''c:d:D:Eh:Pvx:'' @ (if enable_java b then ''j:'' else [])
     @ (if enable_stack_debug b then ''S'' else []) @ (if yydebug b then ''y'' else [])"

definition options_gave :: "options \<Rightarrow> char \<Rightarrow> bool" where
  "options_gave o1 opt = (opts_given o1 ! of_char opt \<noteq> CHR 0x00)"

text \<open>The table has 128 elements and is indexed by an \<^verbatim>\<open>unsigned char\<close>.\<close>

definition mark_option :: "char \<Rightarrow> options \<Rightarrow> options cli" where
  "mark_option opt o1 = (if of_char opt < length (opts_given o1)
     then Inr (o1 \<lparr> opts_given := (opts_given o1)[of_char opt := opt] \<rparr>) else Inl (Crash, []))"

section \<open>Messages\<close>

definition get_long_opt :: "build \<Rightarrow> char \<Rightarrow> string option" where
  "get_long_opt b short_opt = (case find (\<lambda>(name, arg, val). val = short_opt) (LONG_OPTS b) of
     Some (name, arg, val) \<Rightarrow> Some name | None \<Rightarrow> None)"

definition format_opt :: "build \<Rightarrow> char \<Rightarrow> string" where
  "format_opt b short_opt = (case get_long_opt b short_opt of
     Some long_opt \<Rightarrow> ''--'' @ long_opt @ ''/'' | None \<Rightarrow> []) @ ''-'' @ [short_opt]"

definition PMESSAGE_EXIT :: "string \<Rightarrow> nat \<Rightarrow> string \<Rightarrow> 'a cli" where
  "PMESSAGE_EXIT me status message = Inl (Exit status, me @ '': '' @ message)"

definition usage_text :: "build \<Rightarrow> string \<Rightarrow> string" where
  "usage_text b me = ''usage: '' @ me @ '' [options] infile'' @ nl @ nl @ ''options:'' @ nl
     @ ''  -c file                Same as --definition/-D; implies -xc++'' @ nl
     @ ''  --declaration/-d file  Set declaration file.'' @ nl
     @ ''  --definition/-D file   Set definition file.'' @ nl
     @ ''  -h file                Same as --declaration/-d; implies -xc++.'' @ nl
     @ (if enable_java b then ''  --java/-j file         Same as -d and -D; implies -xjava.'' @ nl else [])
     @ ''  --language/-x lang     Set language to generate [default: C++].'' @ nl
     @ ''  --no-line/-P           Suppress #line directives in generated C++ code.'' @ nl
     @ (if enable_stack_debug b then ''  --stack-debug/-S       Enable stack debugg output.'' @ nl else [])
     @ ''  --stdout/-E            Generate all code to stdout.'' @ nl
     @ ''  --version/-v           Print version and exit.'' @ nl
     @ (if yydebug b then ''  --yydebug/-y           Enable Bison debug output.'' @ nl else [])"

definition usage :: "build \<Rightarrow> string \<Rightarrow> 'a cli" where
  "usage b me = Inl (Exit EX_USAGE, usage_text b me)"

section \<open>Checks between options\<close>

text \<open>The two sets are scanned in turn; the scan of a set stops at its first option given.\<close>

fun exclusive_loop :: "build \<Rightarrow> string \<Rightarrow> options \<Rightarrow> string list \<Rightarrow> nat \<Rightarrow> char \<Rightarrow> unit cli" where
  "exclusive_loop b me o1 [] gave_count gave_opt1 = Inr ()"
| "exclusive_loop b me o1 (opts # rest) gave_count gave_opt1 = (case find (options_gave o1) opts of
     Some opt \<Rightarrow> (if gave_count + 1 > 1
       then PMESSAGE_EXIT me EX_USAGE (format_opt b gave_opt1 @ '' and '' @ format_opt b opt
         @ '' are mutually exclusive'' @ nl)
       else exclusive_loop b me o1 rest (gave_count + 1) opt)
   | None \<Rightarrow> (if gave_count = 0 then Inr () else exclusive_loop b me o1 rest gave_count gave_opt1))"

definition check_mutually_exclusive :: "build \<Rightarrow> string \<Rightarrow> options \<Rightarrow> string \<Rightarrow> string \<Rightarrow> unit cli" where
  "check_mutually_exclusive b me o1 opts1 opts2 = exclusive_loop b me o1 [opts1, opts2] 0 CHR 0x00"

fun check_required :: "build \<Rightarrow> string \<Rightarrow> options \<Rightarrow> string \<Rightarrow> string \<Rightarrow> unit cli" where
  "check_required b me o1 [] req_opts = Inr ()"
| "check_required b me o1 (opt # opts) req_opts = (if options_gave o1 opt
     then if list_ex (options_gave o1) req_opts then Inr ()
       else let reqs_multiple = 1 < length req_opts
         in PMESSAGE_EXIT me EX_USAGE (format_opt b opt @ '' requires ''
              @ (if reqs_multiple then ''one of '' else []) @ ''the -'' @ req_opts @ '' option''
              @ (if reqs_multiple then ''s'' else []) @ '' to be given also'' @ nl)
     else check_required b me o1 opts req_opts)"

section \<open>Parsing the options\<close>

definition lang_map :: "build \<Rightarrow> (string \<times> lang) list" where
  "lang_map b = [(''c++'', Lang_cpp)] @ (if enable_java b then [(''java'', Lang_java)] else [])"

definition parse_lang :: "build \<Rightarrow> string \<Rightarrow> string \<Rightarrow> lang cli" where
  "parse_lang b me s = (case map_of (lang_map b) (tolower_ptr s) of
     None \<Rightarrow> PMESSAGE_EXIT me EX_USAGE (dq @ s @ dq @ '': unsupported language for '' @ format_opt b CHR ''x'' @ nl)
   | Some l \<Rightarrow> Inr l)"

text \<open>\<^verbatim>\<open>optarg\<close> is null for an option without an argument; a path cannot be made of it.\<close>

definition with_arg :: "string option \<Rightarrow> (string \<Rightarrow> 'a cli) \<Rightarrow> 'a cli" where
  "with_arg optarg f = (case optarg of None \<Rightarrow> Inl (Crash, []) | Some s \<Rightarrow> f s)"

definition set_declaration :: "string option \<Rightarrow> options \<Rightarrow> options cli" where
  "set_declaration optarg o1 = with_arg optarg (\<lambda>s. Inr (o1 \<lparr> opt_declaration_path := s \<rparr>))"

definition set_definition :: "string option \<Rightarrow> options \<Rightarrow> options cli" where
  "set_definition optarg o1 = with_arg optarg (\<lambda>s. Inr (o1 \<lparr> opt_definition_path := s \<rparr>))"

definition parse_option ::
    "build \<Rightarrow> string \<Rightarrow> char \<Rightarrow> string option \<Rightarrow> options \<times> bool \<Rightarrow> (options \<times> bool) cli" where
  "parse_option b me opt optarg st = (case st of (o1, print_version) \<Rightarrow>
     if opt = CHR ''h'' then rbind (set_declaration optarg (o1 \<lparr> opt_lang := Lang_cpp \<rparr>)) (\<lambda>o2. Inr (o2, print_version))
     else if opt = CHR ''d'' then rbind (set_declaration optarg o1) (\<lambda>o2. Inr (o2, print_version))
     else if opt = CHR ''c'' then rbind (set_definition optarg (o1 \<lparr> opt_lang := Lang_cpp \<rparr>)) (\<lambda>o2. Inr (o2, print_version))
     else if opt = CHR ''D'' then rbind (set_definition optarg o1) (\<lambda>o2. Inr (o2, print_version))
     else if opt = CHR ''j'' \<and> enable_java b then
       rbind (set_declaration optarg (o1 \<lparr> opt_lang := Lang_java \<rparr>)) (\<lambda>o2.
         rbind (set_definition optarg o2) (\<lambda>o3. Inr (o3, print_version)))
     else if opt = CHR ''E'' then Inr (o1 \<lparr> opt_codegen_only := True \<rparr>, print_version)
     else if opt = CHR ''P'' then Inr (o1 \<lparr> opt_line_directives := False \<rparr>, print_version)
     else if opt = CHR ''S'' \<and> enable_stack_debug b then Inr (o1 \<lparr> opt_stack_debug := True \<rparr>, print_version)
     else if opt = CHR ''v'' then Inr (o1, True)
     else if opt = CHR ''x'' then with_arg optarg (\<lambda>s.
       rbind (parse_lang b me s) (\<lambda>l. Inr (o1 \<lparr> opt_lang := l \<rparr>, print_version)))
     else if opt = CHR ''y'' \<and> yydebug b then Inr (o1 \<lparr> opt_bison_debug := True \<rparr>, print_version)
     else usage b me)"

text \<open>\<^verbatim>\<open>options_get\<close> marks what \<^verbatim>\<open>getopt_long\<close> returned; when nothing is left it
  returns the null character, at which the loop ends.\<close>

definition options_get :: "given \<Rightarrow> options \<Rightarrow> (char \<times> string option \<times> given \<times> options) cli" where
  "options_get given o1 = (case given of
     [] \<Rightarrow> Inr (CHR 0x00, None, [], o1)
   | (opt, optarg) # rest \<Rightarrow> rbind (mark_option opt o1) (\<lambda>o2. Inr (opt, optarg, rest, o2)))"

lemma options_get_shorter:
  "options_get given o1 = Inr (opt, optarg, rest, o2) \<Longrightarrow> opt \<noteq> CHR 0x00 \<Longrightarrow> length rest < length given"
  by (auto simp: options_get_def split: list.splits)

function parse_loop :: "build \<Rightarrow> string \<Rightarrow> given \<Rightarrow> options \<times> bool \<Rightarrow> (options \<times> bool) cli" where
  "parse_loop b me given st = (case options_get given (fst st) of
     Inl e \<Rightarrow> Inl e
   | Inr (opt, optarg, rest, o2) \<Rightarrow> (if opt = CHR 0x00 then Inr (o2, snd st)
       else rbind (parse_option b me opt optarg (o2, snd st)) (parse_loop b me rest)))"
  by pat_completeness auto
termination
  by (relation "measure (\<lambda>(b, me, given, st). length given)") (auto dest: options_get_shorter)

declare parse_loop.simps [simp del]

text \<open>The checks after the loop, in the order of the code.\<close>

definition exclusive_pairs :: "(string \<times> string) list" where
  "exclusive_pairs = [(''ch'', ''jx''), (''E'', ''cdDhj''), (''j'', ''cdDEhx''), (''v'', ''cdDEhjPSxy'')]"

definition required_pairs :: "(string \<times> string) list" where
  "required_pairs = [(''cD'', ''dh''), (''dh'', ''cD'')]"

definition check_all :: "build \<Rightarrow> string \<Rightarrow> options \<Rightarrow> unit cli" where
  "check_all b me o1 =
     rbind (iter_res (\<lambda>(opts1, opts2) u. check_mutually_exclusive b me o1 opts1 opts2) exclusive_pairs ()) (\<lambda>u.
     iter_res (\<lambda>(opts, req_opts) u. check_required b me o1 opts req_opts) required_pairs ())"

definition parse_options :: "build \<Rightarrow> string \<Rightarrow> string \<Rightarrow> given \<Rightarrow> string list \<Rightarrow> options cli" where
  "parse_options b package_string me given arguments =
     rbind (parse_loop b me given (options_start, False)) (\<lambda>(o1, print_version).
     rbind (check_all b me o1) (\<lambda>u.
     if print_version then Inl (Exit EX_OK, package_string @ nl)
     else if length arguments \<noteq> 1 then usage b me
     else Inr o1))"

definition options_init :: "build \<Rightarrow> string \<Rightarrow> string \<Rightarrow> given \<Rightarrow> string list \<Rightarrow> options cli" where
  "options_init b package_string argv0 given arguments =
     parse_options b package_string (base_name_ptr argv0) given arguments"

section \<open>The main function up to the parser\<close>

text \<open>\<^verbatim>\<open>extension\<close> and \<^verbatim>\<open>replace_extension\<close> of a standard path: a name that begins with its
  only dot has no extension, nor have the names of one and of two dots.\<close>

definition extension_at :: "string \<Rightarrow> nat option" where
  "extension_at path = (let name = base_name path; before = length path - length name in
     if name = ''.'' \<or> name = ''..'' then None
     else case find_last_of CHR ''.'' name of
       None \<Rightarrow> None
     | Some p \<Rightarrow> (if p = 0 then None else Some (before + p)))"

definition fs_extension :: "string \<Rightarrow> string" where
  "fs_extension path = (case extension_at path of None \<Rightarrow> [] | Some p \<Rightarrow> drop p path)"

definition replace_extension :: "string \<Rightarrow> string \<Rightarrow> string" where
  "replace_extension path ext = (case extension_at path of None \<Rightarrow> path | Some p \<Rightarrow> take p path)
     @ (if ext \<noteq> [] \<and> hd ext \<noteq> CHR ''.'' then ''.'' else []) @ ext"

text \<open>The generator for a language: the extensions of its files; without Java only C++ has
  one.\<close>

definition create_generator :: "build \<Rightarrow> lang \<Rightarrow> (string \<times> string) cli" where
  "create_generator b l = (case l of
     Lang_cpp \<Rightarrow> Inr cpp_filename_exts
   | Lang_java \<Rightarrow> (if enable_java b then Inr java_filename_exts else Inl (Exit EX_SOFTWARE, []))
   | Lang_none \<Rightarrow> Inl (Exit EX_SOFTWARE, []))"

definition ext_to_lang :: "build \<Rightarrow> string \<Rightarrow> lang" where
  "ext_to_lang b ext = (if enable_java b then map_ext_to_lang ext
     else if ext = ''.chsmc'' then Lang_cpp else Lang_none)"

definition choose_lang :: "build \<Rightarrow> string \<Rightarrow> string \<Rightarrow> options \<Rightarrow> options cli" where
  "choose_lang b me chsmx_path o1 = (if opt_lang o1 = Lang_none
     then let ext = fs_extension chsmx_path; l = ext_to_lang b ext in
       if l = Lang_none then PMESSAGE_EXIT me EX_DATAERR (quoted ext @ '': unsupported filename extension'' @ nl)
       else Inr (o1 \<lparr> opt_lang := l \<rparr>)
     else Inr o1)"

definition default_paths :: "string \<Rightarrow> string \<times> string \<Rightarrow> options \<Rightarrow> options" where
  "default_paths chsmx_path exts o1 = (if opt_codegen_only o1 then o1 else case exts of (dec_ext, def_ext) \<Rightarrow>
     let o2 = (if opt_declaration_path o1 = []
           then o1 \<lparr> opt_declaration_path := replace_extension chsmx_path dec_ext \<rparr> else o1)
     in if opt_definition_path o2 = []
        then o2 \<lparr> opt_definition_path := replace_extension chsmx_path def_ext \<rparr> else o2)"

text \<open>What the parser and the generator are started with: the options and the path of the source.
  The constructor of \<^verbatim>\<open>target_file\<close> gets the declaration path, unless the code goes to the
  standard output.\<close>

definition main_setup ::
    "build \<Rightarrow> string \<Rightarrow> string \<Rightarrow> given \<Rightarrow> string list \<Rightarrow> (options \<times> string) cli" where
  "main_setup b package_string argv0 given arguments =
     rbind (options_init b package_string argv0 given arguments) (\<lambda>o1. let chsmx_path = hd arguments in
     rbind (choose_lang b (base_name_ptr argv0) chsmx_path o1) (\<lambda>o2.
     rbind (create_generator b (opt_lang o2)) (\<lambda>exts. Inr (default_paths chsmx_path exts o2, chsmx_path))))"

definition config_of :: "string \<Rightarrow> string \<Rightarrow> options \<Rightarrow> config" where
  "config_of package_string package_name o1 = \<lparr> cf_package_string = package_string, cf_package_name = package_name,
     cf_line_directives = opt_line_directives o1, cf_codegen_only = opt_codegen_only o1,
     cf_target_path = opt_declaration_path o1 \<rparr>"

section \<open>What is accepted\<close>

text \<open>What \<^verbatim>\<open>getopt_long\<close> promises of its results: an option it knows, with an argument
  exactly if one is required, or a question mark.\<close>

definition known_option :: "build \<Rightarrow> char \<Rightarrow> bool" where
  "known_option b c = (c \<in> set ''cdDEhPvx'' \<or> c = CHR ''j'' \<and> enable_java b
     \<or> c = CHR ''S'' \<and> enable_stack_debug b \<or> c = CHR ''y'' \<and> yydebug b)"

definition getopt_results :: "build \<Rightarrow> given \<Rightarrow> bool" where
  "getopt_results b given = (\<forall>(c, a) \<in> set given.
     c = CHR ''?'' \<or> known_option b c \<and> (a \<noteq> None \<longleftrightarrow> c \<in> set ''cdDhjx''))"

definition recognised :: "build \<Rightarrow> given \<Rightarrow> bool" where
  "recognised b given = (\<forall>(c, a) \<in> set given.
     c \<noteq> CHR ''?'' \<and> (c = CHR ''x'' \<longrightarrow> map_of (lang_map b) (tolower_ptr (the a)) \<noteq> None))"

definition was_given :: "given \<Rightarrow> string \<Rightarrow> bool" where
  "was_given given opts = list_ex (\<lambda>(c, a). c \<in> set opts) given"

text \<open>The value the last of some options leaves.\<close>

fun last_argument :: "string \<Rightarrow> string \<Rightarrow> given \<Rightarrow> string" where
  "last_argument opts d [] = d"
| "last_argument opts d ((c, a) # given) = last_argument opts (if c \<in> set opts then the a else d) given"

fun last_lang :: "build \<Rightarrow> lang \<Rightarrow> given \<Rightarrow> lang" where
  "last_lang b d [] = d"
| "last_lang b d ((c, a) # given) = last_lang b
     (if c \<in> set ''ch'' then Lang_cpp else if c = CHR ''j'' then Lang_java
      else if c = CHR ''x'' then the (map_of (lang_map b) (tolower_ptr (the a))) else d) given"

lemmas given_defs = getopt_results_def recognised_def was_given_def

lemma was_given_simps [simp]:
  "was_given [] opts = False"
  "was_given ((c, a) # given) opts = (c \<in> set opts \<or> was_given given opts)"
  by (simp_all add: was_given_def)

lemma was_given_one: "was_given given [c] \<longleftrightarrow> c \<in> fst ` set given"
  by (force simp: was_given_def list_ex_iff)

lemma was_given_Cons: "was_given given (c # opts) \<longleftrightarrow> was_given given [c] \<or> was_given given opts"
  by (auto simp: was_given_def list_ex_iff)

lemma was_given_ex: "was_given given opts \<longleftrightarrow> list_ex (\<lambda>c. was_given given [c]) opts"
  by (force simp: was_given_def list_ex_iff)

lemma getopt_results_Cons:
  "getopt_results b (p # given) \<longleftrightarrow> getopt_results b [p] \<and> getopt_results b given"
  by (simp add: getopt_results_def)

lemma getopt_known: "getopt_results b [(c, a)] \<Longrightarrow> known_option b c \<or> c = CHR ''?''"
  by (simp add: getopt_results_def, erule disjE, simp_all)

lemma known_option_ascii:
  assumes "known_option b c \<or> c = CHR ''?''"
  shows "of_char c < (128 :: nat)" "c \<noteq> CHR 0x00"
  using assms by (auto simp: known_option_def)

lemma options_gave_marked:
  assumes "length (opts_given o1) = 128" "of_char c < (128 :: nat)" "c \<noteq> CHR 0x00"
  shows "\<exists>o2. mark_option c o1 = Inr o2 \<and> o2 = o1 \<lparr> opts_given := opts_given o2 \<rparr> \<and> length (opts_given o2) = 128
    \<and> (\<forall>d. options_gave o2 d \<longleftrightarrow> d = c \<or> options_gave o1 d)"
  using assms by (auto simp: mark_option_def options_gave_def nth_list_update)

text \<open>What one option does, if its result is one \<^verbatim>\<open>getopt_long\<close> may give.\<close>

definition option_effect :: "build \<Rightarrow> char \<Rightarrow> string option \<Rightarrow> options \<Rightarrow> options" where
  "option_effect b c a o1 = o1 \<lparr>
     opt_codegen_only := opt_codegen_only o1 \<or> c = CHR ''E'',
     opt_declaration_path := last_argument ''dhj'' (opt_declaration_path o1) [(c, a)],
     opt_definition_path := last_argument ''cDj'' (opt_definition_path o1) [(c, a)],
     opt_lang := last_lang b (opt_lang o1) [(c, a)],
     opt_line_directives := opt_line_directives o1 \<and> c \<noteq> CHR ''P'',
     opt_stack_debug := opt_stack_debug o1 \<or> c = CHR ''S'',
     opt_bison_debug := opt_bison_debug o1 \<or> c = CHR ''y'' \<rparr>"

lemmas option_action_defs = parse_option_def recognised_def set_declaration_def set_definition_def
  with_arg_def usage_def option_effect_def known_option_def

lemma parse_option_effect:
  assumes "getopt_results b [(c, a)]"
  shows "if recognised b [(c, a)]
    then parse_option b me c a (o1, pv) = Inr (option_effect b c a o1, pv \<or> c = CHR ''v'')
    else \<exists>msg. parse_option b me c a (o1, pv) = Inl (Exit EX_USAGE, msg)"
proof -
  consider (q) "c = CHR ''?''" | (args) t where "c \<in> set ''cdDhj''" "known_option b c" "a = Some t"
    | (x) t where "c = CHR ''x''" "a = Some t" | (flags) "c \<in> set ''EPvSy''" "known_option b c"
  proof (cases "c = CHR ''?''")
    case False
    with assms have known: "known_option b c" "a \<noteq> None \<longleftrightarrow> c \<in> set ''cdDhjx''"
      by (simp_all add: getopt_results_def)
    have "c \<in> set ''cdDhj'' \<or> c = CHR ''x'' \<or> c \<in> set ''EPvSy''"
      using known(1) unfolding known_option_def by (elim disjE; simp; elim disjE; simp)
    moreover have "\<exists>t. a = Some t" if "c \<in> set ''cdDhj'' \<or> c = CHR ''x''"
      using that known(2) by auto
    ultimately show ?thesis using that(2-4) known(1) by blast
  qed (rule that(1))
  then show ?thesis
  proof cases
    case x
    then show ?thesis
      by (cases "map_of (lang_map b) (tolower_ptr t)")
        (simp_all add: option_action_defs parse_lang_def PMESSAGE_EXIT_def)
  next
    case args
    have "c = CHR ''c'' \<or> c = CHR ''d'' \<or> c = CHR ''D'' \<or> c = CHR ''h'' \<or> c = CHR ''j''"
      using args(1) by simp
    then show ?thesis
      using args(2,3) by (elim disjE) (simp_all add: option_action_defs)
  next
    case flags
    have "c = CHR ''E'' \<or> c = CHR ''P'' \<or> c = CHR ''v'' \<or> c = CHR ''S'' \<or> c = CHR ''y''"
      using flags(1) by simp
    then show ?thesis
      using flags(2) by (elim disjE) (simp_all add: option_action_defs)
  qed (simp add: option_action_defs)
qed

lemma option_effect_keeps [simp]: "opts_given (option_effect b c a o1) = opts_given o1"
  "options_gave (option_effect b c a o1) = options_gave o1"
  by (auto simp: option_effect_def options_gave_def)

definition loop_result :: "build \<Rightarrow> given \<Rightarrow> options \<times> bool \<Rightarrow> options \<times> bool \<Rightarrow> bool" where
  "loop_result b given st st' = (case st of (o1, pv) \<Rightarrow> case st' of (o2, pv') \<Rightarrow>
     length (opts_given o2) = 128 \<and> (\<forall>c. options_gave o2 c \<longleftrightarrow> options_gave o1 c \<or> was_given given [c]) \<and>
     pv' = (pv \<or> was_given given ''v'') \<and>
     opt_codegen_only o2 = (opt_codegen_only o1 \<or> was_given given ''E'') \<and>
     opt_declaration_path o2 = last_argument ''dhj'' (opt_declaration_path o1) given \<and>
     opt_definition_path o2 = last_argument ''cDj'' (opt_definition_path o1) given \<and>
     opt_lang o2 = last_lang b (opt_lang o1) given \<and>
     opt_line_directives o2 = (opt_line_directives o1 \<and> \<not> was_given given ''P'') \<and>
     opt_stack_debug o2 = (opt_stack_debug o1 \<or> was_given given ''S'') \<and>
     opt_bison_debug o2 = (opt_bison_debug o1 \<or> was_given given ''y''))"

lemma loop_result_step:
  assumes "loop_result b given (option_effect b c a o2, pv \<or> c = CHR ''v'') st'"
    and "o2 = o1 \<lparr> opts_given := opts_given o2 \<rparr>" "\<forall>d. options_gave o2 d \<longleftrightarrow> d = c \<or> options_gave o1 d"
  shows "loop_result b ((c, a) # given) (o1, pv) st'"
proof (cases st')
  case (Pair o3 pv')
  obtain g where o2: "o2 = o1 \<lparr> opts_given := g \<rparr>" using assms(2) by metis
  then show ?thesis
    using assms(1,3)
    by (simp add: loop_result_def Pair option_effect_def options_gave_def disj_ac eq_commute [of c] conj_ac)
qed

lemma parse_loop_result:
  assumes "getopt_results b given" "length (opts_given (fst st)) = 128"
  shows "if recognised b given then \<exists>st'. parse_loop b me given st = Inr st' \<and> loop_result b given st st'
    else \<exists>msg. parse_loop b me given st = Inl (Exit EX_USAGE, msg)"
  using assms
proof (induction given arbitrary: st)
  case Nil
  then show ?case
    by (cases st) (simp add: parse_loop.simps options_get_def recognised_def loop_result_def)
next
  case (Cons p given)
  obtain c a where p: "p = (c, a)" by (cases p)
  obtain o1 pv where st: "st = (o1, pv)" by (cases st)
  have one: "getopt_results b [(c, a)]" and rest: "getopt_results b given"
    using Cons.prems(1) unfolding p getopt_results_Cons [of b _ given] by simp_all
  have c: "of_char c < (128 :: nat)" "c \<noteq> CHR 0x00"
    by (rule known_option_ascii [OF getopt_known [OF one]])+
  obtain o2 where o2: "mark_option c o1 = Inr o2" "o2 = o1 \<lparr> opts_given := opts_given o2 \<rparr>"
      "length (opts_given o2) = 128" "\<forall>d. options_gave o2 d \<longleftrightarrow> d = c \<or> options_gave o1 d"
    using options_gave_marked [OF _ c] Cons.prems(2) by (auto simp: st)
  have loop: "parse_loop b me (p # given) st = rbind (parse_option b me c a (o2, pv)) (parse_loop b me given)"
    using c by (subst parse_loop.simps) (simp add: p st options_get_def o2(1))
  have rec: "recognised b (p # given) \<longleftrightarrow> recognised b [(c, a)] \<and> recognised b given"
    by (auto simp: recognised_def p)
  show ?case
    using parse_option_effect [OF one, of me o2 pv] loop_result_step [OF _ o2(2,4)] o2(3)
      Cons.IH [OF rest, of "(option_effect b c a o2, pv \<or> c = CHR ''v'')"]
    unfolding rec loop by (auto simp: p st split: if_splits)
qed

lemma exclusive_verdict:
  "check_mutually_exclusive b me o1 opts1 opts2 =
     (case find (options_gave o1) opts1 of None \<Rightarrow> Inr ()
      | Some c \<Rightarrow> (case find (options_gave o1) opts2 of None \<Rightarrow> Inr ()
        | Some d \<Rightarrow> Inl (Exit EX_USAGE,
            me @ '': '' @ format_opt b c @ '' and '' @ format_opt b d @ '' are mutually exclusive'' @ nl)))"
  by (auto simp: check_mutually_exclusive_def PMESSAGE_EXIT_def split: option.splits)

lemma find_ex: "find P xs = None \<longleftrightarrow> \<not> list_ex P xs"
  by (auto simp: find_None_iff list_ex_iff)

lemma exclusive_accepts:
  "check_mutually_exclusive b me o1 opts1 opts2 = Inr () \<longleftrightarrow>
     \<not> (list_ex (options_gave o1) opts1 \<and> list_ex (options_gave o1) opts2)"
  unfolding exclusive_verdict by (auto simp: find_ex [symmetric] split: option.splits)

lemma required_accepts:
  "check_required b me o1 opts req_opts = Inr () \<longleftrightarrow>
     (list_ex (options_gave o1) opts \<longrightarrow> list_ex (options_gave o1) req_opts)"
  by (induction opts) (auto simp: PMESSAGE_EXIT_def Let_def)

declare check_required.simps [simp del]

lemma checks_usage:
  "check_mutually_exclusive b me o1 opts1 opts2 = Inl e \<Longrightarrow> fst e = Exit EX_USAGE"
  "check_required b me o1 opts req_opts = Inl e \<Longrightarrow> fst e = Exit EX_USAGE"
  by (auto simp: exclusive_verdict split: option.splits)
    (induction opts, auto simp: check_required.simps PMESSAGE_EXIT_def Let_def split: if_splits)

definition compatible :: "given \<Rightarrow> bool" where
  "compatible given = ((\<forall>(opts1, opts2) \<in> set exclusive_pairs. \<not> (was_given given opts1 \<and> was_given given opts2))
     \<and> (was_given given ''cD'' \<longleftrightarrow> was_given given ''dh''))"

lemma check_all_accepts:
  assumes "\<forall>c. of_char c < (128 :: nat) \<longrightarrow> (options_gave o1 c \<longleftrightarrow> was_given given [c])"
  shows "check_all b me o1 = Inr () \<longleftrightarrow> compatible given"
proof -
  have ex: "list_ex (options_gave o1) opts \<longleftrightarrow> was_given given opts"
    if "list_all (\<lambda>c. of_char c < (128 :: nat)) opts" for opts
    using that assms by (auto simp: was_given_ex [of given opts] list_ex_iff list_all_iff)
  have accepts: "check_mutually_exclusive b me o1 opts1 opts2 = Inr () \<longleftrightarrow> \<not> (was_given given opts1 \<and> was_given given opts2)"
    "check_required b me o1 opts1 opts2 = Inr () \<longleftrightarrow> (was_given given opts1 \<longrightarrow> was_given given opts2)"
    if "list_all (\<lambda>c. of_char c < (128 :: nat)) opts1" "list_all (\<lambda>c. of_char c < (128 :: nat)) opts2" for opts1 opts2
    using that by (simp_all add: exclusive_accepts required_accepts ex)
  show ?thesis
    by (simp add: check_all_def exclusive_pairs_def required_pairs_def compatible_def accepts) blast
qed

lemma check_all_usage: "check_all b me o1 = Inl e \<Longrightarrow> fst e = Exit EX_USAGE"
  using checks_usage by (fastforce simp: check_all_def exclusive_pairs_def required_pairs_def rbind_def
    split: sum.splits)

text \<open>What \<^verbatim>\<open>parse_options\<close> leaves when it returns, and when it does.\<close>

definition parsed :: "build \<Rightarrow> given \<Rightarrow> options \<Rightarrow> bool" where
  "parsed b given o1 = (
     opt_codegen_only o1 = was_given given ''E'' \<and>
     opt_declaration_path o1 = last_argument ''dhj'' [] given \<and>
     opt_definition_path o1 = last_argument ''cDj'' [] given \<and>
     opt_lang o1 = last_lang b Lang_none given \<and>
     opt_line_directives o1 = (\<not> was_given given ''P''))"

definition acceptable :: "build \<Rightarrow> given \<Rightarrow> string list \<Rightarrow> bool" where
  "acceptable b given arguments = (recognised b given \<and> compatible given \<and> \<not> was_given given ''v''
     \<and> length arguments = 1)"

lemma parse_options_result:
  assumes "getopt_results b given"
  shows "if acceptable b given arguments
    then \<exists>o1. parse_options b ps me given arguments = Inr o1 \<and> parsed b given o1
    else \<exists>msg. parse_options b ps me given arguments =
      Inl (Exit (if recognised b given \<and> compatible given \<and> was_given given ''v'' then EX_OK else EX_USAGE), msg)"
proof (cases "recognised b given")
  case False
  have "length (opts_given (fst (options_start, False))) = 128" by (simp add: options_start_def)
  from parse_loop_result [OF assms this, of me] False show ?thesis
    by (auto simp: parse_options_def acceptable_def)
next
  case True
  have "length (opts_given (fst (options_start, False))) = 128" by (simp add: options_start_def)
  from parse_loop_result [OF assms this, of me] True obtain o1 pv where
    loop: "parse_loop b me given (options_start, False) = Inr (o1, pv)"
      "loop_result b given (options_start, False) (o1, pv)"
    by auto
  from loop(2) have o1: "parsed b given o1" "pv = was_given given ''v''"
      "options_gave o1 c \<longleftrightarrow> options_gave options_start c \<or> was_given given [c]" for c
    by (simp_all add: loop_result_def parsed_def) (simp_all add: options_start_def)
  have "\<not> options_gave options_start c" if "of_char c < (128 :: nat)" for c
    using that by (simp add: options_gave_def options_start_def)
  with o1(3) have "check_all b me o1 = Inr () \<longleftrightarrow> compatible given"
    by (intro check_all_accepts) simp
  then show ?thesis
    using True check_all_usage [of b me o1] o1(1,2)
    by (cases "check_all b me o1") (auto simp: parse_options_def loop(1) acceptable_def usage_def)
qed

section \<open>Files and language\<close>

lemma was_given_append: "was_given given (xs @ ys) \<longleftrightarrow> was_given given xs \<or> was_given given ys"
  by (auto simp: was_given_def list_ex_iff)

lemma last_argument_default: "\<not> was_given given opts \<Longrightarrow> last_argument opts d given = d"
  by (induction opts d given rule: last_argument.induct) auto

lemma last_argument_filled:
  assumes "was_given given opts \<or> d \<noteq> []" "\<forall>(c, a) \<in> set given. c \<in> set opts \<longrightarrow> the a \<noteq> []"
  shows "last_argument opts d given \<noteq> []"
  using assms by (induction opts d given rule: last_argument.induct) auto

lemma last_lang_default: "\<not> was_given given ''chjx'' \<Longrightarrow> last_lang b d given = d"
  by (induction b d given rule: last_lang.induct) (simp_all add: was_given_def)

lemma lang_map_some: "map_of (lang_map b) s \<noteq> None \<Longrightarrow> the (map_of (lang_map b) s) \<noteq> Lang_none"
  by (auto simp: lang_map_def split: if_splits)

lemma last_lang_some:
  assumes "recognised b given" "was_given given ''chjx'' \<or> d \<noteq> Lang_none"
  shows "last_lang b d given \<noteq> Lang_none"
  using assms
proof (induction b d given rule: last_lang.induct)
  case (2 b d c a given)
  have rec: "recognised b given" "c = CHR ''x'' \<Longrightarrow> map_of (lang_map b) (tolower_ptr (the a)) \<noteq> None"
    using "2.prems"(1) by (auto simp: recognised_def)
  define e where "e = (if c \<in> set ''ch'' then Lang_cpp else if c = CHR ''j'' then Lang_java
      else if c = CHR ''x'' then the (map_of (lang_map b) (tolower_ptr (the a))) else d)"
  have "was_given given ''chjx'' \<or> e \<noteq> Lang_none"
    using "2.prems"(2) lang_map_some [OF rec(2)] unfolding e_def by (auto simp: e_def)
  then show ?case
    using "2.IH" rec(1) by (simp add: e_def)
qed simp

lemma compatible_files:
  assumes "compatible given"
  shows "was_given given ''dhj'' \<longleftrightarrow> was_given given ''cDj''"
    "was_given given ''E'' \<Longrightarrow> \<not> was_given given ''dhj''"
proof -
  have split: "was_given given ''dhj'' \<longleftrightarrow> was_given given ''dh'' \<or> was_given given ''j''"
    "was_given given ''cDj'' \<longleftrightarrow> was_given given ''cD'' \<or> was_given given ''j''"
    "was_given given ''cdDhj'' \<longleftrightarrow> was_given given ''cdD'' \<or> was_given given ''hj''"
    using was_given_append [of given "''dh''" "''j''"] was_given_append [of given "''cD''" "''j''"]
      was_given_append [of given "''cdD''" "''hj''"] by simp_all
  show "was_given given ''dhj'' \<longleftrightarrow> was_given given ''cDj''"
    using assms by (simp add: compatible_def split)
  have "was_given given ''cdDhj''" if "was_given given ''dhj''"
    using that by (auto simp: was_given_def list_ex_iff)
  then show "was_given given ''E'' \<Longrightarrow> \<not> was_given given ''dhj''"
    using assms by (auto simp: compatible_def exclusive_pairs_def)
qed






text \<open>What the parser is started with, defaults included.  Without a language option the
  language comes from the extension of the source, although the usage text names C++ as the
  default; without options that name them, the files are made beside the source, although the
  manual puts them into the current directory.\<close>

lemma setup_result:
  assumes "getopt_results b given" "\<forall>(c, a) \<in> set given. a \<noteq> Some []"
    and "main_setup b ps argv0 given arguments = Inr (o1, path)"
  shows "arguments = [path] \<and> opt_lang o1 \<noteq> Lang_none \<and>
    opt_lang o1 = (if was_given given ''chjx'' then last_lang b Lang_none given
      else ext_to_lang b (fs_extension path)) \<and>
    (\<exists>dec_ext def_ext. create_generator b (opt_lang o1) = Inr (dec_ext, def_ext) \<and>
      (opt_declaration_path o1, opt_definition_path o1) =
        (if was_given given ''E'' then ([], [])
         else if was_given given ''dhj'' then (last_argument ''dhj'' [] given, last_argument ''cDj'' [] given)
         else (replace_extension path dec_ext, replace_extension path def_ext)))"
proof -
  let ?me = "base_name_ptr argv0"
  obtain o2 o3 dec_ext def_ext where run: "parse_options b ps ?me given arguments = Inr o2" "path = hd arguments"
      "choose_lang b ?me path o2 = Inr o3" "create_generator b (opt_lang o3) = Inr (dec_ext, def_ext)"
      "o1 = default_paths path (dec_ext, def_ext) o3"
    using assms(3) by (auto simp: main_setup_def options_init_def Let_def)
  have o2: "acceptable b given arguments" "parsed b given o2"
    using parse_options_result [OF assms(1), of arguments ps ?me] run(1) by (auto split: if_splits)
  have arguments: "arguments = [path]"
    using o2(1) run(2) by (cases arguments) (auto simp: acceptable_def)
  have given: "recognised b given" "compatible given" using o2(1) by (simp_all add: acceptable_def)
  have o3: "opt_lang o3 \<noteq> Lang_none" "opt_lang o3 = (if was_given given ''chjx'' then last_lang b Lang_none given
        else ext_to_lang b (fs_extension path))" "o3 = o2 \<lparr> opt_lang := opt_lang o3 \<rparr>"
    using run(3) o2(2) last_lang_some [OF given(1), of Lang_none] last_lang_default [of given b Lang_none]
    by (auto simp: choose_lang_def parsed_def PMESSAGE_EXIT_def Let_def split: if_splits)
  have filled: "was_given given opts \<Longrightarrow> last_argument opts [] given \<noteq> []" if "set opts \<subseteq> set ''cdDhjx''" for opts
    using assms(1,2) that by (intro last_argument_filled) (fastforce simp: getopt_results_def)+
  have paths: "opt_codegen_only o3 = was_given given ''E''"
      "opt_declaration_path o3 = last_argument ''dhj'' [] given" "opt_definition_path o3 = last_argument ''cDj'' [] given"
    using o2(2) arg_cong [OF o3(3), of opt_codegen_only] arg_cong [OF o3(3), of opt_declaration_path]
      arg_cong [OF o3(3), of opt_definition_path] by (simp_all add: parsed_def)
  have "opt_lang o1 = opt_lang o3" by (simp add: run(5) default_paths_def Let_def)
  moreover have "(opt_declaration_path o1, opt_definition_path o1) =
        (if was_given given ''E'' then ([], [])
         else if was_given given ''dhj'' then (last_argument ''dhj'' [] given, last_argument ''cDj'' [] given)
         else (replace_extension path dec_ext, replace_extension path def_ext))"
    using compatible_files [OF given(2)] filled [of "''dhj''"] filled [of "''cDj''"]
      last_argument_default [of given "''dhj''" "[]"] last_argument_default [of given "''cDj''" "[]"]
    by (auto simp: run(5) default_paths_def Let_def paths)
  ultimately show ?thesis using o3(1,2) run(4) arguments by simp
qed


section \<open>Properties of the command line\<close>

text \<open>C31: The command line is accepted exactly if every option is known and every language
  supported, no two options exclude each other, a definition file comes with a declaration file
  and vice versa, the version is not asked for and there is one source file.  Otherwise the
  compiler ends with the status of a usage error, or of success after printing the version;
  it does not index outside its table of options.\<close>

theorem command_line_verdict:
  assumes "getopt_results b given"
  shows "if acceptable b given arguments
    then \<exists>o1. parse_options b ps me given arguments = Inr o1
    else \<exists>msg. parse_options b ps me given arguments =
      Inl (Exit (if recognised b given \<and> compatible given \<and> was_given given ''v'' then EX_OK else EX_USAGE), msg)"
  using parse_options_result [OF assms, of arguments ps me] by (auto split: if_splits)

theorem command_line_verdict_witness:
  "\<exists>msg. parse_options \<lparr> enable_java = True, enable_stack_debug = False, yydebug = False \<rparr> ''chsm 1'' ''chsmc''
     [(CHR ''c'', Some ''m.cpp''), (CHR ''P'', None)] [''m.chsmc''] = Inl (Exit EX_USAGE, msg)"
proof -
  let ?b = "\<lparr> enable_java = True, enable_stack_debug = False, yydebug = False \<rparr>"
  let ?given = "[(CHR ''c'', Some ''m.cpp''), (CHR ''P'', None)]"
  have 1: "getopt_results ?b ?given" by code_simp
  have 2: "\<not> acceptable ?b ?given [''m.chsmc'']" by code_simp
  have 3: "\<not> was_given ?given ''v''" by code_simp
  show ?thesis using command_line_verdict [OF 1, of "[''m.chsmc'']" "''chsm 1''" "''chsmc''"] 2 3 by simp
qed

text \<open>C32: Let no argument of an option be empty.  When the compiler gets to parsing, there is
  one source and a language; if a language was asked for, it is the language of the last such
  option; if files were named, they are those the last options name; and if the code goes to the
  standard output, no file is set.\<close>

theorem files_and_language:
  assumes "getopt_results b given" "\<forall>(c, a) \<in> set given. a \<noteq> Some []"
    and "main_setup b ps argv0 given arguments = Inr (o1, path)"
  shows "arguments = [path] \<and> opt_lang o1 \<noteq> Lang_none \<and>
    (was_given given ''chjx'' \<longrightarrow> opt_lang o1 = last_lang b Lang_none given) \<and>
    (was_given given ''dhj'' \<longrightarrow> \<not> was_given given ''E'' \<longrightarrow>
      opt_declaration_path o1 = last_argument ''dhj'' [] given \<and>
      opt_definition_path o1 = last_argument ''cDj'' [] given) \<and>
    (was_given given ''E'' \<longrightarrow> opt_declaration_path o1 = [] \<and> opt_definition_path o1 = [])"
  using setup_result [OF assms] by (auto split: if_splits)

theorem files_and_language_witness:
  "\<exists>o1. main_setup \<lparr> enable_java = True, enable_stack_debug = False, yydebug = False \<rparr> ''chsm 1'' ''chsmc''
     [(CHR ''h'', Some ''n.h''), (CHR ''c'', Some ''n.cpp'')] [''m.chsmj''] = Inr (o1, ''m.chsmj'') \<and>
     opt_lang o1 = Lang_cpp \<and> opt_declaration_path o1 = ''n.h'' \<and> opt_definition_path o1 = ''n.cpp''"
proof -
  let ?b = "\<lparr> enable_java = True, enable_stack_debug = False, yydebug = False \<rparr>"
  let ?given = "[(CHR ''h'', Some ''n.h''), (CHR ''c'', Some ''n.cpp'')]"
  have 1: "getopt_results ?b ?given" "\<forall>(c, a) \<in> set ?given. a \<noteq> Some []" by code_simp+
  have "\<not> isl (main_setup ?b ''chsm 1'' ''chsmc'' ?given [''m.chsmj''])" by code_simp
  then obtain o1 path where 2: "main_setup ?b ''chsm 1'' ''chsmc'' ?given [''m.chsmj''] = Inr (o1, path)"
    by (cases "main_setup ?b ''chsm 1'' ''chsmc'' ?given [''m.chsmj'']") auto
  show ?thesis using files_and_language [OF 1 2] 2 by auto
qed



end
