(* ===== verification/Chsmc_Java_Text.thy ===== *)
theory Chsmc_Java_Text
  imports Chsmc_Java Chsmc_Tables "HOL-Library.Sublist"
begin

text \<open>
  What the Java generator writes: the substitution of macros ends and leaves none, and its tables
  of children and of transitions read back as lists of numbers.
\<close>

section \<open>Finding and replacing\<close>

lemma prefix_take: "prefix k s \<longleftrightarrow> take (length k) s = k"
  by (metis append_eq_conv_conj prefix_def)

lemma find_text_Some: "find_text k s = Some pos \<Longrightarrow> s = take pos s @ k @ drop (pos + length k) s"
proof (induction k s arbitrary: pos rule: find_text.induct)
  case (2 k c cs)
  show ?case
  proof (cases "take (length k) (c # cs) = k")
    case True
    then have "pos = 0" "c # cs = k @ drop (length k) (c # cs)"
      using "2.prems" append_take_drop_id [of "length k" "c # cs"] by simp_all
    then show ?thesis by simp
  qed (use 2 in auto)
qed (auto split: if_splits)

lemma find_text_None: "find_text k s = None \<longleftrightarrow> \<not> sublist k s"
  by (induction k s rule: find_text.induct)
    (auto simp: sublist_Cons_right prefix_take [symmetric] simp del: take_Suc_Cons)

text \<open>A replacement in which an occurrence can only be outside of the text put in.\<close>

definition apart :: "string \<Rightarrow> string \<Rightarrow> bool" where
  "apart k r \<longleftrightarrow> \<not> sublist k r \<and> \<not> sublist r k \<and>
     list_all (\<lambda>x. x = [] \<or> \<not> prefix x r) (suffixes k) \<and> list_all (\<lambda>x. x = [] \<or> \<not> suffix x r) (prefixes k)"

lemma sublist_apart:
  assumes "apart k r" "sublist k (u @ r @ v)"
  shows "sublist k u \<or> sublist k v"
proof -
  have no: "\<not> sublist k r" "\<not> sublist r k" "\<And>x. suffix x k \<Longrightarrow> prefix x r \<Longrightarrow> x = []"
      "\<And>x. prefix x k \<Longrightarrow> suffix x r \<Longrightarrow> x = []"
    using assms(1) by (auto simp: apart_def list_all_iff)
  from assms(2) consider "sublist k u" | "sublist k (r @ v)"
    | x1 x2 where "k = x1 @ x2" "suffix x1 u" "prefix x2 (r @ v)"
    by (auto simp: sublist_append)
  then show ?thesis
  proof cases
    case 2
    then show ?thesis
      using no(1,4) unfolding sublist_append by (metis append_Nil prefix_imp_sublist prefixI)
  next
    case 3
    have "\<not> (\<exists>z. x2 = r @ z)"
      using no(2) 3(1) by (metis sublist_appendI)
    then have "prefix x2 r"
      using 3(3) by (auto simp: prefix_append)
    then have "x2 = []"
      using no(3) 3(1) by (simp add: suffix_def)
    then show ?thesis
      using 3(1,2) by (simp add: suffix_imp_sublist)
  qed simp
qed

lemma sublist_replaced:
  assumes "find_text key s = Some pos" "apart k r"
    "sublist k (take pos s @ r @ drop (pos + length key) s)"
  shows "sublist k s"
  using sublist_apart [OF assms(2,3)] by (meson sublist_drop sublist_order.order.trans sublist_take)

lemma replace_loop_result:
  assumes "CHR ''_'' \<notin> set expansion" "CHR ''_'' \<in> set key" "count_list s CHR ''_'' \<le> bound"
  shows "\<exists>s'. replace_loop bound key expansion s = Inr s' \<and> \<not> sublist key s' \<and>
    (\<forall>k. apart k expansion \<longrightarrow> sublist k s' \<longrightarrow> sublist k s) \<and> (\<not> sublist key s \<longrightarrow> s' = s)"
  using assms
proof (induction bound key expansion s rule: replace_loop.induct)
  case (1 bound key expansion s)
  show ?case
  proof (cases "find_text key s")
    case None
    then have "replace_loop bound key expansion s = Inr s"
      by (subst replace_loop.simps) simp
    then show ?thesis
      using None by (simp add: find_text_None)
  next
    case (Some pos)
    let ?s = "take pos s @ expansion @ drop (pos + length key) s"
    have key: "0 < count_list key CHR ''_''"
      using "1.prems"(2) by (metis count_list_0_iff neq0_conv)
    have "count_list s CHR ''_'' = count_list (take pos s) CHR ''_'' + count_list key CHR ''_''
        + count_list (drop (pos + length key) s) CHR ''_''"
      by (subst find_text_Some [OF Some]) (simp only: count_list_append add.assoc)
    then have less: "count_list ?s CHR ''_'' < count_list s CHR ''_''"
      using key "1.prems"(1) by (simp add: count_list_append count_list_0_iff)
    then obtain b where b: "bound = Suc b" "count_list ?s CHR ''_'' \<le> b"
      using "1.prems"(3) by (cases bound) auto
    obtain s' where s': "replace_loop b key expansion ?s = Inr s'" "\<not> sublist key s'"
        "\<forall>k. apart k expansion \<longrightarrow> sublist k s' \<longrightarrow> sublist k ?s"
      using "1.IH" [OF Some b(1) "1.prems"(1,2) b(2)] by blast
    have "sublist key s" using Some find_text_None by (metis option.distinct(1))
    moreover have "replace_loop bound key expansion s = Inr s'"
      by (subst replace_loop.simps) (simp add: Some b(1) s'(1))
    ultimately show ?thesis
      using s'(2,3) sublist_replaced [OF Some] by blast
  qed
qed

section \<open>The table of macros\<close>

lemmas macro_defs = macro_map_def CHSM_CLUSTER_ARGS_def CHSM_CLUSTER_INIT_def CHSM_EVENT_ARGS_def
  CHSM_EVENT_INIT_def CHSM_PARENT_ARGS_def CHSM_PARENT_INIT_def CHSM_STATE_ARGS_def CHSM_STATE_INIT_def

lemma macro_underscores: "(key, expansion) \<in> set macro_map \<Longrightarrow> CHR ''_'' \<in> set key \<and> CHR ''_'' \<notin> set expansion"
proof -
  have "list_all (\<lambda>(key, expansion). CHR ''_'' \<in> set key \<and> CHR ''_'' \<notin> set expansion) macro_map" by code_simp
  then show "(key, expansion) \<in> set macro_map \<Longrightarrow> CHR ''_'' \<in> set key \<and> CHR ''_'' \<notin> set expansion"
    by (auto simp: list_all_iff)
qed

lemma macros_apart: "list_all (\<lambda>k. list_all (\<lambda>r. apart k r) (map snd macro_map)) (map fst macro_map)"
  by code_simp

lemma substitute_part:
  assumes "set ms \<subseteq> set macro_map"
  shows "\<exists>s'. iter_res (\<lambda>(key, expansion) s. replace_loop (count_list s CHR ''_'') key expansion s) ms s = Inr s' \<and>
    (\<forall>k \<in> fst ` set ms. \<not> sublist k s') \<and> (\<forall>k \<in> fst ` set macro_map. sublist k s' \<longrightarrow> sublist k s) \<and>
    ((\<forall>k \<in> fst ` set ms. \<not> sublist k s) \<longrightarrow> s' = s)"
  using assms
proof (induction ms arbitrary: s)
  case (Cons m ms)
  obtain key expansion where m: "m = (key, expansion)" by (cases m)
  with Cons.prems have mem: "(key, expansion) \<in> set macro_map" by simp
  then have apart: "\<forall>k \<in> fst ` set macro_map. apart k expansion"
    using macros_apart by (force simp: list_all_iff)
  obtain s1 where s1: "replace_loop (count_list s CHR ''_'') key expansion s = Inr s1" "\<not> sublist key s1"
      "\<forall>k. apart k expansion \<longrightarrow> sublist k s1 \<longrightarrow> sublist k s" "\<not> sublist key s \<longrightarrow> s1 = s"
    using replace_loop_result [of expansion key s "count_list s CHR ''_''"] macro_underscores [OF mem] by auto
  have "set ms \<subseteq> set macro_map" using Cons.prems by simp
  from Cons.IH [OF this, of s1] obtain s2 where
    s2: "iter_res (\<lambda>(key, expansion) s. replace_loop (count_list s CHR ''_'') key expansion s) ms s1 = Inr s2"
      "\<forall>k \<in> fst ` set ms. \<not> sublist k s2" "\<forall>k \<in> fst ` set macro_map. sublist k s2 \<longrightarrow> sublist k s1"
      "(\<forall>k \<in> fst ` set ms. \<not> sublist k s1) \<longrightarrow> s2 = s1"
    by blast
  have "key \<in> fst ` set macro_map" using mem by force
  then have "\<forall>k \<in> fst ` set (m # ms). \<not> sublist k s2"
    using s1(2) s2(2,3) by (auto simp: m)
  moreover have "\<forall>k \<in> fst ` set macro_map. sublist k s2 \<longrightarrow> sublist k s"
    using s1(3) s2(3) apart by blast
  ultimately show ?case
    using s1(1,4) s2(1,4) by (auto simp: m)
qed simp

section \<open>Tables\<close>

text \<open>A Java array has no sentinel; an empty initializer stands for no element.\<close>

definition read_java_ids :: "string \<Rightarrow> int list" where
  "read_java_ids t = (if list_all isspace (braces t) then [] else map atoi (fields (braces t)))"

definition comma_text :: "int list \<Rightarrow> string" where
  "comma_text is = separated '', '' (map int_text is)"

lemma comma_list_text: "comma_list (map int_text is) = Inr [Txt (comma_text is)]"
  by (simp add: comma_list_def tx_def comma_text_def sep_list_separated)

lemma int_text_front: "int_text i \<noteq> []"
  by (simp add: int_text_def)

lemma int_text_space: "c \<in> set (int_text i) \<Longrightarrow> \<not> isspace c"
  using decimal_chars(2) not_space_minus by (auto simp: int_text_def split: if_splits)

lemma comma_text_fields:
  assumes "is \<noteq> []"
  shows "map atoi (fields (comma_text is @ '' '')) = is"
  using assms
proof (induction "is")
  case (Cons i "is")
  have plain: "CHR '','' \<notin> set (int_text i)" by (rule int_text_plain) simp_all
  show ?case
  proof (cases "is")
    case Nil
    have "CHR '','' \<notin> set (int_text i @ '' '')" using plain by simp
    then show ?thesis
      using atoi_int_text [of "'' ''" i] by (simp add: Nil comma_text_def fields_plain del: fields.simps)
  next
    case (Cons j js)
    then have "comma_text (i # is) @ '' '' = int_text i @ CHR '','' # CHR '' '' # comma_text is @ '' ''"
      by (simp add: comma_text_def)
    then show ?thesis
      using fields_space [of "CHR '' ''" "comma_text is @ '' ''"] Cons.IH Cons atoi_int_text [of "[]" i]
      by (simp add: fields_comma [OF plain] del: fields.simps)
  qed
qed simp

lemma separated_chars: "c \<notin> set sep \<Longrightarrow> \<forall>t \<in> set ts. c \<notin> set t \<Longrightarrow> c \<notin> set (separated sep ts)"
  by (induction sep ts rule: separated.induct) auto

lemma comma_text_braces: "CHR ''}'' \<notin> set (comma_text is)"
  unfolding comma_text_def by (rule separated_chars) (auto simp: int_text_plain)

lemma read_java_table:
  assumes "CHR ''{'' \<notin> set before"
  shows "read_java_ids (before @ CHR ''{'' # CHR '' '' # comma_text is @ '' '' @ CHR ''}'' # after) = is"
proof -
  have braces: "braces (before @ CHR ''{'' # CHR '' '' # comma_text is @ '' '' @ CHR ''}'' # after) = CHR '' '' # comma_text is @ '' ''"
    using assms comma_text_braces [of "is"]
    by (simp add: braces_def dropWhile_append takeWhile_append takeWhile_eq_all_conv)
  show ?thesis
  proof (cases "is")
    case Nil
    have "list_all isspace (CHR '' '' # comma_text is @ '' '')" by (simp add: Nil comma_text_def)
    then show ?thesis unfolding read_java_ids_def braces using Nil by simp
  next
    case (Cons i js)
    have c: "hd (int_text i) \<in> set (int_text i)" using int_text_front [of i] by auto
    then have "\<not> isspace (hd (int_text i))" by (rule int_text_space)
    moreover have "set (int_text i) \<subseteq> set (comma_text is)"
      by (cases js) (auto simp: Cons comma_text_def)
    ultimately have "\<exists>c \<in> set (comma_text is). \<not> isspace c" using c by blast
    then have "\<not> list_all isspace (CHR '' '' # comma_text is @ '' '')"
      by (auto simp: list_all_iff)
    then show ?thesis
      using comma_text_fields [of "is"] fields_space [of "CHR '' ''" "comma_text is @ '' ''"] Cons
      unfolding read_java_ids_def braces by (simp del: fields.simps)
  qed
qed

lemma java_children_reads:
  assumes "java_children_table cc children = Inr items"
  obtains "is" where "serials cc children = Inr is" "read_java_ids (item_text a items) = is"
proof -
  obtain "is" where "is": "serials cc children = Inr is"
    and items: "items = [Ind 2, Txt ''private static final int children_[] = new int[] { '', Txt (comma_text is),
      Txt '' };'', Endl]"
    using assms by (auto simp: java_children_table_def tx_def endl_def ind_def comma_list_text)
  let ?before = "replicate (2 * a) CHR 0x09 @ ''private static final int children_[] = new int[] ''"
  have "CHR ''{'' \<notin> set ?before" by (simp add: in_set_replicate)
  from read_java_table [OF this, of "is" "'';'' @ [CHR 0x0A]"] have "read_java_ids (item_text a items) = is"
    by (simp add: items)
  with "is" show ?thesis by (rule that)
qed

lemma java_event_reads:
  assumes "java_define_event n e = Inr items" "CHR ''{'' \<notin> set n"
  shows "read_java_ids (item_text a items) = ev_transition_ids e"
proof -
  let ?before = "replicate a CHR 0x09 @ ''private final static int '' @ n @ TRANSITIONS_END @ ''[] = ''"
  have items: "items = [Ind 1, Txt ''private final static int '', Txt n, Txt TRANSITIONS_END, Txt ''[] = { '',
      Txt (comma_text (ev_transition_ids e)), Txt '' };'', Endl]"
    using assms(1) by (auto simp: java_define_event_def tx_def endl_def ind_def comma_list_text)
  have "CHR ''{'' \<notin> set ?before" using assms(2) by (simp add: in_set_replicate TRANSITIONS_END_def)
  from read_java_table [OF this, of "ev_transition_ids e" "'';'' @ [CHR 0x0A]"] show ?thesis
    by (simp add: items)
qed

text \<open>The two states of a transition: the second and the third field of its row, in both
  languages.\<close>

definition row_states :: "string \<Rightarrow> int list" where
  "row_states t = take 2 (drop 1 (map atoi (fields t)))"

lemma java_member_plain: "CHR '','' \<notin> set pre \<Longrightarrow> CHR '','' \<notin> set (java_member pre i)"
  using decimal_chars(1) [of "CHR '',''" i] by (auto simp: java_member_def)

lemma java_row_reads:
  assumes "java_transition cc t = Inr items"
  obtains from_id to_id cond targ act where
    "serial cc (Some (ti_from t)) = Inr from_id" "serial cc (ti_to t) = Inr to_id"
    "fields (item_text a items) = [cond, CHR '' '' # int_text from_id, CHR '' '' # int_text to_id, targ, act]"
    "cond = ''new CHSM.Transition( '' @ java_member PREFIX_CONDITION (ti_condition_id t)"
    "targ = CHR '' '' # java_member PREFIX_TARGET (ti_target_id t)"
    "act = CHR '' '' # java_member PREFIX_ACTION (ti_action_id t) @ '' )''"
proof -
  obtain i j where ij: "serial cc (Some (ti_from t)) = Inr i" "serial cc (ti_to t) = Inr j"
    and items: "items = [Txt ''new CHSM.Transition( '', Txt (java_member PREFIX_CONDITION (ti_condition_id t)),
      Txt '', '', Txt (int_text i), Txt '', '', Txt (int_text j), Txt '', '',
      Txt (java_member PREFIX_TARGET (ti_target_id t)), Txt '', '',
      Txt (java_member PREFIX_ACTION (ti_action_id t)), Txt '' )'']"
    using assms by (auto simp: java_transition_def tx_def)
  let ?c = "''new CHSM.Transition( '' @ java_member PREFIX_CONDITION (ti_condition_id t)"
  let ?t = "CHR '' '' # java_member PREFIX_TARGET (ti_target_id t)"
  let ?a = "CHR '' '' # java_member PREFIX_ACTION (ti_action_id t) @ '' )''"
  have p: "CHR '','' \<notin> set ?c" "CHR '','' \<notin> set ?t" "CHR '','' \<notin> set ?a"
      "CHR '','' \<notin> set (CHR '' '' # int_text i)" "CHR '','' \<notin> set (CHR '' '' # int_text j)"
    using java_member_plain int_text_plain [of "CHR '',''"]
    by (auto simp: PREFIX_CONDITION_def PREFIX_TARGET_def PREFIX_ACTION_def)
  have "item_text a items = ?c @ CHR '','' # (CHR '' '' # int_text i) @ CHR '','' # (CHR '' '' # int_text j)
      @ CHR '','' # ?t @ CHR '','' # ?a"
    by (simp add: items)
  then have "fields (item_text a items) = [?c, CHR '' '' # int_text i, CHR '' '' # int_text j, ?t, ?a]"
    by (metis p fields_comma fields_plain)
  with ij show ?thesis by (rule that [OF _ _ _ refl refl refl])
qed

lemma row_states_agree:
  assumes "define_transition cc t = Inr items" "java_transition cc t = Inr items'" "plain_text (chsm_name cc)"
    "serial cc (Some (ti_from t)) = Inr i" "serial cc (ti_to t) = Inr j"
  shows "row_states (item_text a items) = [i, j] \<and> row_states (item_text b items') = [i, j]"
proof -
  have atoi: "atoi (CHR '' '' # int_text k) = k" for k
    using atoi_int_text [of "[]" k] by (simp add: atoi_space)
  obtain c1 t1 a1 where "fields (item_text a items) = [c1, CHR '' '' # int_text i, CHR '' '' # int_text j, t1, a1, []]"
    using transition_row_reads [OF assms(1,3), of a] assms(4,5) by (metis sum.inject(2))
  moreover obtain c2 t2 a2 where "fields (item_text b items') = [c2, CHR '' '' # int_text i, CHR '' '' # int_text j, t2, a2]"
    using java_row_reads [OF assms(2), of b] assms(4,5) by (metis sum.inject(2))
  ultimately show ?thesis by (simp add: row_states_def atoi)
qed

end
