(* ===== verification/Chsmc_Java_Properties.thy ===== *)
theory Chsmc_Java_Properties
  imports Chsmc_Java_Text Chsmc_Example
begin

text \<open>
  The properties of the Java generator, tried on the example description and on a line of text,
  and two lemmas about output that is not what was meant.
\<close>

section \<open>Macros\<close>

text \<open>C35: The loop that replaces the macros in a line of the user's text ends; no macro is
  left in what it returns, and a line without macros is returned as it is.\<close>

theorem macros_substituted:
  "\<exists>s'. substitute line = Inr s' \<and> (\<forall>k \<in> fst ` set macro_map. \<not> sublist k s') \<and>
     ((\<forall>k \<in> fst ` set macro_map. \<not> sublist k line) \<longrightarrow> s' = line)"
  using substitute_part [of macro_map line] by (auto simp: substitute_def)

theorem macros_substituted_witness:
  "substitute ''super( CHSM_EVENT_INIT, x );'' = Inr ''super( chsmM, chsmTids, chsmN, chsmBE, x );'' \<and>
   substitute ''x_CHSM_y'' = Inr ''x_CHSM_y''"
proof
  show "substitute ''super( CHSM_EVENT_INIT, x );'' = Inr ''super( chsmM, chsmTids, chsmN, chsmBE, x );''"
    by code_simp
  have "list_all (\<lambda>k. find_text k ''x_CHSM_y'' = None) (map fst macro_map)" by code_simp
  then have "\<forall>k \<in> fst ` set macro_map. \<not> sublist k ''x_CHSM_y''"
    unfolding find_text_None by (simp add: list_all_iff)
  with macros_substituted [of "''x_CHSM_y''"] show "substitute ''x_CHSM_y'' = Inr ''x_CHSM_y''" by blast
qed

section \<open>Tables\<close>

text \<open>C34: Both generators write the same tables: the children of a parent and the transitions of
  an event, read back from the Java arrays and, up to the sentinel, from the C++ arrays, and the
  two states of a transition.\<close>

theorem generators_agree:
  assumes "children_table cc n children = Inr cs" "java_children_table cc children = Inr js"
    and "serials cc children = Inr is" "\<forall>i \<in> set is. 0 \<le> i"
    and "define_event_common cc ev e = Inr es" "java_define_event ev e = Inr fs"
    and "\<forall>i \<in> set (ev_transition_ids e). 0 \<le> i"
    and "define_transition cc t = Inr ts" "java_transition cc t = Inr us"
    and "serial cc (Some (ti_from t)) = Inr i" "serial cc (ti_to t) = Inr j"
    and "plain_text n" "plain_text ev" "plain_text (chsm_name cc)"
  shows "before_sentinel (read_ids (item_text a cs)) = is \<and> read_java_ids (item_text b js) = is \<and>
    before_sentinel (read_ids (item_text a es)) = ev_transition_ids e \<and>
    read_java_ids (item_text b fs) = ev_transition_ids e \<and>
    row_states (item_text a ts) = [i, j] \<and> row_states (item_text b us) = [i, j]"
proof -
  have "read_ids (item_text a cs) = is @ [-1]"
    using children_table_reads [OF assms(1,12,14), where a = a] assms(3) by (metis sum.inject(2))
  moreover have "read_java_ids (item_text b js) = is"
    using java_children_reads [OF assms(2), where a = b] assms(3) by (metis sum.inject(2))
  moreover have "read_ids (item_text a es) = ev_transition_ids e @ [-1]"
    by (rule event_table_reads [OF assms(5,13,14)])
  moreover have "read_java_ids (item_text b fs) = ev_transition_ids e"
    using java_event_reads [OF assms(6)] assms(13) by (simp add: plain_text_def)
  ultimately show ?thesis
    using before_sentinel_append [OF assms(4)] before_sentinel_append [OF assms(7)]
      row_states_agree [OF assms(8,9,14,10,11)] by simp
qed

definition demo_transition :: transition_info where
  "demo_transition = \<lparr> ti_from = ''x.p'', ti_to = Some ''x.q'', ti_condition_id = 0, ti_target_id = 0,
     ti_action_id = 3, ti_first_ref = 0 \<rparr>"

theorem generators_agree_witness:
  "case demo_run of Inl _ \<Rightarrow> False | Inr fr \<Rightarrow> (case java_children_table (fr_cc fr) [''x.p'', ''x.q''] of
      Inl _ \<Rightarrow> False | Inr js \<Rightarrow> read_java_ids (item_text 1 js) = [2, 3])"
proof -
  obtain fr cs e where r: "demo_run = Inr fr" "children_table (fr_cc fr) ''x'' [''x.p'', ''x.q''] = Inr cs"
      "\<not> isl (define_event_common (fr_cc fr) ''e'' e)" "serials (fr_cc fr) [''x.p'', ''x.q''] = Inr [2, 3]"
      "ev_transition_ids e = [0, 3]" "chsm_name (fr_cc fr) = ''M''"
    using demo_generates by (auto split: sum.splits option.splits)
  let ?cc = "fr_cc fr"
  obtain es where es: "define_event_common ?cc ''e'' e = Inr es"
    using r(3) by (cases "define_event_common ?cc ''e'' e") auto
  obtain js where js: "java_children_table ?cc [''x.p'', ''x.q''] = Inr js"
    by (simp add: java_children_table_def r(4) comma_list_text ind_def tx_def endl_def del: serials.simps)
  obtain fs where fs: "java_define_event ''e'' e = Inr fs"
    by (simp add: java_define_event_def comma_list_text ind_def tx_def endl_def)
  have s: "serial ?cc (Some (ti_from demo_transition)) = Inr 2" "serial ?cc (ti_to demo_transition) = Inr 3"
    using r(4) by (auto simp: demo_transition_def)
  obtain ts us where tu: "define_transition ?cc demo_transition = Inr ts" "java_transition ?cc demo_transition = Inr us"
    by (simp add: define_transition_def java_transition_def s ind_def tx_def)
  have p: "plain_text ''x''" "plain_text ''e''" "plain_text ''M''" by (simp_all add: plain_text_def)
  have "read_java_ids (item_text 1 js) = [2, 3]"
    using generators_agree [OF r(2) js r(4) _ es fs _ tu s p(1,2), where a = 0 and b = 1] p(3) r(5,6) by simp
  then show ?thesis by (simp only: r(1) js sum.case)
qed

section \<open>Output that is not what was meant\<close>

lemma item_text_app: "item_text a (xs @ ys) = item_text a xs @ item_text (item_amount a xs) ys"
  by (induction a xs rule: item_text.induct) simp_all

text \<open>The short-hand method of an event without parameters broadcasts \<^verbatim>\<open>null\<close>, also if the event
  has a precondition: no parameter block is made, so \<^verbatim>\<open>Event.broadcast\<close> does not ask for the
  precondition.\<close>

lemma java_precondition_bypassed:
  assumes "ue_params ue = []" "ue_base ue = None" "java_declare_user_event cc n e ue = Inr items"
  shows "\<exists>u v. item_text a items = u @ n @ ''.broadcast( null );'' @ v"
proof -
  have "has_any_parameters (depth_bound cc) cc ue = Inr False"
    using assms(1,2) by (subst has_any_parameters.simps) simp
  then obtain before where "items = before @ [Ind 2, Txt n, Txt ''.broadcast( '', Txt ''null'', Txt '' );'', Endl, Ind 1,
      Txt ''}'', Endl]"
    using assms(3) by (auto simp: java_declare_user_event_def java_shorthand_def tx_def ind_def endl_def)
  then have "item_text a items = item_text a before @ item_text (item_amount a before) [Ind 2] @
      n @ ''.broadcast( null );'' @ item_text (item_amount a before) [Endl, Ind 1, Txt ''}'', Endl]"
    by (simp add: item_text_app)
  then show ?thesis by (metis append_assoc)
qed

text \<open>A newline inside a piece of text is not counted: after the parameter block of an event with a
  precondition, the line number of the target file is too small.\<close>

lemma java_lines_uncounted:
  assumes "ue_precondition ue \<noteq> PRECONDITION_NONE" "java_param_block cc n ue = Inr items"
  shows "0 < plain_newlines items"
proof -
  have "Txt (''return super.precondition() &&'' @ nl) \<in> set items"
    using assms by (auto simp: java_param_block_def tx_def)
  then have "count_list (''return super.precondition() &&'' @ nl) (CHR 0x0A) \<le> plain_newlines items"
    by (auto simp: plain_newlines_def dest!: split_list)
  then show ?thesis by (simp add: nl_def count_list_append)
qed

section \<open>The end of a compilation\<close>

lemma backpatch_event_source: "backpatch_event ev cc = Inr cc' \<Longrightarrow> cc_source cc' = cc_source cc"
  by (auto simp: backpatch_event_def set_info_def split: option.splits if_splits)

lemma backpatch_source: "backpatch_enter_exit_events cc = Inr cc' \<Longrightarrow> cc_source cc' = cc_source cc"
proof -
  have "iter_res backpatch_event evs a = Inr b \<Longrightarrow> cc_source b = cc_source a" for evs a b
    by (induction evs arbitrary: a) (use backpatch_event_source in auto)
  then show "backpatch_enter_exit_events cc = Inr cc' \<Longrightarrow> cc_source cc' = cc_source cc"
    by (auto simp: backpatch_enter_exit_events_def split: option.splits)
qed

lemma gen_emit_files:
  "gen_emit l cf cc user_code = Inr files \<Longrightarrow> length files = (if l = Lang_java \<or> cf_codegen_only cf then 1 else 2)"
  by (auto simp: gen_emit_def emit_java_def emit_cpp_def split: if_splits)

text \<open>C36: When the checks at the end of a machine's description run, code is written if and
  only if no error was counted by then, one file in Java or when the code goes to the standard
  output and otherwise two. The status \<^verbatim>\<open>main\<close> returns is
  \<^verbatim>\<open>EX_OK\<close> if and only if code was written, no token follows the
  description (but \<^verbatim>\<open>%%\<close>), and \<^verbatim>\<open>yyparse\<close> returned
  0: tokens after the description are a syntax error that is counted after the code was
  written.\<close>

theorem code_only_without_errors:
  assumes "act_chsm fr = Inr (cc, files)"
  shows "(files = None \<longleftrightarrow> errors cc \<noteq> 0) \<and>
    main_status yyresult (Inr (act_the_end tokens cc, files)) =
      Inr (if files \<noteq> None \<and> tokens = [] \<and> yyresult = 0 then EX_OK else EX_DATAERR) \<and>
    (case files of None \<Rightarrow> True
     | Some fs \<Rightarrow> length fs = (if fr_lang fr = Lang_java \<or> cf_codegen_only (fr_config fr) then 1 else 2))"
proof -
  have status: "main_status yyresult (Inr (act_the_end tokens cc, files)) =
      Inr (if errors cc = 0 \<and> tokens = [] \<and> yyresult = 0 then EX_OK else EX_DATAERR)"
    by (simp add: main_status_def the_end_errors)
  obtain cc1 where "checked fr = Inr cc1" using assms by (auto simp: act_chsm_def)
  note run = assms [unfolded act_chsm_def this rbind_simps]
  show ?thesis
  proof (cases "errors cc1 = 0")
    case True
    then obtain fs where "cc_source cc = cc_source cc1" "files = Some fs"
        "length fs = (if fr_lang fr = Lang_java \<or> cf_codegen_only (fr_config fr) then 1 else 2)"
      using run by (auto dest: backpatch_source gen_emit_files)
    with True show ?thesis unfolding status by simp
  next
    case False
    with run show ?thesis unfolding status by simp
  qed
qed

definition empty_description :: chsm_description where
  "empty_description = \<lparr> cd_public = False, cd_derived = None, cd_name = ''M'', cd_params = None,
     cd_history = No_history, cd_actions = [], cd_body = [] \<rparr>"

lemma empty_compiles: "case act_chsm_description empty_description (front_init Lang_java demo_config ''m.chsmj'') of
    Inl _ \<Rightarrow> False | Inr fr \<Rightarrow> fr_lang fr = Lang_java \<and>
      (case act_chsm fr of Inl _ \<Rightarrow> False | Inr (cc, files) \<Rightarrow> errors cc = 0)"
  by code_simp

theorem code_only_without_errors_witness:
  "case compile Lang_java demo_config ''m.chsmj'' empty_description of Inl _ \<Rightarrow> False
   | Inr (cc, files) \<Rightarrow> (case files of None \<Rightarrow> False | Some fs \<Rightarrow> length fs = 1) \<and>
       main_status 0 (Inr (act_the_end [] cc, files)) = Inr EX_OK \<and>
       main_status 0 (Inr (act_the_end [''garbage''] cc, files)) = Inr EX_DATAERR"
proof -
  obtain fr cc files where r: "act_chsm_description empty_description (front_init Lang_java demo_config ''m.chsmj'') = Inr fr"
      "fr_lang fr = Lang_java" "act_chsm fr = Inr (cc, files)" "errors cc = 0"
    using empty_compiles by (auto split: sum.splits)
  note c = code_only_without_errors [OF r(3), of 0]
  have "files \<noteq> None" using c r(4) by blast
  then show ?thesis
    using c [of "[]"] c [of "[''garbage'']"] r(2) by (auto simp: compile_def r(1,3) split: option.splits)
qed

end
