(* ===== verification/Chsmc_View.thy ===== *)
theory Chsmc_View
  imports Chsmc_Descriptions
begin

text \<open>
  The symbol table seen from outside: in a table whose symbols hold their children's infos
  before at most one other info, the rest of the compiler depends on two functions, the info
  that is not a child's (\<open>glob\<close>) and the scopes of the children's infos (\<open>kid_scopes\<close>).
  The lemmas say what every change the grammar's actions make does to these two.
\<close>

section \<open>Infos of a symbol\<close>

fun is_child_info :: "info \<Rightarrow> bool" where
  "is_child_info (Child_info _ _) = True"
| "is_child_info _ = False"

abbreviation is_child :: "synfo \<Rightarrow> bool" where
  "is_child i \<equiv> is_child_info (si_info i)"

definition view :: "compiler \<Rightarrow> sym \<Rightarrow> synfo list" where
  "view cc n = sy_infos (deref cc n)"

definition others :: "synfo list \<Rightarrow> info list" where
  "others is = map si_info (filter (\<lambda>i. \<not> is_child i) is)"

definition glob :: "compiler \<Rightarrow> sym \<Rightarrow> info option" where
  "glob cc n = (case others (view cc n) of [] \<Rightarrow> None | i # _ \<Rightarrow> Some i)"

definition kid_scopes :: "compiler \<Rightarrow> sym \<Rightarrow> nat list" where
  "kid_scopes cc n = map si_scope (filter is_child (view cc n))"

definition infos_ok :: "synfo list \<Rightarrow> bool" where
  "infos_ok is \<longleftrightarrow> scopes_descend is \<and> (\<forall>i \<in> set is. if is_child i then 2 \<le> si_scope i else si_scope i = 1)
     \<and> length (others is) \<le> 1"

definition known :: "compiler \<Rightarrow> sym \<Rightarrow> bool" where
  "known cc n \<longleftrightarrow> find_sym n (cc_table cc) \<noteq> None"

definition shape :: "compiler \<Rightarrow> bool" where
  "shape cc \<longleftrightarrow> table_ok (cc_table cc) \<and> (\<forall>n. infos_ok (view cc n))"

text \<open>The children's infos come first.\<close>

lemma infos_split:
  assumes "infos_ok is"
  obtains ks gs where "is = ks @ gs" "filter is_child is = ks" "others is = map si_info gs"
    "gs = [] \<or> (\<exists>g. gs = [g])" "\<forall>i \<in> set ks. is_child i" "\<forall>i \<in> set gs. \<not> is_child i"
proof -
  have "\<exists>ks gs. is = ks @ gs \<and> (\<forall>i \<in> set ks. is_child i) \<and> (\<forall>i \<in> set gs. \<not> is_child i)"
    using assms
  proof (induction "is")
    case (Cons i "is")
    have ok: "infos_ok is"
      using Cons.prems by (auto simp: infos_ok_def scopes_descend_def others_def split: if_splits)
    obtain ks gs where k: "is = ks @ gs" "\<forall>i \<in> set ks. is_child i" "\<forall>i \<in> set gs. \<not> is_child i"
      using Cons.IH [OF ok] by blast
    show ?case
    proof (cases "is_child i")
      case True
      then show ?thesis
        using k by (intro exI [of _ "i # ks"] exI [of _ gs]) auto
    next
      case False
      have "\<not> is_child j" if "j \<in> set is" for j
        using Cons.prems False that unfolding infos_ok_def scopes_descend_def by fastforce
      then show ?thesis
        using False by (intro exI [of _ "[]"] exI [of _ "i # is"]) auto
    qed
  qed simp
  then obtain ks gs where k: "is = ks @ gs" "\<forall>i \<in> set ks. is_child i" "\<forall>i \<in> set gs. \<not> is_child i" by blast
  have f: "filter is_child is = ks" "filter (\<lambda>i. \<not> is_child i) is = gs"
    using k by (simp_all add: filter_id_conv filter_empty_conv)
  have "length gs \<le> 1"
    using assms by (simp add: infos_ok_def others_def f)
  then have "gs = [] \<or> (\<exists>g. gs = [g])"
    by (cases gs) (auto simp: length_Suc_conv le_Suc_eq)
  with k f show ?thesis
    by (intro that [of ks gs]) (simp_all add: others_def)
qed

lemma shape_infos: "shape cc \<Longrightarrow> infos_ok (view cc n)"
  by (simp add: shape_def)

lemma shape_table: "shape cc \<Longrightarrow> table_ok (cc_table cc)"
  by (simp add: shape_def)

text \<open>What the first info is.\<close>

lemma front_info:
  assumes "shape cc"
  shows "info_of (deref cc n) = None \<longleftrightarrow> kid_scopes cc n = [] \<and> glob cc n = None"
    "kid_scopes cc n = [] \<Longrightarrow> map_option si_info (info_of (deref cc n)) = glob cc n"
    "kid_scopes cc n \<noteq> [] \<Longrightarrow> \<exists>si p d. info_of (deref cc n) = Some si \<and> si_info si = Child_info p d"
proof -
  obtain ks gs where k: "view cc n = ks @ gs" "filter is_child (view cc n) = ks" "others (view cc n) = map si_info gs"
      "gs = [] \<or> (\<exists>g. gs = [g])" "\<forall>i \<in> set ks. is_child i"
    by (rule infos_split [OF shape_infos [OF assms, of n]])
  then show "info_of (deref cc n) = None \<longleftrightarrow> kid_scopes cc n = [] \<and> glob cc n = None"
    "kid_scopes cc n = [] \<Longrightarrow> map_option si_info (info_of (deref cc n)) = glob cc n"
    by (auto simp: view_def kid_scopes_def glob_def split: list.split)
  have ex: "\<exists>p d. j = Child_info p d" if "is_child_info j" for j
    using that by (cases j) auto
  show "kid_scopes cc n \<noteq> [] \<Longrightarrow> \<exists>si p d. info_of (deref cc n) = Some si \<and> si_info si = Child_info p d"
    using k(1,2,5) ex by (cases ks) (auto simp: view_def kid_scopes_def)
qed

definition glob_type :: "info option \<Rightarrow> symbol_type" where
  "glob_type g = (case g of None \<Rightarrow> T_NONE | Some i \<Rightarrow> info_type i)"

lemma front_type:
  assumes "shape cc"
  shows "type_of cc n 0 = (if kid_scopes cc n \<noteq> [] then T_CHILD else glob_type (glob cc n))"
proof (cases "kid_scopes cc n = []")
  case True
  then show ?thesis
    using front_info(2) [OF assms True]
    by (auto simp: type_of_def sym_type_def glob_type_def info_of_def simp del: info_of_simps split: option.splits)
next
  case False
  then show ?thesis
    using front_info(3) [OF assms False]
    by (auto simp: type_of_def sym_type_def info_of_def simp del: info_of_simps)
qed

lemma INFO_front:
  assumes "shape cc" "INFO as_type cc (Some n) = Some x" "\<And>p d. as_type (Child_info p d) = None"
  shows "kid_scopes cc n = [] \<and> (\<exists>i. glob cc n = Some i \<and> as_type i = Some x)"
proof -
  obtain si where si: "info_of (deref cc n) = Some si" "as_type (si_info si) = Some x"
    using assms(2) by (auto simp: INFO_def info_helper_def bind_eq_Some_conv simp del: info_of_simps)
  have k: "kid_scopes cc n = []"
    using front_info(3) [OF assms(1), of n] si assms(3) by (fastforce simp del: info_of_simps)
  with front_info(2) [OF assms(1) k] si show ?thesis
    by (metis option.simps(9))
qed

lemma INFO_glob:
  assumes "shape cc" "kid_scopes cc n = []"
  shows "INFO as_type cc (Some n) = Option.bind (glob cc n) as_type"
  unfolding front_info(2) [OF assms, symmetric]
  by (cases "info_of (deref cc n)") (auto simp: INFO_def info_helper_def simp del: info_of_simps)

section \<open>Changes\<close>

lemma view_cong: "cc_table cc = cc_table cc' \<Longrightarrow> view cc = view cc'"
  by (simp add: view_def fun_eq_iff deref_cong [of cc cc'])

lemma glob_cong: "view cc = view cc' \<Longrightarrow> glob cc = glob cc'"
  by (simp add: glob_def fun_eq_iff)

lemma kid_scopes_cong: "view cc = view cc' \<Longrightarrow> kid_scopes cc = kid_scopes cc'"
  by (simp add: kid_scopes_def fun_eq_iff)

lemma same_table:
  assumes "cc_table cc' = cc_table cc"
  shows "view cc' = view cc" "glob cc' = glob cc" "kid_scopes cc' = kid_scopes cc" "shape cc' = shape cc" "known cc' = known cc"
  using view_cong [OF assms] glob_cong kid_scopes_cong assms by (auto simp: shape_def known_def fun_eq_iff)

lemma emplace_view:
  "view (compiler_emplace n cc) = view cc" "glob (compiler_emplace n cc) = glob cc"
  "kid_scopes (compiler_emplace n cc) = kid_scopes cc" "shape cc \<Longrightarrow> shape (compiler_emplace n cc)"
  "known (compiler_emplace n cc) m \<longleftrightarrow> known cc m \<or> m = n"
proof -
  show v: "view (compiler_emplace n cc) = view cc"
    by (simp add: view_def emplace_infos fun_eq_iff)
  then show "glob (compiler_emplace n cc) = glob cc" "kid_scopes (compiler_emplace n cc) = kid_scopes cc"
    using glob_cong kid_scopes_cong by blast+
  show "shape cc \<Longrightarrow> shape (compiler_emplace n cc)"
    unfolding shape_def v by (simp add: compiler_emplace_def table_ok_emplace)
  show "known (compiler_emplace n cc) m \<longleftrightarrow> known cc m \<or> m = n"
    by (auto simp: known_def compiler_emplace_def find_sym_emplace)
qed

text \<open>A change of the first info that keeps its class.\<close>

definition keeps_class :: "(info \<Rightarrow> info) \<Rightarrow> bool" where
  "keeps_class f \<longleftrightarrow> (\<forall>i. is_child_info (f i) = is_child_info i)"

definition update_first :: "sym \<Rightarrow> (synfo \<Rightarrow> synfo) \<Rightarrow> compiler \<Rightarrow> compiler" where
  "update_first n f cc = cc \<lparr> cc_table := update_sym n (set_first f) (cc_table cc) \<rparr>"

lemma set_info_first: "set_info n f cc = update_first n (si_info_update f) cc"
  by (simp add: set_info_def update_first_def)

lemma view_update_first:
  "view (update_first n f cc) m = (if m = n then (case view cc m of [] \<Rightarrow> [] | i # is \<Rightarrow> f i # is) else view cc m)"
  by (auto simp: view_def deref_def update_first_def find_sym_update set_first_def symbol_ctor_def split: option.splits)

lemma update_first_view:
  assumes "shape cc" "\<And>si. si_scope (f si) = si_scope si" "\<And>si. is_child (f si) = is_child si"
    "\<And>si. si_info (f si) = h (si_info si)"
  shows "shape (update_first n f cc)" "kid_scopes (update_first n f cc) = kid_scopes cc"
    "glob (update_first n f cc) = (if kid_scopes cc n = [] then (glob cc)(n := map_option h (glob cc n)) else glob cc)"
    "known (update_first n f cc) = known cc"
proof -
  have t: "table_ok (cc_table (update_first n f cc))"
    using shape_table [OF assms(1)]
    by (auto simp: update_first_def set_first_def scopes_descend_def assms(2) intro!: table_ok_update split: list.split)
  have "infos_ok (view (update_first n f cc) m)" for m
    using shape_infos [OF assms(1), of m] assms(2,3)
    by (auto simp: view_update_first infos_ok_def scopes_descend_def others_def split: list.splits if_splits)
  with t show "shape (update_first n f cc)" by (simp add: shape_def)
  show "kid_scopes (update_first n f cc) = kid_scopes cc"
    using assms(2,3) by (auto simp: kid_scopes_def view_update_first fun_eq_iff split: list.splits)
  have "glob (update_first n f cc) m = (if kid_scopes cc n = [] \<and> m = n then map_option h (glob cc n) else glob cc m)" for m
  proof -
    obtain ks gs where k: "view cc m = ks @ gs" "filter is_child (view cc m) = ks" "others (view cc m) = map si_info gs"
        "gs = [] \<or> (\<exists>g. gs = [g])" "\<forall>i \<in> set ks. is_child i" "\<forall>i \<in> set gs. \<not> is_child i"
      by (rule infos_split [OF shape_infos [OF assms(1), of m]])
    show ?thesis
    proof (cases ks)
      case Nil
      then show ?thesis
        using k assms(3,4) by (auto simp: glob_def view_update_first kid_scopes_def others_def)
    next
      case (Cons i ks')
      then show ?thesis
        using k assms(3) by (auto simp: glob_def view_update_first kid_scopes_def others_def)
    qed
  qed
  then show "glob (update_first n f cc) = (if kid_scopes cc n = [] then (glob cc)(n := map_option h (glob cc n)) else glob cc)"
    by (auto simp: fun_eq_iff)
  show "known (update_first n f cc) = known cc"
    by (auto simp: known_def update_first_def find_sym_update fun_eq_iff)
qed

lemma set_info_view:
  assumes "shape cc" "keeps_class f"
  shows "shape (set_info n f cc)" "kid_scopes (set_info n f cc) = kid_scopes cc"
    "glob (set_info n f cc) = (if kid_scopes cc n = [] then (glob cc)(n := map_option f (glob cc n)) else glob cc)"
    "known (set_info n f cc) = known cc"
  unfolding set_info_first
  by (rule update_first_view [OF assms(1)]; use assms(2) in \<open>simp add: keeps_class_def\<close>)+

text \<open>Inserting an info.\<close>

lemma view_insert_new:
  assumes "known cc n"
  shows "\<exists>si. view (insert_new n k cc) = (view cc)(n := insert_loop si (view cc n)) \<and>
    si_scope si = si_scope (k (sf_line_no (cc_source cc))) \<and> si_info si = si_info (k (sf_line_no (cc_source cc)))"
proof -
  obtain sy where sy: "find_sym n (cc_table cc) = Some sy"
    using assms by (auto simp: known_def)
  let ?si = "(k (sf_line_no (cc_source cc))) \<lparr> si_symbol := Some (sy_name sy) \<rparr>"
  have "view (insert_new n k cc) = (view cc)(n := insert_loop ?si (view cc n))"
    by (auto simp: view_def deref_def insert_new_def find_sym_update insert_info_infos sy fun_eq_iff split: option.splits)
  then show ?thesis by (intro exI [of _ ?si]) auto
qed

lemma insert_loop_filter:
  "filter P (insert_loop s is) = (if P s then insert_loop s (filter P is) else filter P is)"
  if "sorted_wrt (\<lambda>x y. si_scope x \<ge> si_scope y) is"
  using that
proof (induction s "is" rule: insert_loop.induct)
  case (2 s i "is")
  have "insert_loop s (filter P is) = s # filter P is" if "si_scope i \<le> si_scope s"
  proof (cases "filter P is")
    case (Cons j js)
    then have "j \<in> set is" by (metis filter_eq_ConsD in_set_conv_decomp)
    then have "si_scope j \<le> si_scope s" using 2 that by fastforce
    then show ?thesis by (simp add: Cons)
  qed simp
  then show ?case using 2 by auto
qed simp

lemma insert_new_view:
  assumes "shape cc" "known cc n" "si_info (k (sf_line_no (cc_source cc))) = i"
  shows "\<lbrakk>\<not> is_child_info i; si_scope (k (sf_line_no (cc_source cc))) = 1; glob cc n = None\<rbrakk> \<Longrightarrow>
      shape (insert_new n k cc) \<and> glob (insert_new n k cc) = (glob cc)(n := Some i) \<and>
      kid_scopes (insert_new n k cc) = kid_scopes cc"
    "\<lbrakk>is_child_info i; si_scope (k (sf_line_no (cc_source cc))) = s; 2 \<le> s; \<forall>t \<in> set (kid_scopes cc n). t \<le> s\<rbrakk> \<Longrightarrow>
      shape (insert_new n k cc) \<and> glob (insert_new n k cc) = glob cc \<and>
      kid_scopes (insert_new n k cc) = (kid_scopes cc)(n := s # kid_scopes cc n)"
    "known (insert_new n k cc) = known cc"
proof -
  obtain si where si: "view (insert_new n k cc) = (view cc)(n := insert_loop si (view cc n))"
      "si_scope si = si_scope (k (sf_line_no (cc_source cc)))" "si_info si = i"
    using view_insert_new [OF assms(2), of k] assms(3) by auto
  have t: "table_ok (cc_table (insert_new n k cc))"
    using shape_table [OF assms(1)] by (simp add: insert_new_def table_ok_insert)
  have ok: "infos_ok (view cc m)" for m by (rule shape_infos [OF assms(1)])
  note sorted = ok [unfolded infos_ok_def scopes_descend_def, THEN conjunct1]
  have desc: "scopes_descend (insert_loop si (view cc n))"
    using ok by (simp add: infos_ok_def insert_loop_descend)
  note f = insert_loop_filter [OF sorted]
  show "shape (insert_new n k cc) \<and> glob (insert_new n k cc) = (glob cc)(n := Some i) \<and>
      kid_scopes (insert_new n k cc) = kid_scopes cc"
    if a: "\<not> is_child_info i" "si_scope (k (sf_line_no (cc_source cc))) = 1" "glob cc n = None"
  proof -
    have none: "filter (\<lambda>i. \<not> is_child i) (view cc n) = []"
      using a(3) by (auto simp: glob_def others_def split: list.splits)
    have "infos_ok (insert_loop si (view cc n))"
      using ok [of n] desc si a none by (auto simp: infos_ok_def insert_loop_set others_def f split: if_splits)
    then show ?thesis
      using t ok si a none by (auto simp: shape_def glob_def others_def kid_scopes_def f fun_eq_iff)
  qed
  show "shape (insert_new n k cc) \<and> glob (insert_new n k cc) = glob cc \<and>
      kid_scopes (insert_new n k cc) = (kid_scopes cc)(n := s # kid_scopes cc n)"
    if a: "is_child_info i" "si_scope (k (sf_line_no (cc_source cc))) = s" "2 \<le> s"
      "\<forall>t \<in> set (kid_scopes cc n). t \<le> s"
  proof -
    have "insert_loop si (filter is_child (view cc n)) = si # filter is_child (view cc n)"
      using a(2,4) si(2) by (cases "filter is_child (view cc n)") (auto simp: kid_scopes_def)
    moreover have "infos_ok (insert_loop si (view cc n))"
      using ok [of n] desc si a by (auto simp: infos_ok_def insert_loop_set others_def f split: if_splits)
    ultimately show ?thesis
      using t ok si a by (auto simp: shape_def glob_def others_def kid_scopes_def f fun_eq_iff)
  qed
  show "known (insert_new n k cc) = known cc"
    by (auto simp: known_def insert_new_def find_sym_update fun_eq_iff)
qed

text \<open>Deleting a dummy info, opening and closing a scope.\<close>

lemma delete_view:
  assumes "shape cc" "kid_scopes cc n = []" "cc' = cc \<lparr> cc_table := update_sym n delete_info (cc_table cc) \<rparr>"
  shows "shape cc' \<and> glob cc' = (glob cc)(n := None) \<and> kid_scopes cc' = kid_scopes cc \<and> known cc' = known cc"
proof -
  have v: "view cc' m = (if m = n then tl (view cc m) else view cc m)" for m
    by (auto simp: view_def deref_def assms(3) find_sym_update delete_info_def symbol_ctor_def split: option.splits)
  have "table_ok (cc_table cc')"
    using shape_table [OF assms(1)] by (simp add: assms(3) table_ok_delete)
  moreover obtain gs where "view cc n = gs" "others (view cc n) = map si_info gs" "gs = [] \<or> (\<exists>g. gs = [g])"
    using infos_split [OF shape_infos [OF assms(1), of n]] assms(2) by (metis append_Nil kid_scopes_def map_is_Nil_conv)
  then have "tl (view cc n) = []" by auto
  moreover have "kid_scopes cc' m = kid_scopes cc m" for m
    using \<open>tl (view cc n) = []\<close> assms(2) by (auto simp: kid_scopes_def v)
  moreover have "infos_ok []" by (simp add: infos_ok_def scopes_descend_def others_def)
  moreover have "known cc' = known cc"
    by (auto simp: known_def assms(3) find_sym_update fun_eq_iff)
  ultimately show ?thesis
    using shape_infos [OF assms(1)] assms(2)
    by (auto simp: shape_def glob_def v others_def fun_eq_iff)
qed

definition open_cc :: "compiler \<Rightarrow> compiler" where
  "open_cc cc = cc \<lparr> cc_table := open_scope (cc_table cc) \<rparr>"

definition close_cc :: "compiler \<Rightarrow> compiler" where
  "close_cc cc = cc \<lparr> cc_table := close_scope (cc_table cc) \<rparr>"

abbreviation scope_of :: "compiler \<Rightarrow> nat" where
  "scope_of cc \<equiv> tb_scope (cc_table cc)"

lemma open_view:
  "shape cc \<Longrightarrow> shape (open_cc cc)" "glob (open_cc cc) = glob cc" "kid_scopes (open_cc cc) = kid_scopes cc"
  "scope_of (open_cc cc) = scope_of cc + 1"
proof -
  have v: "view (open_cc cc) = view cc"
    by (simp add: view_def deref_def open_cc_def open_scope_def find_sym_def fun_eq_iff)
  show "glob (open_cc cc) = glob cc" "kid_scopes (open_cc cc) = kid_scopes cc"
    using glob_cong [OF v] kid_scopes_cong [OF v] by simp_all
  show "shape cc \<Longrightarrow> shape (open_cc cc)"
    unfolding shape_def v by (simp add: open_cc_def table_ok_open)
  show "scope_of (open_cc cc) = scope_of cc + 1"
    by (simp add: open_cc_def open_scope_def)
qed

definition kids_bounded :: "nat \<Rightarrow> compiler \<Rightarrow> bool" where
  "kids_bounded s cc \<longleftrightarrow> (\<forall>n. \<forall>t \<in> set (kid_scopes cc n). t \<le> s)"

lemma bounded_table:
  assumes "shape cc" "kids_bounded (scope_of cc) cc" "1 \<le> scope_of cc"
  shows "scopes_bounded (cc_table cc)"
  unfolding scopes_bounded_def
proof clarify
  fix n sy i assume e: "(n, sy) \<in> set (tb_entries (cc_table cc))" "i \<in> set (sy_infos sy)"
  have "distinct (map fst (tb_entries (cc_table cc)))"
    using shape_table [OF assms(1)] by (simp add: table_ok_def)
  then have i: "i \<in> set (view cc n)"
    using e by (simp add: view_def deref_def find_sym_def)
  show "si_scope i \<le> scope_of cc"
  proof (cases "is_child i")
    case True
    then show ?thesis
      using assms(2) i by (auto simp: kids_bounded_def kid_scopes_def)
  next
    case False
    then show ?thesis
      using shape_infos [OF assms(1), of n] i assms(3) by (auto simp: infos_ok_def)
  qed
qed

lemma close_view:
  assumes "shape cc" "kids_bounded (scope_of cc) cc" "1 < scope_of cc"
  shows "shape (close_cc cc)" "glob (close_cc cc) = glob cc"
    "kid_scopes (close_cc cc) n = filter (\<lambda>t. t < scope_of cc) (kid_scopes cc n)"
    "scope_of (close_cc cc) = scope_of cc - 1"
proof -
  have b: "scopes_bounded (cc_table cc)"
    by (rule bounded_table) (use assms in simp_all)
  have v: "view (close_cc cc) m = filter (\<lambda>i. si_scope i < scope_of cc) (view cc m)" for m
    by (auto simp: view_def deref_def close_cc_def find_sym_close [OF shape_table [OF assms(1)] b assms(3)]
        symbol_ctor_def Let_def split: option.splits)
  have o: "others (view (close_cc cc) m) = others (view cc m)" for m
  proof -
    have "\<forall>i \<in> set (view cc m). \<not> is_child i \<longrightarrow> si_scope i < scope_of cc"
      using shape_infos [OF assms(1), of m] assms(3) by (auto simp: infos_ok_def)
    then have "filter (\<lambda>i. si_scope i < scope_of cc \<and> \<not> is_child i) (view cc m) = filter (\<lambda>i. \<not> is_child i) (view cc m)"
      by (intro filter_cong) auto
    then show ?thesis by (simp add: v others_def conj_commute)
  qed
  have "infos_ok (view (close_cc cc) m)" for m
    using shape_infos [OF assms(1), of m] unfolding infos_ok_def o
    by (simp add: v scopes_descend_def sorted_wrt_filter)
  then show "shape (close_cc cc)"
    using table_ok_close [OF shape_table [OF assms(1)]] by (simp add: shape_def close_cc_def)
  show "glob (close_cc cc) = glob cc"
    by (simp add: glob_def o fun_eq_iff)
  show "kid_scopes (close_cc cc) n = filter (\<lambda>t. t < scope_of cc) (kid_scopes cc n)"
    by (simp add: kid_scopes_def v filter_map comp_def conj_commute)
  show "scope_of (close_cc cc) = scope_of cc - 1"
    using assms(3) by (simp add: close_cc_def close_scope_def)
qed

end
