(* ===== verification/Chsmc_Invariant.thy ===== *)
theory Chsmc_Invariant
  imports Chsmc_View
begin

text \<open>
  The invariant of a description as it is compiled without errors, and its preservation by
  everything that happens inside a transition list: names of states and events, embedded code,
  actions, conditions, transitions.  These actions declare no state and no child (\<open>inner\<close>),
  and each leaves on the semantic stack what the comment before its production says.
\<close>

section \<open>What the tables must satisfy\<close>

type_synonym globals = "sym \<Rightarrow> info option"

definition state_skel :: "state_info \<Rightarrow> sym option \<times> nat \<times> bool" where
  "state_skel s = (st_parent s, st_serial s, st_event_enter s \<or> st_event_exit s)"

definition skel_of :: "globals \<Rightarrow> sym \<Rightarrow> (sym option \<times> nat \<times> bool) option" where
  "skel_of G n = map_option state_skel (Option.bind (G n) as_state)"

fun as_kids :: "info \<Rightarrow> (bool \<times> sym list) option" where
  "as_kids (Cluster_info _ cs _) = Some (False, cs)"
| "as_kids (Set_info _ cs) = Some (True, cs)"
| "as_kids _ = None"

definition kids_of :: "globals \<Rightarrow> sym \<Rightarrow> (bool \<times> sym list) option" where
  "kids_of G n = Option.bind (G n) as_kids"

fun as_any_event :: "info \<Rightarrow> (event_info \<times> sym option option) option" where
  "as_any_event (Enex_event_info e) = Some (e, None)"
| "as_any_event (User_event_info e u) = Some (e, Some (ue_base u))"
| "as_any_event _ = None"

definition event_at :: "globals \<Rightarrow> sym \<Rightarrow> (event_info \<times> sym option option) option" where
  "event_at G n = Option.bind (G n) as_any_event"

definition parent_at :: "(sym \<Rightarrow> (sym option \<times> nat \<times> bool) option) \<Rightarrow> sym \<Rightarrow> sym option" where
  "parent_at S n = (case S n of Some (p, _) \<Rightarrow> p | None \<Rightarrow> None)"

text \<open>\<open>decl\<close> are the states declared so far, in order, \<open>pend\<close> the one being declared, \<open>p\<close> the
  current parent and \<open>next_no\<close> the next serial number.\<close>

definition states_ok ::
    "(sym \<Rightarrow> (sym option \<times> nat \<times> bool) option) \<Rightarrow> (sym \<Rightarrow> (bool \<times> sym list) option) \<Rightarrow>
     sym list \<Rightarrow> sym list \<Rightarrow> sym \<Rightarrow> nat \<Rightarrow> bool" where
  "states_ok S K decl pend p next_no \<longleftrightarrow>
     distinct (''root'' # decl @ pend) \<and>
     S ''root'' = Some (None, 0, False) \<and> (\<exists>cs. K ''root'' = Some (False, cs)) \<and>
     (\<forall>i < length decl. \<exists>q. S (decl ! i) = Some (Some q, i + 1, False) \<and> q \<in> set (''root'' # take i decl) \<and> K q \<noteq> None) \<and>
     (\<forall>n b cs. K n = Some (b, cs) \<longrightarrow>
        cs = filter (\<lambda>m. parent_at S m = Some n) decl @ (if n = p then pend else [])) \<and>
     (\<forall>n. S n \<noteq> None \<longrightarrow> n \<in> set (''root'' # decl)) \<and>
     (\<forall>n. K n \<noteq> None \<longrightarrow> S n \<noteq> None) \<and>
     next_no = length decl + 1 \<and> K p \<noteq> None"

definition event_ok :: "sym \<Rightarrow> event_info \<times> sym option option \<Rightarrow> nat \<Rightarrow> bool" where
  "event_ok n eb count \<longleftrightarrow> (case eb of (e, b) \<Rightarrow>
     distinct (ev_transition_ids e) \<and> (\<forall>t \<in> set (ev_transition_ids e). 0 \<le> t \<and> t < int count) \<and>
     (if b = None
      then \<exists>s m. ev_state e = Some s \<and> mangle s = Some m \<and> ev_kind e \<noteq> KIND_USER \<and>
        n = (if ev_kind e = KIND_ENTER then PREFIX_ENTER else PREFIX_EXIT) @ m
      else ev_state e = None))"

definition event_table_ok :: "(sym \<Rightarrow> (event_info \<times> sym option option) option) \<Rightarrow> sym list \<Rightarrow> nat \<Rightarrow> bool" where
  "event_table_ok E evs count \<longleftrightarrow> distinct evs \<and> (\<forall>n. E n = None \<longleftrightarrow> n \<notin> set evs) \<and>
     (\<forall>n eb. E n = Some eb \<longrightarrow> event_ok n eb count) \<and>
     (\<forall>n e b m e' b'. E n = Some (e, b) \<longrightarrow> E m = Some (e', b') \<longrightarrow> n \<noteq> m \<longrightarrow>
        set (ev_transition_ids e) \<inter> set (ev_transition_ids e') = {}) \<and>
     (\<forall>i < length evs. \<forall>e b. E (evs ! i) = Some (e, Some (Some b)) \<longrightarrow> b \<in> set (take i evs) \<and> (\<exists>e' b'. E b = Some (e', Some b')))"

definition ginv :: "sym list \<Rightarrow> sym list \<Rightarrow> sym \<Rightarrow> sym \<Rightarrow> chsm_info \<Rightarrow> front \<Rightarrow> bool" where
  "ginv decl pend M p c fr \<longleftrightarrow> (let G = glob (fr_cc fr) in
     shape (fr_cc fr) \<and> cc_chsm (fr_cc fr) = Some M \<and> G M = Some (Chsm_info c) \<and> ch_root c = ''root'' \<and>
     ch_states c = decl @ pend \<and> (\<forall>n \<in> set pend. G n = None \<and> known (fr_cc fr) n) \<and>
     states_ok (skel_of G) (kids_of G) decl pend p (fr_next_no fr) \<and>
     event_table_ok (event_at G) (ch_events c) (length (ch_transitions c)) \<and>
     (\<forall>t \<in> set (ch_transitions c). ti_from t \<in> set decl))"

text \<open>What an inner action leaves alone.\<close>

definition frame :: "front \<Rightarrow> front \<Rightarrow> bool" where
  "frame a b \<longleftrightarrow> kid_scopes (fr_cc b) = kid_scopes (fr_cc a) \<and> scope_of (fr_cc b) = scope_of (fr_cc a) \<and>
     (\<forall>n. known (fr_cc a) n \<longrightarrow> known (fr_cc b) n) \<and> fr_parent b = fr_parent a \<and>
     kids_of (glob (fr_cc b)) = kids_of (glob (fr_cc a))"

definition inner :: "sym list \<Rightarrow> front \<Rightarrow> front \<Rightarrow> bool" where
  "inner decl a b \<longleftrightarrow> errors (fr_cc a) \<le> errors (fr_cc b) \<and> (errors (fr_cc b) = 0 \<longrightarrow>
     (\<forall>M p c. ginv decl [] M p c a \<longrightarrow> (\<exists>c'. ginv decl [] M p c' b) \<and> frame a b))"

lemma frame_refl [simp]: "frame a a"
  by (simp add: frame_def)

lemma frame_trans: "frame a b \<Longrightarrow> frame b c \<Longrightarrow> frame a c"
  by (simp add: frame_def)

lemma inner_refl [simp, intro]: "inner decl a a"
  by (auto simp: inner_def)

lemma inner_trans [trans]: "inner decl a b \<Longrightarrow> inner decl b c \<Longrightarrow> inner decl a c"
  unfolding inner_def by (metis frame_trans le_zero_eq order_trans)

text \<open>The stack, the user code and the lexer do not matter.\<close>

lemma ginv_upd [simp]:
  "ginv decl pend M p c (fr \<lparr> fr_stack := s \<rparr>) = ginv decl pend M p c fr"
  "ginv decl pend M p c (fr \<lparr> fr_user := u \<rparr>) = ginv decl pend M p c fr"
  "ginv decl pend M p c (fr \<lparr> fr_lexer := l \<rparr>) = ginv decl pend M p c fr"
  "ginv decl pend M p c (fr \<lparr> fr_outer_deep := d \<rparr>) = ginv decl pend M p c fr"
  "ginv decl pend M p c (fr \<lparr> fr_parent := q \<rparr>) = ginv decl pend M p c fr"
  by (simp_all add: ginv_def)

lemma inner_upd [simp]:
  "inner decl a (b \<lparr> fr_stack := s \<rparr>) = inner decl a b" "inner decl (a \<lparr> fr_stack := s \<rparr>) b = inner decl a b"
  "inner decl a (b \<lparr> fr_user := u \<rparr>) = inner decl a b" "inner decl (a \<lparr> fr_user := u \<rparr>) b = inner decl a b"
  "inner decl a (b \<lparr> fr_lexer := l \<rparr>) = inner decl a b" "inner decl (a \<lparr> fr_lexer := l \<rparr>) b = inner decl a b"
  by (simp_all add: inner_def frame_def)

lemma states_ok_mono_next:
  assumes "states_ok S K decl [] p k"
  shows "n \<in> set decl \<Longrightarrow> S n \<noteq> None"
  using assms unfolding states_ok_def in_set_conv_nth by fastforce

section \<open>Changes that are inner\<close>

text \<open>A change of the compiler that keeps states and children's infos.\<close>

definition inner_ok :: "sym list \<Rightarrow> compiler \<Rightarrow> compiler \<Rightarrow> sym \<Rightarrow> chsm_info \<Rightarrow> bool" where
  "inner_ok decl cc cc' M c \<longleftrightarrow> shape cc' \<and> kid_scopes cc' = kid_scopes cc \<and> (\<forall>n. known cc n \<longrightarrow> known cc' n) \<and>
     skel_of (glob cc') = skel_of (glob cc) \<and> kids_of (glob cc') = kids_of (glob cc) \<and>
     (\<exists>c'. glob cc' M = Some (Chsm_info c') \<and> ch_root c' = ch_root c \<and> ch_states c' = ch_states c \<and>
       event_table_ok (event_at (glob cc')) (ch_events c') (length (ch_transitions c')) \<and>
       (\<forall>t \<in> set (ch_transitions c'). ti_from t \<in> set decl))"

definition base_ok :: "sym list \<Rightarrow> compiler \<Rightarrow> sym \<Rightarrow> chsm_info \<Rightarrow> bool" where
  "base_ok decl cc M c \<longleftrightarrow> shape cc \<and> cc_chsm cc = Some M \<and> glob cc M = Some (Chsm_info c) \<and>
     event_table_ok (event_at (glob cc)) (ch_events c) (length (ch_transitions c)) \<and>
     (\<forall>t \<in> set (ch_transitions c). ti_from t \<in> set decl)"

lemma innerI:
  assumes "errors (fr_cc a) \<le> errors (fr_cc b)" "cc_chsm (fr_cc b) = cc_chsm (fr_cc a)"
    "fr_parent b = fr_parent a" "fr_next_no b = fr_next_no a" "scope_of (fr_cc b) = scope_of (fr_cc a)"
    "\<And>M c. errors (fr_cc b) = 0 \<Longrightarrow> base_ok decl (fr_cc a) M c \<Longrightarrow> inner_ok decl (fr_cc a) (fr_cc b) M c"
  shows "inner decl a b"
  unfolding inner_def
proof (intro conjI impI allI)
  fix M p c assume e: "errors (fr_cc b) = 0" and g: "ginv decl [] M p c a"
  have "base_ok decl (fr_cc a) M c"
    using g by (simp add: ginv_def base_ok_def Let_def)
  note x = assms(6) [OF e this]
  show "\<exists>c'. ginv decl [] M p c' b"
    using x g assms(2-4) by (auto simp: ginv_def inner_ok_def Let_def)
  show "frame a b"
    using x assms(3,5) by (simp add: frame_def inner_ok_def)
qed (use assms(1) in simp)

lemma inner_same_table:
  assumes "cc_table (fr_cc b) = cc_table (fr_cc a)" "cc_chsm (fr_cc b) = cc_chsm (fr_cc a)"
    "fr_parent b = fr_parent a" "fr_next_no b = fr_next_no a" "errors (fr_cc a) \<le> errors (fr_cc b)"
  shows "inner decl a b"
  by (rule innerI) (use assms same_table [OF assms(1)] in \<open>auto simp: base_ok_def inner_ok_def\<close>)

lemma emplace_simps2 [simp]:
  "scope_of (compiler_emplace n cc) = scope_of cc" "cc_chsm (compiler_emplace n cc) = cc_chsm cc"
  "cc_source (compiler_emplace n cc) = cc_source cc"
  by (simp_all add: compiler_emplace_def emplace_def split: option.split)

lemma inner_emplace: "inner decl a (a \<lparr> fr_cc := compiler_emplace n (fr_cc a) \<rparr>)"
  by (rule innerI) (auto simp: base_ok_def inner_ok_def emplace_view)

lemma glob_fresh:
  assumes "G n = None" "as_state i = None" "as_kids i = None"
  shows "skel_of (G(n := Some i)) = skel_of G" "kids_of (G(n := Some i)) = kids_of G"
    "event_at (G(n := Some i)) = (event_at G)(n := as_any_event i)"
  using assms by (auto simp: skel_of_def kids_of_def event_at_def fun_eq_iff)

text \<open>A dummy for a state that is not declared yet.\<close>

lemma global_info_scope [simp]: "si_scope (global_info_ctor line i) = 1" "si_info (global_info_ctor line i) = i"
  by (simp_all add: global_info_ctor_def base_info_ctor_def SCOPE_GLOBAL_def)

lemma insert_new_simps [simp]:
  "cc_chsm (insert_new n k cc) = cc_chsm cc" "cc_source (insert_new n k cc) = cc_source cc"
  "scope_of (insert_new n k cc) = scope_of cc"
  by (simp_all add: insert_new_def update_sym_def)

lemma inner_dummy:
  assumes "info_of (deref (fr_cc a) n) = None" "known (fr_cc a) n"
  shows "inner decl a (a \<lparr> fr_cc := insert_new n (\<lambda>line. global_info_ctor line Global_info) (fr_cc a) \<rparr>)"
proof (rule innerI)
  fix M c assume b: "base_ok decl (fr_cc a) M c"
  then have g: "shape (fr_cc a)" by (simp add: base_ok_def)
  have n: "glob (fr_cc a) n = None"
    using front_info(1) [OF g] assms(1) by blast
  note v = insert_new_view(1) [OF g assms(2), where k = "\<lambda>line. global_info_ctor line Global_info" and i = Global_info]
  have "(event_at (glob (fr_cc a)))(n := None) = event_at (glob (fr_cc a))"
    using n by (auto simp: event_at_def fun_eq_iff)
  then show "inner_ok decl (fr_cc a) (fr_cc (a\<lparr>fr_cc := insert_new n (\<lambda>line. global_info_ctor line Global_info) (fr_cc a)\<rparr>)) M c"
    using v n b insert_new_view(3) [OF g assms(2)] glob_fresh [where G = "glob (fr_cc a)" and i = Global_info, OF n]
    by (auto simp: inner_ok_def base_ok_def)
qed simp_all

text \<open>Changes of the first info that touch none of what the invariant speaks of.\<close>

definition harmless :: "(info \<Rightarrow> info) \<Rightarrow> bool" where
  "harmless f \<longleftrightarrow> (\<forall>i. is_child_info (f i) = is_child_info i \<and>
     map_option state_skel (as_state (f i)) = map_option state_skel (as_state i) \<and>
     as_kids (f i) = as_kids i \<and> as_any_event (f i) = as_any_event i \<and>
     (\<forall>c. i = Chsm_info c \<longrightarrow> (\<exists>c'. f i = Chsm_info c' \<and> ch_root c' = ch_root c \<and> ch_states c' = ch_states c \<and>
        ch_events c' = ch_events c \<and> ch_transitions c' = ch_transitions c)))"

lemma set_info_simps [simp]:
  "cc_chsm (set_info n f cc) = cc_chsm cc" "cc_source (set_info n f cc) = cc_source cc"
  "scope_of (set_info n f cc) = scope_of cc"
  by (simp_all add: set_info_def update_sym_def)

lemma update_same:
  assumes "\<And>i. map_option state_skel (as_state (h i)) = map_option state_skel (as_state i)"
    "\<And>i. as_kids (h i) = as_kids i"
  shows "skel_of (G(n := map_option h (G n))) = skel_of G" "kids_of (G(n := map_option h (G n))) = kids_of G"
  using assms by (cases "G n"; auto simp: skel_of_def kids_of_def fun_eq_iff)+

lemma update_event:
  "event_at (G(n := map_option h (G n))) = (event_at G)(n := Option.bind (G n) (\<lambda>i. as_any_event (h i)))"
  by (cases "G n") (auto simp: event_at_def fun_eq_iff)

lemma inner_harmless:
  assumes "harmless f"
  shows "inner decl a (a \<lparr> fr_cc := set_info n f (fr_cc a) \<rparr>)"
proof (rule innerI)
  fix M c assume b: "base_ok decl (fr_cc a) M c"
  then have g: "shape (fr_cc a)" by (simp add: base_ok_def)
  let ?G = "glob (fr_cc a)" and ?G' = "glob (set_info n f (fr_cc a))"
  have f: "keeps_class f" using assms by (simp add: harmless_def keeps_class_def)
  note v = set_info_view [OF g f, of n]
  have h: "map_option state_skel (as_state (f i)) = map_option state_skel (as_state i)"
      "as_kids (f i) = as_kids i" "as_any_event (f i) = as_any_event i" for i
    using assms by (simp_all add: harmless_def)
  have "skel_of ?G' = skel_of ?G" "kids_of ?G' = kids_of ?G"
    by (simp_all add: v(3) update_same [OF h(1,2)])
  moreover have "event_at ?G' = event_at ?G"
    by (cases "?G n") (auto simp: v(3) update_event h(3) event_at_def fun_eq_iff)
  moreover obtain c' where "?G' M = Some (Chsm_info c')" "ch_root c' = ch_root c" "ch_states c' = ch_states c"
      "ch_events c' = ch_events c" "ch_transitions c' = ch_transitions c"
  proof (cases "kid_scopes (fr_cc a) n = [] \<and> n = M")
    case True
    obtain c' where "f (Chsm_info c) = Chsm_info c'" "ch_root c' = ch_root c" "ch_states c' = ch_states c"
        "ch_events c' = ch_events c" "ch_transitions c' = ch_transitions c"
      using assms unfolding harmless_def by blast
    moreover have "M = n" using True by simp
    then have "?G' M = map_option f (?G M)"
      using conjunct1 [OF True] by (simp add: v(3))
    moreover have "?G M = Some (Chsm_info c)" using b by (simp add: base_ok_def)
    ultimately show ?thesis
      using that [of c'] by simp
  next
    case False
    then show ?thesis
      using that [of c] b by (auto simp: v(3) base_ok_def)
  qed
  ultimately show "inner_ok decl (fr_cc a) (fr_cc (a\<lparr>fr_cc := set_info n f (fr_cc a)\<rparr>)) M c"
    using v b by (auto simp: inner_ok_def base_ok_def)
qed simp_all

lemma harmless_all [simp]:
  "harmless define_child" "harmless (add_param p)" "harmless (map_state (flag_action e))"
  "harmless (map_user_event (\<lambda>u. u \<lparr> ue_precondition := pr \<rparr>))"
  "harmless (map_chsm (\<lambda>c. c \<lparr> ch_action_id := k c \<rparr>))" "harmless (map_chsm (\<lambda>c. c \<lparr> ch_condition_id := k c \<rparr>))"
  "harmless (map_chsm (\<lambda>c. c \<lparr> ch_target_id := k c \<rparr>))"
  unfolding harmless_def
  subgoal by (rule allI, case_tac i) simp_all
  subgoal by (rule allI, case_tac i) simp_all
  subgoal by (rule allI, case_tac i) (simp_all add: flag_action_def state_skel_def)
  subgoal by (rule allI, case_tac i) simp_all
  subgoal by (rule allI, case_tac i) simp_all
  subgoal by (rule allI, case_tac i) simp_all
  subgoal by (rule allI, case_tac i) simp_all
  done

text \<open>The machine, when its symbol is not hidden by a child's.\<close>

lemma CHSM_front:
  assumes "shape cc" "CHSM cc = Some c"
  obtains M where "cc_chsm cc = Some M" "kid_scopes cc M = []" "glob cc M = Some (Chsm_info c)"
proof -
  obtain M where M: "cc_chsm cc = Some M" "INFO as_chsm cc (Some M) = Some c"
    using assms(2) by (cases "cc_chsm cc") (auto simp: CHSM_def INFO_def info_helper_def)
  have as: "i = Chsm_info c" if "as_chsm i = Some c" for i
    using that by (cases i) auto
  show ?thesis
    using INFO_front [OF assms(1) M(2)] as that [OF M(1)] by auto
qed

lemma update_CHSM_Inr:
  assumes "update_CHSM f a = Inr b"
  obtains M c where "cc_chsm (fr_cc a) = Some M" "CHSM (fr_cc a) = Some c"
    "b = a \<lparr> fr_cc := set_info M (map_chsm f) (fr_cc a) \<rparr>"
  using assms by (auto simp: update_CHSM_def split: option.splits)

lemma inner_update_CHSM:
  assumes "update_CHSM f a = Inr b" "harmless (map_chsm f)"
  shows "inner decl a b \<and> fr_stack b = fr_stack a"
  using assms inner_harmless by (elim update_CHSM_Inr) auto

text \<open>A new event joins the machine's events.\<close>

lemma event_ok_mono: "event_ok n eb k \<Longrightarrow> k \<le> k' \<Longrightarrow> event_ok n eb k'"
  by (fastforce simp: event_ok_def split: prod.splits)

lemma event_tableD:
  assumes "event_table_ok E evs k"
  shows "distinct evs" "E n = None \<longleftrightarrow> n \<notin> set evs" "E n = Some eb \<Longrightarrow> event_ok n eb k"
    "i < length evs \<Longrightarrow> E (evs ! i) = Some (e, Some (Some b)) \<Longrightarrow>
       b \<in> set (take i evs) \<and> (\<exists>e' b'. E b = Some (e', Some b'))"
    "E n = Some (e, c) \<Longrightarrow> E m = Some (e', c') \<Longrightarrow> n \<noteq> m \<Longrightarrow> set (ev_transition_ids e) \<inter> set (ev_transition_ids e') = {}"
  using assms unfolding event_table_ok_def by blast+

lemma event_tableI:
  assumes "distinct evs" "\<And>n. E n = None \<longleftrightarrow> n \<notin> set evs" "\<And>n eb. E n = Some eb \<Longrightarrow> event_ok n eb k"
    "\<And>i e b. i < length evs \<Longrightarrow> E (evs ! i) = Some (e, Some (Some b)) \<Longrightarrow>
       b \<in> set (take i evs) \<and> (\<exists>e' b'. E b = Some (e', Some b'))"
    "\<And>n e b m e' b'. E n = Some (e, b) \<Longrightarrow> E m = Some (e', b') \<Longrightarrow> n \<noteq> m \<Longrightarrow> set (ev_transition_ids e) \<inter> set (ev_transition_ids e') = {}"
  shows "event_table_ok E evs k"
  unfolding event_table_ok_def
proof (intro conjI)
  show "\<forall>n. (E n = None) = (n \<notin> set evs)" by (rule allI, rule assms(2))
  show "\<forall>n eb. E n = Some eb \<longrightarrow> event_ok n eb k" by (intro allI impI, rule assms(3))
  show "\<forall>i<length evs. \<forall>e b. E (evs ! i) = Some (e, Some (Some b)) \<longrightarrow>
      b \<in> set (take i evs) \<and> (\<exists>e' b'. E b = Some (e', Some b'))"
    by (intro allI impI, rule assms(4))
  show "\<forall>n e b m e' b'. E n = Some (e, b) \<longrightarrow> E m = Some (e', b') \<longrightarrow> n \<noteq> m \<longrightarrow> set (ev_transition_ids e) \<inter> set (ev_transition_ids e') = {}"
    by (intro allI impI, rule assms(5))
qed (rule assms(1))

lemma event_table_add:
  assumes "event_table_ok E evs k" "E n = None" "event_ok n (e, b) 0"
    "\<And>x. b = Some (Some x) \<Longrightarrow> \<exists>e' b'. E x = Some (e', Some b')"
  shows "event_table_ok (E(n := Some (e, b))) (evs @ [n]) k"
proof -
  note D = event_tableD [OF assms(1)]
  have n: "n \<notin> set evs" using D(2) assms(2) by blast
  have ok: "event_ok n (e, b) k" by (rule event_ok_mono [OF assms(3)]) simp
  have none: "ev_transition_ids e = []"
    using assms(3) by (cases "ev_transition_ids e") (auto simp: event_ok_def)
  show ?thesis
  proof (rule event_tableI)
    fix i e1 x assume i: "i < length (evs @ [n])" "(E(n := Some (e, b))) ((evs @ [n]) ! i) = Some (e1, Some (Some x))"
    show "x \<in> set (take i (evs @ [n])) \<and> (\<exists>e' b'. (E(n := Some (e, b))) x = Some (e', Some b'))"
    proof (cases "i < length evs")
      case True
      then have "evs ! i \<noteq> n" using n by auto
      then have "E (evs ! i) = Some (e1, Some (Some x))" using i True by (simp add: nth_append)
      from D(4) [OF True this] show ?thesis
        using assms(2) True by auto
    next
      case False
      then have l: "i = length evs" using i(1) by simp
      then have b: "b = Some (Some x)" using i(2) by simp
      from assms(4) [OF b] obtain e' b' where x: "E x = Some (e', Some b')" by blast
      then have "x \<in> set evs" using D(2) [of x] by simp
      then show ?thesis
        using l x assms(2) by auto
    qed
  next
    fix n1 e1 b1 n2 e2 b2
    assume "(E(n := Some (e, b))) n1 = Some (e1, b1)" "(E(n := Some (e, b))) n2 = Some (e2, b2)" "n1 \<noteq> n2"
    then show "set (ev_transition_ids e1) \<inter> set (ev_transition_ids e2) = {}"
      using D(5) [of n1 e1 b1 n2 e2 b2] none by (auto split: if_splits)
  qed (use D(1,2,3) n ok in \<open>auto split: if_splits\<close>)
qed

definition base_declared :: "compiler \<Rightarrow> info \<Rightarrow> bool" where
  "base_declared cc i \<longleftrightarrow> (\<forall>e b. as_any_event i = Some (e, Some (Some b)) \<longrightarrow>
     (\<exists>e' b'. event_at (glob cc) b = Some (e', Some b')))"

lemma inner_declare_event:
  assumes run: "declare_event_sym ev (\<lambda>line. global_info_ctor line i) a = Inr b"
    and fresh: "info_of (deref (fr_cc a) ev) = None" "known (fr_cc a) ev"
    and i: "as_any_event i = Some (e, bs)" "\<not> is_child_info i" "as_state i = None" "as_kids i = None" "event_ok ev (e, bs) 0"
    and base: "errors (fr_cc b) = 0 \<Longrightarrow> shape (fr_cc a) \<Longrightarrow> base_declared (fr_cc a) i"
  shows "inner decl a b \<and> fr_stack b = fr_stack a"
proof -
  let ?cc = "insert_new ev (\<lambda>line. global_info_ctor line i) (fr_cc a)"
  obtain M c where M: "cc_chsm ?cc = Some M" "CHSM ?cc = Some c"
      and b: "b = a \<lparr> fr_cc := set_info M (map_chsm (\<lambda>c. c \<lparr> ch_events := ch_events c @ [ev] \<rparr>)) ?cc \<rparr>"
    using run by (auto simp: declare_event_sym_def on_cc_def elim!: update_CHSM_Inr)
  have "inner decl a b"
  proof (rule innerI)
    fix M' c' assume e0: "errors (fr_cc b) = 0" and ok: "base_ok decl (fr_cc a) M' c'"
    then have g: "shape (fr_cc a)" and M': "M' = M" and c': "glob (fr_cc a) M = Some (Chsm_info c')"
      and et: "event_table_ok (event_at (glob (fr_cc a))) (ch_events c') (length (ch_transitions c'))"
      using M(1) by (auto simp: base_ok_def)
    have n: "glob (fr_cc a) ev = None"
      using front_info(1) [OF g] fresh(1) by blast
    have v: "shape ?cc" "glob ?cc = (glob (fr_cc a))(ev := Some i)" "kid_scopes ?cc = kid_scopes (fr_cc a)"
      using insert_new_view(1) [OF g fresh(2), where i = i] i n by auto
    have "kid_scopes ?cc M = []"
      by (rule CHSM_front [OF v(1) M(2)]) (use M(1) in simp)
    have "M \<noteq> ev" using c' n by auto
    have kc: "keeps_class (map_chsm f)" for f
      unfolding keeps_class_def by (rule allI, case_tac i) simp_all
    have "glob ?cc M = Some (Chsm_info c')"
      using c' \<open>M \<noteq> ev\<close> by (simp add: v(2))
    then have G: "glob (fr_cc b) = (glob (fr_cc a))(ev := Some i,
        M := Some (Chsm_info (c' \<lparr> ch_events := ch_events c' @ [ev] \<rparr>)))"
      using set_info_view(3) [OF v(1) kc] \<open>kid_scopes ?cc M = []\<close> by (simp add: b) (simp add: v(2))
    have "skel_of (glob (fr_cc b)) = skel_of (glob (fr_cc a))" "kids_of (glob (fr_cc b)) = kids_of (glob (fr_cc a))"
        "event_at (glob (fr_cc b)) = (event_at (glob (fr_cc a)))(ev := Some (e, bs))"
      using n c' i \<open>M \<noteq> ev\<close> by (auto simp: G skel_of_def kids_of_def event_at_def fun_eq_iff)
    moreover have "event_table_ok ((event_at (glob (fr_cc a)))(ev := Some (e, bs))) (ch_events c' @ [ev]) (length (ch_transitions c'))"
    proof (rule event_table_add [OF et])
      show "event_at (glob (fr_cc a)) ev = None" using n by (simp add: event_at_def)
      show "event_ok ev (e, bs) 0" by (rule i(5))
      show "\<exists>e' b'. event_at (glob (fr_cc a)) x = Some (e', Some b')" if "bs = Some (Some x)" for x
        using base [OF e0 g] that i(1) by (auto simp: base_declared_def)
    qed
    moreover have "shape (fr_cc b)" "kid_scopes (fr_cc b) = kid_scopes (fr_cc a)" "known (fr_cc b) = known (fr_cc a)"
      using set_info_view(1,2,4) [OF v(1) kc] v(3) insert_new_view(3) [OF g fresh(2)] by (simp_all add: b)
    moreover have "\<forall>t \<in> set (ch_transitions c'). ti_from t \<in> set decl"
      using ok by (simp add: base_ok_def)
    ultimately show "inner_ok decl (fr_cc a) (fr_cc b) M' c'"
      unfolding inner_ok_def M' G fun_upd_same by simp
  qed (use b in simp_all)
  then show ?thesis by (simp add: b)
qed

end
