(* ===== verification/Chsmc_Inner.thy ===== *)
theory Chsmc_Inner
  imports Chsmc_Invariant
begin

text \<open>
  The actions inside transition lists, one after the other: each keeps the invariant and
  leaves on the semantic stack what the comment before its production says.
\<close>

named_theorems act_Inr

section \<open>Running actions\<close>

lemma run_all_append: "run_all (as @ bs) fr = rbind (run_all as fr) (run_all bs)"
  by (induction as arbitrary: fr) (simp_all add: rbind_assoc)

lemma stack_push_Inr [act_Inr]:
  "stack_push v a = Inr b \<longleftrightarrow> length (fr_stack a) < sem_stack_size \<and> b = a \<lparr> fr_stack := v # fr_stack a \<rparr>"
  by (auto simp: stack_push_def)

lemma stack_pop_Inr [act_Inr]:
  "stack_pop k a = Inr b \<longleftrightarrow> (\<exists>v s. fr_stack a = v # s \<and> k v (a \<lparr> fr_stack := s \<rparr>) = Inr b)"
  by (auto simp: stack_pop_def split: list.split)

lemma stack_peek_Inr [act_Inr]:
  "stack_peek d k a = Inr b \<longleftrightarrow> d < length (fr_stack a) \<and> k (fr_stack a ! d) a = Inr b"
  by (simp add: stack_peek_def)

lemma as_value_Inr [act_Inr]:
  "as_int ki v a = Inr b \<longleftrightarrow> (\<exists>i. v = Sem_int i \<and> ki i a = Inr b)"
  "as_sym ks v a = Inr b \<longleftrightarrow> (\<exists>s. v = Sem_sym s \<and> ks s a = Inr b)"
  "as_string kt v a = Inr b \<longleftrightarrow> (\<exists>s. v = Sem_str s \<and> kt s a = Inr b)"
  "as_params ks v a = Inr b \<longleftrightarrow> (\<exists>s. v = Sem_params s \<and> ks s a = Inr b)"
  by (auto simp: as_int_def as_sym_def as_string_def as_params_def split: semantic.splits)

lemma the_sym_Inr [act_Inr]: "the_sym kn s a = Inr b \<longleftrightarrow> (\<exists>n. s = Some n \<and> kn n a = Inr b)"
  by (auto simp: the_sym_def split: option.splits)

lemma on_cc_Inr [act_Inr]: "on_cc f a = Inr b \<longleftrightarrow> b = a \<lparr> fr_cc := f (fr_cc a) \<rparr>"
  by (auto simp: on_cc_def)

lemma check_cc_Inr [act_Inr]:
  "check_cc f kb a = Inr b \<longleftrightarrow> (\<exists>ok cc. f (fr_cc a) = (ok, cc) \<and> kb ok (a \<lparr> fr_cc := cc \<rparr>) = Inr b)"
  by (auto simp: check_cc_def split: prod.splits)

lemma emit_user_Inr [act_Inr]:
  "emit_user f a = Inr b \<longleftrightarrow> (\<exists>is. f a = Inr is \<and> b = a \<lparr> fr_user := fr_user a @ is \<rparr>)"
  by (auto simp: emit_user_def)

lemma skip_Inr [act_Inr]: "skip a = Inr b \<longleftrightarrow> b = a"
  by (auto simp: skip_def)

lemma with_CHSM_Inr [act_Inr]: "with_CHSM kc a = Inr b \<longleftrightarrow> (\<exists>c. CHSM (fr_cc a) = Some c \<and> kc c a = Inr b)"
  by (auto simp: with_CHSM_def split: option.splits)

lemma lexer_states:
  "push_state s a = Inr b \<Longrightarrow> \<exists>l. b = a \<lparr> fr_lexer := l \<rparr>"
  "pop_state a = Inr b \<Longrightarrow> \<exists>l. b = a \<lparr> fr_lexer := l \<rparr>"
  by (auto simp: push_state_def pop_state_def Let_def split: list.splits if_splits)

text \<open>An inner action that leaves the stack alone.\<close>

definition neutral :: "sym list \<Rightarrow> act \<Rightarrow> bool" where
  "neutral decl f \<longleftrightarrow> (\<forall>a b. f a = Inr b \<longrightarrow> inner decl a b \<and> fr_stack b = fr_stack a)"

lemma neutral_run_all:
  "(\<And>f. f \<in> set fs \<Longrightarrow> neutral decl f) \<Longrightarrow> neutral decl (run_all fs)"
proof (induction fs)
  case Nil
  then show ?case by (auto simp: neutral_def)
next
  case (Cons f fs)
  have "neutral decl f" "neutral decl (run_all fs)" using Cons by simp_all
  then show ?case
    unfolding neutral_def run_all.simps rbind_Inr_iff using inner_trans by metis
qed

lemma neutralD: "neutral decl f \<Longrightarrow> f a = Inr b \<Longrightarrow> inner decl a b" "neutral decl f \<Longrightarrow> f a = Inr b \<Longrightarrow> fr_stack b = fr_stack a"
  by (simp_all add: neutral_def)

lemma neutral_lexer: "neutral decl (push_state s)" "neutral decl pop_state"
  using lexer_states by (force simp: neutral_def)+

lemma neutral_emit: "neutral decl (emit_user f)"
  by (auto simp: neutral_def act_Inr)

lemma neutral_skip: "neutral decl skip"
  by (simp add: neutral_def act_Inr)

lemma neutral_message:
  assumes "\<And>cc. cc_table (f cc) = cc_table cc" "\<And>cc. cc_chsm (f cc) = cc_chsm cc" "\<And>cc. errors cc \<le> errors (f cc)"
  shows "neutral decl (on_cc f)"
  using assms by (auto simp: neutral_def act_Inr intro!: inner_same_table)

lemma error_text_simps [simp]:
  "cc_table (error_text t cc) = cc_table cc" "cc_chsm (error_text t cc) = cc_chsm cc"
  "errors (error_text t cc) = errors cc + 1"
  by (simp_all add: error_text_def)

lemma neutral_harmless: "harmless f \<Longrightarrow> neutral decl (on_cc (set_info n f))"
  by (simp add: neutral_def act_Inr inner_harmless)

lemma neutral_update_CHSM: "harmless (map_chsm f) \<Longrightarrow> neutral decl (update_CHSM f)"
  by (simp add: neutral_def inner_update_CHSM)

lemma neutral_check:
  assumes "\<And>cc ok cc'. f cc = (ok, cc') \<Longrightarrow> cc_table cc' = cc_table cc \<and> cc_chsm cc' = cc_chsm cc \<and> errors cc \<le> errors cc'"
    "\<And>ok. neutral decl (k ok)"
  shows "neutral decl (check_cc f k)"
  unfolding neutral_def
proof (intro allI impI)
  fix a b assume "check_cc f k a = Inr b"
  then obtain ok cc where f: "f (fr_cc a) = (ok, cc)" "k ok (a \<lparr> fr_cc := cc \<rparr>) = Inr b"
    by (auto simp: act_Inr)
  have "inner decl a (a \<lparr> fr_cc := cc \<rparr>)"
    using assms(1) [OF f(1)] by (intro inner_same_table) simp_all
  then show "inner decl a b \<and> fr_stack b = fr_stack a"
    using neutralD [OF assms(2) f(2)] inner_trans by fastforce
qed

lemma type_check_keeps:
  assumes "type_check n types cond extra inn cc = (ok, cc')"
  shows "cc_table cc' = cc_table cc \<and> cc_chsm cc' = cc_chsm cc \<and> errors cc \<le> errors cc'"
  using assms by (auto simp: type_check_def Let_def split: if_splits)

lemma not_exists_keeps:
  assumes "not_exists n types cc = (ok, cc')"
  shows "cc_table cc' = cc_table cc \<and> cc_chsm cc' = cc_chsm cc \<and> errors cc \<le> errors cc'"
  using assms by (auto simp: not_exists_def Let_def split: if_splits)

section \<open>Names of states\<close>

lemma act_identifier_inner:
  assumes "act_identifier token a = Inr b"
  shows "inner decl a b \<and> fr_stack b = Sem_sym (Some token) # fr_stack a \<and> known (fr_cc b) token"
  using assms inner_emplace by (auto simp: act_identifier_def act_Inr emplace_view)

lemma referred_state_inner:
  assumes "referred_state dots ident k a = Inr b"
  shows "\<exists>name a'. k name a' = Inr b \<and> inner decl a a' \<and> fr_stack a' = fr_stack a"
proof -
  consider "\<exists>name. k name a = Inr b"
    | ok cc where "type_check ident T_STATE MUST_EXIST [] dots (fr_cc a) = (ok, cc)" "k ident (a \<lparr> fr_cc := cc \<rparr>) = Inr b"
    using assms by (auto simp: referred_state_def Let_def act_Inr split: if_splits option.splits)
  then show ?thesis
  proof cases
    case 2
    have "inner decl a (a \<lparr> fr_cc := cc \<rparr>)"
      using type_check_keeps [OF 2(1)] by (intro inner_same_table) simp_all
    with 2(2) show ?thesis by fastforce
  qed auto
qed

lemma reference_state_inner:
  assumes "reference_state name a = Inr b"
  shows "inner decl a b \<and> fr_stack b = Sem_sym (Some name) # fr_stack a"
proof -
  define a1 where "a1 = a \<lparr> fr_cc := compiler_emplace name (fr_cc a) \<rparr>"
  have 1: "inner decl a a1" "known (fr_cc a1) name"
    by (simp_all add: a1_def inner_emplace emplace_view)
  obtain a2 where a2: "(if info_of (deref (fr_cc a1) name) = None
       then on_cc (insert_new name (\<lambda>line. global_info_ctor line Global_info)) a1 else Inr a1) = Inr a2"
      and b: "b = a2 \<lparr> fr_stack := Sem_sym (Some name) # fr_stack a2 \<rparr>"
    using assms by (auto simp: reference_state_def act_Inr a1_def [symmetric] simp del: info_of_simps)
  have "inner decl a1 a2 \<and> fr_stack a2 = fr_stack a1"
    using a2 inner_dummy [OF _ 1(2)] by (auto simp: act_Inr simp del: info_of_simps split: if_splits)
  then show ?thesis
    using 1(1) inner_trans by (auto simp: b a1_def)
qed

lemma act_state_name_inner:
  assumes "act_state_name s a = Inr b"
  shows "inner decl a b \<and> (\<exists>n. fr_stack b = Sem_sym (Some n) # fr_stack a)"
proof -
  obtain a1 a2 where 1: "act_scope_resolver_opt (sr_scope s) a = Inr a1" and 2: "act_identifier (sr_ident s) a1 = Inr a2"
    and 3: "act_state_name_end (a2 \<lparr> fr_stack := Sem_str (Some (sr_substates s)) # fr_stack a2 \<rparr>) = Inr b"
    using assms by (auto simp: act_state_name_def act_Inr)
  have i1: "inner decl a a1 \<and> (\<exists>d. fr_stack a1 = Sem_int d # fr_stack a)"
    using 1 by (auto simp: act_scope_resolver_opt_def act_Inr Let_def intro!: inner_same_table
        split: scope_resolver.splits if_splits)
  have i2: "inner decl a1 a2" "fr_stack a2 = Sem_sym (Some (sr_ident s)) # fr_stack a1"
    using act_identifier_inner [OF 2] by simp_all
  obtain d where d: "fr_stack a1 = Sem_int d # fr_stack a" using i1 by blast
  have "referred_state d (sr_ident s) (\<lambda>name. reference_state (name @ sr_substates s)) (a2 \<lparr> fr_stack := fr_stack a \<rparr>) = Inr b"
    using 3 by (auto simp: act_state_name_end_def act_Inr i2(2) d text_or_empty_def)
  from referred_state_inner [OF this, of decl] obtain name a' where
    r: "reference_state (name @ sr_substates s) a' = Inr b" "inner decl a2 a'" "fr_stack a' = fr_stack a"
    by auto
  have "inner decl a b"
    using inner_trans [OF inner_trans [OF inner_trans [OF _ i2(1)] r(2)]] i1 reference_state_inner [OF r(1)] by blast
  then show ?thesis
    using reference_state_inner [OF r(1)] r(3) by simp
qed

section \<open>Names of events\<close>

lemma act_enex_event_end_inner:
  assumes "act_enex_event_end a = Inr b" "fr_stack a = Sem_sym s # Sem_str (Some (enex_prefix e)) # S"
  shows "inner decl a b \<and> (\<exists>ev. fr_stack b = Sem_sym (Some ev) # S)"
proof -
  obtain st m where m: "s = Some st" "mangle st = Some m"
    using assms by (auto simp: act_enex_event_end_def act_Inr split: option.splits)
  define name where "name = enex_prefix e @ m"
  define a1 where "a1 = a \<lparr> fr_stack := S, fr_cc := compiler_emplace name (fr_cc a) \<rparr>"
  let ?i = "Enex_event_info (event_info_ctor (if Some (enex_prefix e) = Some PREFIX_ENTER then KIND_ENTER else KIND_EXIT) (Some st))"
  have 1: "inner decl a a1" "known (fr_cc a1) name" "fr_stack a1 = S"
    using inner_emplace [of decl "a \<lparr> fr_stack := S \<rparr>" name] by (simp_all add: a1_def emplace_view)
  obtain a2 where a2: "(if info_of (deref (fr_cc a1) name) = None
        then declare_event_sym name (\<lambda>line. global_info_ctor line ?i) a1 else Inr a1) = Inr a2"
      and b: "b = a2 \<lparr> fr_stack := Sem_sym (Some name) # fr_stack a2 \<rparr>"
    using assms m unfolding a1_def name_def
    by (auto simp: act_enex_event_end_def act_Inr text_or_empty_def Let_def simp del: info_of_simps)
  have ok: "event_ok name (event_info_ctor (if Some (enex_prefix e) = Some PREFIX_ENTER then KIND_ENTER else KIND_EXIT) (Some st), None) 0"
    using m by (auto simp: event_ok_def event_info_ctor_def name_def enex_prefix_def PREFIX_ENTER_def PREFIX_EXIT_def)
  have "inner decl a1 a2 \<and> fr_stack a2 = fr_stack a1"
  proof (cases "info_of (deref (fr_cc a1) name) = None")
    case True
    show ?thesis
      by (rule inner_declare_event [OF _ True 1(2), where i = ?i])
        (use a2 True ok in \<open>auto simp: base_declared_def simp del: info_of_simps\<close>)
  qed (use a2 in auto)
  then show ?thesis
    using 1 inner_trans by (auto simp: b)
qed

lemma act_user_event_inner:
  assumes "act_user_event token a = Inr b"
  shows "inner decl a b \<and> fr_stack b = Sem_sym (Some token) # fr_stack a"
proof -
  obtain a1 where 1: "act_identifier token a = Inr a1" and e: "act_user_event_end a1 = Inr b"
    using assms by (auto simp: act_user_event_def act_Inr)
  have i1: "inner decl a a1" "fr_stack a1 = Sem_sym (Some token) # fr_stack a" "known (fr_cc a1) token"
    using act_identifier_inner [OF 1] by simp_all
  obtain ok cc where t: "type_check token T_USER_EVENT NO_INFO [] 0 (fr_cc a1) = (ok, cc)"
      and r: "(if ok then declare_event_sym token (\<lambda>line. global_info_ctor line (user_event_info_ctor None)) else skip)
        (a1 \<lparr> fr_cc := cc \<rparr>) = Inr b"
    using e i1(2) by (auto simp: act_user_event_end_def act_Inr)
  have i2: "inner decl a1 (a1 \<lparr> fr_cc := cc \<rparr>)" "known cc token"
    using type_check_keeps [OF t] i1(3) by (auto intro!: inner_same_table simp: known_def)
  have "inner decl (a1 \<lparr> fr_cc := cc \<rparr>) b \<and> fr_stack b = fr_stack a1"
  proof (cases ok)
    case True
    then have "ith_info 0 (deref cc token) = None"
      using type_check_result(1,2) [OF t] deref_cong [of "fr_cc a1" cc] by (auto split: option.splits)
    then have f: "info_of (deref cc token) = None" by (simp only: info_of_def)
    have "inner decl (a1 \<lparr> fr_cc := cc \<rparr>) b \<and> fr_stack b = fr_stack (a1 \<lparr> fr_cc := cc \<rparr>)"
      by (rule inner_declare_event [where i = "user_event_info_ctor None" and ev = token])
        (use r True f i2(2) in \<open>auto simp: user_event_info_ctor_def event_info_ctor_def event_ok_def base_declared_def
           simp del: info_of_simps\<close>)
    then show ?thesis by simp
  next
    case False
    then show ?thesis using r by (simp add: act_Inr)
  qed
  then show ?thesis
    using i1 i2(1) by (auto dest: inner_trans)
qed

lemma act_enter_or_exit_inner:
  "act_enter_or_exit e a = Inr b \<Longrightarrow> inner decl a b \<and> fr_stack b = Sem_str (Some (enex_prefix e)) # fr_stack a"
  by (auto simp: act_enter_or_exit_def act_Inr)

lemma act_event_name_inner:
  assumes "act_event_name ev a = Inr b"
  shows "inner decl a b \<and> (\<exists>n. fr_stack b = Sem_sym (Some n) # fr_stack a)"
proof (cases ev)
  case (User_event token)
  then show ?thesis using assms act_user_event_inner by auto
next
  case (Enter_exit e s)
  then obtain a1 a2 where 1: "act_enter_or_exit e a = Inr a1" "act_state_name s a1 = Inr a2" "act_enex_event_end a2 = Inr b"
    using assms by auto
  have i1: "inner decl a a1" "fr_stack a1 = Sem_str (Some (enex_prefix e)) # fr_stack a"
    using act_enter_or_exit_inner [OF 1(1)] by simp_all
  obtain n where i2: "inner decl a1 a2" "fr_stack a2 = Sem_sym (Some n) # fr_stack a1"
    using act_state_name_inner [OF 1(2)] by blast
  show ?thesis
    using act_enex_event_end_inner [OF 1(3) i2(2) [unfolded i1(2)]] i1(1) i2(1) by (auto dest: inner_trans)
qed

section \<open>User code\<close>

lemma act_embedded_neutral: "neutral decl (act_embedded e)"
  unfolding neutral_def
proof (intro allI impI)
  fix a b assume run: "act_embedded e a = Inr b"
  show "inner decl a b \<and> fr_stack b = fr_stack a"
  proof (cases e)
    case (Echo t)
    then show ?thesis using run by (simp add: emit_user_text_def act_Inr) auto
  next
    case (Param ev ident)
    then obtain a1 a2 where 1: "act_user_event ev a = Inr a1" "act_identifier ident a1 = Inr a2" "act_param_end a2 = Inr b"
      using run by auto
    then show ?thesis
      using act_user_event_inner [OF 1(1), of decl] act_identifier_inner [OF 1(2), of decl] inner_trans
      by (auto simp: act_param_end_def emit_user_text_def act_Inr)
  next
    case (State_name s)
    then obtain a1 where 1: "act_state_name s a = Inr a1" "act_state_name_embedded a1 = Inr b"
      using run by auto
    then show ?thesis
      using act_state_name_inner [OF 1(1), of decl] by (auto simp: act_state_name_embedded_def emit_user_text_def act_Inr)
  next
    case (Enter_exit_name k s)
    then obtain a1 a2 where 1: "act_enter_or_exit k a = Inr a1"
        "act_state_name s (a1 \<lparr> fr_stack := Sem_int Y_ENTER # fr_stack a1 \<rparr>) = Inr a2" "act_keyword_end a2 = Inr b"
      using run by (auto simp: act_Inr)
    have "inner decl a a2"
      using inner_trans [of decl a a1 a2] act_enter_or_exit_inner [OF 1(1)] act_state_name_inner [OF 1(2), of decl] by simp
    then show ?thesis
      using 1(3) act_enter_or_exit_inner [OF 1(1)] act_state_name_inner [OF 1(2), of decl]
      by (auto simp: act_keyword_end_def emit_user_text_def act_Inr split: option.splits)
  next
    case (In_state s)
    then obtain a1 where 1: "act_state_name s (a \<lparr> fr_stack := Sem_int Y_IN # fr_stack a \<rparr>) = Inr a1" "act_keyword_end a1 = Inr b"
      using run by (auto simp: act_Inr)
    then show ?thesis
      using act_state_name_inner [OF 1(1), of decl]
      by (auto simp: act_keyword_end_def emit_user_text_def act_Inr Y_IN_def Y_ENTER_def)
  qed
qed

lemma act_code_neutral: "neutral decl (act_code body)"
  unfolding act_code_def by (rule neutral_run_all) (auto intro: act_embedded_neutral)

text \<open>The number of a new block ends up on the stack.\<close>

lemma numbered_block_inner:
  assumes "run_all [update_CHSM f, emit_user g, with_CHSM (\<lambda>c. PUSH_INT (k c)), act_code body, emit_user h] a = Inr b"
    "harmless (map_chsm f)"
  shows "inner decl a b \<and> (\<exists>i. fr_stack b = Sem_int i # fr_stack a)"
proof -
  obtain a1 a2 c a3 where 1: "update_CHSM f a = Inr a1" "emit_user g a1 = Inr a2"
      "act_code body (a2 \<lparr> fr_stack := Sem_int (k c) # fr_stack a2 \<rparr>) = Inr a3" "emit_user h a3 = Inr b"
    using assms(1) by (auto simp: with_CHSM_Inr stack_push_Inr)
  have "inner decl a a1" "fr_stack a1 = fr_stack a"
    using neutralD [OF neutral_update_CHSM [OF assms(2)] 1(1)] by simp_all
  moreover have "inner decl a1 a2" "fr_stack a2 = fr_stack a1"
    using neutralD [OF neutral_emit 1(2)] by simp_all
  moreover have "inner decl a2 a3" "fr_stack a3 = Sem_int (k c) # fr_stack a2"
    using neutralD [OF act_code_neutral 1(3)] by simp_all
  moreover have "inner decl a3 b" "fr_stack b = fr_stack a3"
    using neutralD [OF neutral_emit 1(4)] by simp_all
  ultimately show ?thesis
    using inner_trans by metis
qed

lemma act_action_block_inner:
  "act_action_block body a = Inr b \<Longrightarrow> inner decl a b \<and> (\<exists>i. fr_stack b = Sem_int i # fr_stack a)"
  unfolding act_action_block_def by (rule numbered_block_inner [OF _ harmless_all(5)])

lemma act_action_block_opt_inner:
  "act_action_block_opt act a = Inr b \<Longrightarrow> inner decl a b \<and> (\<exists>i. fr_stack b = Sem_int i # fr_stack a)"
  by (cases act) (auto simp: act_action_block_opt_def act_Inr dest: act_action_block_inner)

lemma act_event_condition_opt_inner:
  assumes "act_event_condition_opt cond a = Inr b"
  shows "inner decl a b \<and> (\<exists>i. fr_stack b = Sem_int i # fr_stack a)"
proof (cases cond)
  case None
  then show ?thesis using assms by (auto simp: act_event_condition_opt_def act_Inr)
next
  case (Some body)
  show ?thesis
    using assms unfolding act_event_condition_opt_def Some option.case
    by (rule numbered_block_inner [OF _ harmless_all(6)])
qed

section \<open>Transitions\<close>

lemma act_event_condition_spec_inner:
  assumes "act_event_condition_spec ec a = Inr b" "fr_stack a = Sem_int n # S"
  shows "inner decl a b \<and> (\<exists>v w. fr_stack b = Sem_int (n + 1) # v # w # S)"
proof -
  obtain a1 a2 a3 where 1: "act_event_name (fst ec) a = Inr a1" "push_state STATE_MAYBE_CEXPR a1 = Inr a2"
      "act_event_condition_opt (snd ec) a2 = Inr a3" "act_event_condition_end a3 = Inr b"
    using assms(1) by (auto simp: act_event_condition_spec_def)
  obtain ev where 2: "inner decl a a1" "fr_stack a1 = Sem_sym (Some ev) # fr_stack a"
    using act_event_name_inner [OF 1(1)] by blast
  have 3: "inner decl a1 a2" "fr_stack a2 = fr_stack a1"
    using neutralD [OF neutral_lexer(1) 1(2)] by simp_all
  obtain c where 4: "inner decl a2 a3" "fr_stack a3 = Sem_int c # fr_stack a2"
    using act_event_condition_opt_inner [OF 1(3)] by blast
  obtain a4 where 5: "pop_state a3 = Inr a4" using 1(4) by (auto simp: act_event_condition_end_def)
  have 6: "inner decl a3 a4" "fr_stack a4 = Sem_int c # Sem_sym (Some ev) # Sem_int n # S"
    using neutralD [OF neutral_lexer(2) 5] 4 3 2 assms(2) by simp_all
  have "inner decl a a4" using 2 3 4 6 inner_trans by metis
  then show ?thesis
    using 1(4) 5 6(2) by (auto simp: act_event_condition_end_def act_Inr)
qed

lemma event_conditions_inner:
  assumes "run_all (map act_event_condition_spec ecs) a = Inr b" "fr_stack a = Sem_int n # S"
  shows "inner decl a b \<and> (\<exists>vs. length vs = 2 * length ecs \<and> fr_stack b = Sem_int (n + length ecs) # vs @ S)"
  using assms
proof (induction ecs arbitrary: a n S)
  case (Cons ec ecs)
  then obtain a1 where 1: "act_event_condition_spec ec a = Inr a1" "run_all (map act_event_condition_spec ecs) a1 = Inr b"
    by auto
  obtain v w where 2: "inner decl a a1" "fr_stack a1 = Sem_int (n + 1) # v # w # S"
    using act_event_condition_spec_inner [OF 1(1) Cons.prems(2)] by blast
  obtain vs where 3: "inner decl a1 b" "length vs = 2 * length ecs" "fr_stack b = Sem_int (n + 1 + length ecs) # vs @ v # w # S"
    using Cons.IH [OF 1(2) 2(2)] by blast
  show ?case
    using inner_trans [OF 2(1) 3(1)] 3(2,3) by (intro conjI exI [of _ "vs @ [v, w]"]) simp_all
qed auto

lemma act_transition_target_inner:
  assumes "act_transition_target t a = Inr b"
  shows "inner decl a b \<and> (\<exists>i to. fr_stack b = Sem_int i # Sem_sym to # fr_stack a)"
proof (cases t)
  case (To_state s)
  then show ?thesis
    using assms act_state_name_inner [of s a] by (fastforce simp: act_Inr)
next
  case (To_expr body)
  then obtain a1 a2 a3 and c :: chsm_info where 1: "update_CHSM (\<lambda>c. c \<lparr> ch_target_id := ch_target_id c + 1 \<rparr>) a = Inr a1"
      "emit_user (\<lambda>fr. gen_transition_target_begin (fr_lang fr) (fr_config fr) (fr_cc fr)) a1 = Inr a2"
      "act_code body (a2 \<lparr> fr_stack := Sem_int (ch_target_id c) # Sem_sym None # fr_stack a2 \<rparr>) = Inr a3"
      "emit_user (\<lambda>fr. gen_transition_target_end (fr_lang fr)) a3 = Inr b"
    using assms by (auto simp: with_CHSM_Inr stack_push_Inr)
  have "inner decl a a1" "fr_stack a1 = fr_stack a"
    using neutralD [OF neutral_update_CHSM [OF harmless_all(7)] 1(1)] by simp_all
  moreover have "inner decl a1 a2" "fr_stack a2 = fr_stack a1"
    using neutralD [OF neutral_emit 1(2)] by simp_all
  moreover have "inner decl a2 a3" "fr_stack a3 = Sem_int (ch_target_id c) # Sem_sym None # fr_stack a2"
    using neutralD [OF act_code_neutral 1(3)] by simp_all
  moreover have "inner decl a3 b" "fr_stack b = fr_stack a3"
    using neutralD [OF neutral_emit 1(4)] by simp_all
  ultimately show ?thesis
    using inner_trans by metis
qed

lemma act_transition_type_inner:
  assumes "act_transition_type t a = Inr b"
  shows "inner decl a b \<and> (\<exists>i j to. fr_stack b = Sem_int i # Sem_int j # Sem_sym to # fr_stack a)"
proof (cases t)
  case (Goto t' action)
  then obtain a1 a2 a3 where 1: "push_state STATE_MAYBE_CEXPR a = Inr a1" "act_transition_target t' a1 = Inr a2"
      "pop_state a2 = Inr a3" "act_action_block_opt action a3 = Inr b"
    using assms by auto
  have "inner decl a a1" "fr_stack a1 = fr_stack a"
    using neutralD [OF neutral_lexer(1) 1(1)] by simp_all
  moreover obtain j to where "inner decl a1 a2" "fr_stack a2 = Sem_int j # Sem_sym to # fr_stack a1"
    using act_transition_target_inner [OF 1(2)] by blast
  moreover have "inner decl a2 a3" "fr_stack a3 = fr_stack a2"
    using neutralD [OF neutral_lexer(2) 1(3)] by simp_all
  moreover obtain i where "inner decl a3 b" "fr_stack b = Sem_int i # fr_stack a3"
    using act_action_block_opt_inner [OF 1(4)] by blast
  ultimately show ?thesis
    using inner_trans by metis
next
  case (Internal body)
  then obtain a1 where 1: "act_action_block body a = Inr a1"
      "POP_INT (\<lambda>i. run_all [PUSH_SYMBOL None, PUSH_INT 0, PUSH_INT i]) a1 = Inr b"
    using assms by auto
  then show ?thesis
    using act_action_block_inner [OF 1(1), of decl] by (auto simp: act_Inr)
qed

lemma event_table_mono:
  assumes "event_table_ok E evs k" "k \<le> k'"
  shows "event_table_ok E evs k'"
proof (rule event_tableI)
  note D = event_tableD [OF assms(1)]
  show "distinct evs" by (rule D(1))
  show "E n = None \<longleftrightarrow> n \<notin> set evs" for n by (rule D(2))
  show "event_ok n eb k'" if "E n = Some eb" for n eb by (rule event_ok_mono [OF D(3) [OF that] assms(2)])
  show "b \<in> set (take i evs) \<and> (\<exists>e' b'. E b = Some (e', Some b'))"
    if "i < length evs" "E (evs ! i) = Some (e, Some (Some b))" for i e b by (rule D(4) [OF that])
  show "set (ev_transition_ids e) \<inter> set (ev_transition_ids e') = {}"
    if "E n = Some (e, b)" "E m = Some (e', b')" "n \<noteq> m" for n e b m e' b' by (rule D(5) [OF that])
qed

text \<open>A transition is appended and its event notes its index.\<close>

lemma event_table_note:
  assumes "event_table_ok E evs k" "E ev = Some (e, b)"
  shows "event_table_ok (E(ev := Some (e \<lparr> ev_transition_ids := ev_transition_ids e @ [int k] \<rparr>, b))) evs (Suc k)"
proof -
  note D = event_tableD [OF assms(1)]
  show ?thesis
  proof (rule event_tableI)
    fix n eb assume eb: "(E(ev := Some (e \<lparr> ev_transition_ids := ev_transition_ids e @ [int k] \<rparr>, b))) n = Some eb"
    show "event_ok n eb (Suc k)"
    proof (cases "n = ev")
      case True
      then show ?thesis using eb D(3) [OF assms(2)] by (fastforce simp: event_ok_def)
    next
      case False
      then show ?thesis using eb D(3) [of n eb] event_ok_mono [of n eb k "Suc k"] by simp
    qed
  next
    fix i e1 x assume i: "i < length evs"
      "(E(ev := Some (e \<lparr> ev_transition_ids := ev_transition_ids e @ [int k] \<rparr>, b))) (evs ! i) = Some (e1, Some (Some x))"
    then obtain e2 where "E (evs ! i) = Some (e2, Some (Some x))"
      using assms(2) by (cases "evs ! i = ev") auto
    from D(4) [OF i(1) this] obtain e' b' where x: "x \<in> set (take i evs)" "E x = Some (e', Some b')" by blast
    then show "x \<in> set (take i evs) \<and>
        (\<exists>e' b'. (E(ev := Some (e \<lparr> ev_transition_ids := ev_transition_ids e @ [int k] \<rparr>, b))) x = Some (e', Some b'))"
      using assms(2) by (cases "x = ev") auto
  next
    show "(E(ev := Some (e \<lparr> ev_transition_ids := ev_transition_ids e @ [int k] \<rparr>, b))) n = None \<longleftrightarrow> n \<notin> set evs" for n
      using D(2) [of n] D(2) [of ev] assms(2) by auto
  next
    fix n1 e1 b1 n2 e2 b2
    assume n: "(E(ev := Some (e \<lparr> ev_transition_ids := ev_transition_ids e @ [int k] \<rparr>, b))) n1 = Some (e1, b1)"
      "(E(ev := Some (e \<lparr> ev_transition_ids := ev_transition_ids e @ [int k] \<rparr>, b))) n2 = Some (e2, b2)" "n1 \<noteq> n2"
    have fresh: "int k \<notin> set (ev_transition_ids e')" if "E m = Some (e', b')" for m e' b'
      using D(3) [OF that] by (auto simp: event_ok_def)
    show "set (ev_transition_ids e1) \<inter> set (ev_transition_ids e2) = {}"
    proof (cases "n1 = ev \<or> n2 = ev")
      case True
      then show ?thesis
        using n D(5) [OF assms(2), of n2 e2 b2] D(5) [OF assms(2), of n1 e1 b1] fresh [of n1 e1 b1] fresh [of n2 e2 b2]
        by (auto split: if_splits)
    next
      case False
      then show ?thesis using n D(5) [of n1 e1 b1 n2 e2 b2] by simp
    qed
  qed (rule D(1))
qed

lemma as_event_any: "as_any_event i = Some (e, b) \<Longrightarrow> as_event i = Some e" "as_event i = Some e \<Longrightarrow> \<exists>b. as_any_event i = Some (e, b)"
  by (cases i; simp)+

lemma add_transition_inner:
  assumes run: "update_CHSM (\<lambda>c. c \<lparr> ch_transitions := ch_transitions c @ [t] \<rparr>) a = Inr a1" "use_event ev (a1 \<lparr> fr_stack := S \<rparr>) = Inr b"
    and t: "ti_from t \<in> set decl"
  shows "inner decl a b \<and> fr_stack b = S"
proof -
  let ?f = "\<lambda>c. c \<lparr> ch_transitions := ch_transitions c @ [t] \<rparr>"
  obtain M c where M: "cc_chsm (fr_cc a) = Some M" "CHSM (fr_cc a) = Some c"
      and a1: "a1 = a \<lparr> fr_cc := set_info M (map_chsm ?f) (fr_cc a) \<rparr>"
    using run(1) by (rule update_CHSM_Inr)
  obtain c1 where c1: "CHSM (fr_cc a1) = Some c1"
      and b: "b = a1 \<lparr> fr_stack := S \<rparr> \<or> INFO as_event (fr_cc a1) (Some ev) \<noteq> None \<and>
        b = a1 \<lparr> fr_stack := S, fr_cc := note_transition ev c1 (fr_cc a1) \<rparr>"
    using run(2) by (auto simp: use_event_def act_Inr split: if_splits)
  have simps: "cc_chsm (note_transition ev c cc) = cc_chsm cc" "cc_source (note_transition ev c cc) = cc_source cc"
      "scope_of (note_transition ev c cc) = scope_of cc" for c cc
    by (simp_all add: note_transition_def update_sym_def)
  have kc: "keeps_class (map_chsm f)" for f
    unfolding keeps_class_def by (rule allI, case_tac i) simp_all
  have "inner decl a b"
  proof (rule innerI)
    fix M' c' assume ok: "base_ok decl (fr_cc a) M' c'"
    then have g: "shape (fr_cc a)" and M': "M' = M" and c': "glob (fr_cc a) M = Some (Chsm_info c')"
      and et: "event_table_ok (event_at (glob (fr_cc a))) (ch_events c') (length (ch_transitions c'))"
      and trs: "\<forall>t \<in> set (ch_transitions c'). ti_from t \<in> set decl"
      using M(1) by (auto simp: base_ok_def)
    have "kid_scopes (fr_cc a) M = []"
      by (rule CHSM_front [OF g M(2)]) (use M(1) in simp)
    then have v: "shape (fr_cc a1)" "kid_scopes (fr_cc a1) = kid_scopes (fr_cc a)" "known (fr_cc a1) = known (fr_cc a)"
        "glob (fr_cc a1) = (glob (fr_cc a))(M := Some (Chsm_info (?f c')))"
      using set_info_view [OF g kc, of M ?f] c' by (simp_all add: a1)
    have same: "skel_of (glob (fr_cc a1)) = skel_of (glob (fr_cc a))" "kids_of (glob (fr_cc a1)) = kids_of (glob (fr_cc a))"
        "event_at (glob (fr_cc a1)) = event_at (glob (fr_cc a))"
      using c' by (auto simp: v(4) skel_of_def kids_of_def event_at_def fun_eq_iff)
    have c1': "c1 = ?f c'"
    proof (rule CHSM_front [OF v(1) c1])
      fix M1 assume "cc_chsm (fr_cc a1) = Some M1" "glob (fr_cc a1) M1 = Some (Chsm_info c1)"
      then show ?thesis using M(1) by (simp add: v(4)) (simp add: a1)
    qed
    from b show "inner_ok decl (fr_cc a) (fr_cc b) M' c'"
    proof
      assume "b = a1 \<lparr> fr_stack := S \<rparr>"
      then show ?thesis
        using v same event_table_mono [OF et] t trs by (auto simp: inner_ok_def M')
    next
      assume n: "INFO as_event (fr_cc a1) (Some ev) \<noteq> None \<and> b = a1 \<lparr> fr_stack := S, fr_cc := note_transition ev c1 (fr_cc a1) \<rparr>"
      then obtain e where "INFO as_event (fr_cc a1) (Some ev) = Some e" by auto
      from INFO_front [OF v(1) this] obtain i where i: "kid_scopes (fr_cc a1) ev = []" "glob (fr_cc a1) ev = Some i" "as_event i = Some e"
        by auto
      obtain bs where bs: "as_any_event i = Some (e, bs)" using as_event_any(2) [OF i(3)] by blast
      let ?k = "length (ch_transitions c')"
      define h where "h = map_event (\<lambda>e. e \<lparr> ev_transition_ids := ev_transition_ids e @ [int ?k] \<rparr>)"
      have nt: "fr_cc b = update_first ev (\<lambda>si. si \<lparr> si_used := True, si_info := h (si_info si) \<rparr>) (fr_cc a1)"
        using n by (simp add: note_transition_def update_first_def c1' h_def)
      have ch: "is_child_info (h j) = is_child_info j" for j by (cases j) (simp_all add: h_def)
      have w: "shape (fr_cc b)" "kid_scopes (fr_cc b) = kid_scopes (fr_cc a1)"
        "glob (fr_cc b) = (if kid_scopes (fr_cc a1) ev = [] then (glob (fr_cc a1))(ev := map_option h (glob (fr_cc a1) ev))
          else glob (fr_cc a1))" "known (fr_cc b) = known (fr_cc a1)"
        unfolding nt by (rule update_first_view [OF v(1)]; simp add: ch)+
      have G: "glob (fr_cc b) = (glob (fr_cc a1))(ev := map_option h (glob (fr_cc a1) ev))"
        using w(3) i(1) by simp
      have st: "map_option state_skel (as_state (h j)) = map_option state_skel (as_state j)" "as_kids (h j) = as_kids j" for j
        by (cases j; simp add: h_def)+
      have "ev \<noteq> M" using i(2,3) by (auto simp: v(4))
      have hi: "as_any_event (h i) = Some (e \<lparr> ev_transition_ids := ev_transition_ids e @ [int ?k] \<rparr>, bs)"
        using bs by (cases i) (auto simp: h_def)
      have "event_at (glob (fr_cc b)) = (event_at (glob (fr_cc a)))(ev := Some (e \<lparr> ev_transition_ids := ev_transition_ids e @ [int ?k] \<rparr>, bs))"
        unfolding G update_event same(3) using hi by (simp add: i(2))
      moreover have "event_at (glob (fr_cc a)) ev = Some (e, bs)"
        using i(2) bs by (simp add: same(3) [symmetric] event_at_def)
      ultimately have "event_table_ok (event_at (glob (fr_cc b))) (ch_events c') (Suc ?k)"
        using event_table_note [OF et] by simp
      moreover have "glob (fr_cc b) M = Some (Chsm_info (?f c'))"
        using \<open>ev \<noteq> M\<close> by (simp add: G v(4))
      moreover have "skel_of (glob (fr_cc b)) = skel_of (glob (fr_cc a))" "kids_of (glob (fr_cc b)) = kids_of (glob (fr_cc a))"
        unfolding G by (simp_all add: update_same [OF st] same)
      ultimately show ?thesis
        using w(1,2,4) v(2,3) t trs by (auto simp: inner_ok_def M')
    qed
  qed (use b a1 simps in auto)
  then show ?thesis using b by auto
qed

lemma transition_loop_inner:
  assumes "transition_loop n from to target_id action_id a = Inr b" "from \<in> set decl"
  shows "inner decl a b \<and> fr_stack b = drop (2 * n) (fr_stack a)"
  using assms(1)
proof (induction n arbitrary: a)
  case (Suc n)
  then obtain cid S a2 where s: "fr_stack a = Sem_int cid # S"
      and 1: "run_all [\<lambda>fr. update_CHSM (\<lambda>c. c \<lparr> ch_transitions := ch_transitions c @ [transition_info_ctor
          (sf_line_no (cc_source (fr_cc fr))) cid from to target_id action_id] \<rparr>) fr,
        POP_SYMBOL (the_sym use_event)] (a \<lparr> fr_stack := S \<rparr>) = Inr a2"
      and 2: "transition_loop n from to target_id action_id a2 = Inr b"
    by (auto simp: stack_pop_Inr as_value_Inr)
  obtain a1 ev S' where 3: "update_CHSM (\<lambda>c. c \<lparr> ch_transitions := ch_transitions c @ [transition_info_ctor
          (sf_line_no (cc_source (fr_cc a))) cid from to target_id action_id] \<rparr>) (a \<lparr> fr_stack := S \<rparr>) = Inr a1"
      "fr_stack a1 = Sem_sym (Some ev) # S'" "use_event ev (a1 \<lparr> fr_stack := S' \<rparr>) = Inr a2"
    using 1 by (auto simp: stack_pop_Inr as_value_Inr the_sym_Inr)
  have "inner decl a a2 \<and> fr_stack a2 = S'"
    using add_transition_inner [OF 3(1,3)] assms(2) by (simp add: transition_info_ctor_def)
  moreover have "S = Sem_sym (Some ev) # S'"
    using 3(1,2) by (auto elim: update_CHSM_Inr)
  ultimately show ?case
    using Suc.IH [OF 2] s inner_trans by auto
qed (auto simp: act_Inr)

lemma act_transition_neutral:
  assumes "act_transition t a = Inr b" "fr_stack a = Sem_sym (Some s) # S" "s \<in> set decl"
  shows "inner decl a b \<and> fr_stack b = fr_stack a"
proof (cases t)
  case (Transition_descr ecs tt)
  let ?a = "a \<lparr> fr_stack := Sem_int 0 # fr_stack a \<rparr>"
  obtain a1 a2 where 1: "run_all (map act_event_condition_spec ecs) ?a = Inr a1" "act_transition_type tt a1 = Inr a2"
      "act_transition_end a2 = Inr b"
    using assms(1) by (auto simp: Transition_descr run_all_append stack_push_Inr)
  have st: "fr_stack ?a = Sem_int 0 # Sem_sym (Some s) # S" using assms(2) by simp
  obtain vs where 2: "inner decl ?a a1" "length vs = 2 * length ecs"
      "fr_stack a1 = Sem_int (length ecs) # vs @ Sem_sym (Some s) # S"
    using event_conditions_inner [OF 1(1) st, of decl] by auto
  obtain i j to where 3: "inner decl a1 a2" "fr_stack a2 = Sem_int i # Sem_int j # Sem_sym to # fr_stack a1"
    using act_transition_type_inner [OF 1(2)] by blast
  have "transition_loop (length ecs) s to j i (a2 \<lparr> fr_stack := vs @ Sem_sym (Some s) # S \<rparr>) = Inr b"
    using 1(3) by (auto simp: act_transition_end_def act_Inr 3(2) 2(3) nth_append 2(2))
  from transition_loop_inner [OF this assms(3)] have "inner decl a2 b" "fr_stack b = Sem_sym (Some s) # S"
    by (simp_all add: 2(2))
  then show ?thesis
    using 2(1) 3(1) inner_trans assms(2) by (metis inner_upd(2))
qed

section \<open>Enter and exit actions, lists\<close>

lemma act_upon_inner:
  assumes "act_upon a = Inr b" "fr_stack a = Sem_str k # Sem_sym (Some s) # S"
  shows "inner decl a b \<and> fr_stack b = Sem_sym (Some s) # S"
proof -
  let ?a = "a \<lparr> fr_stack := Sem_sym (Some s) # S \<rparr>"
  obtain f where f: "f ?a = Inr b" "f = run_all [emit_user (\<lambda>fr. gen_enter_exit_begin (fr_lang fr) (fr_config fr) (fr_cc fr) (text_or_empty k) s),
        on_cc (set_info s (map_state (flag_action (k = Some PREFIX_ENTER))))]
      \<or> (\<exists>t. f = on_cc (error_text t))"
    using assms by (auto simp: act_upon_def stack_pop_Inr stack_peek_Inr as_value_Inr the_sym_Inr Let_def
        simp del: run_all.simps split: option.splits if_splits)
  have "neutral decl (run_all [emit_user g, on_cc (set_info s (map_state (flag_action e)))])" for g e
    by (rule neutral_run_all) (auto simp: neutral_emit neutral_harmless)
  moreover have "neutral decl (on_cc (error_text t))" for t
    by (rule neutral_message) simp_all
  ultimately have "neutral decl f" using f(2) by blast
  then have "inner decl ?a b \<and> fr_stack b = fr_stack ?a"
    using f(1) unfolding neutral_def by blast
  then show ?thesis by simp
qed

lemma act_enter_exit_action_inner:
  assumes "act_enter_exit_action ea a = Inr b" "fr_stack a = Sem_sym (Some s) # S"
  shows "inner decl a b \<and> fr_stack b = fr_stack a"
proof -
  obtain a1 a2 a3 where 1: "act_enter_or_exit (fst ea) a = Inr a1" "act_upon a1 = Inr a2" "act_code (snd ea) a2 = Inr a3"
      "emit_user (\<lambda>fr. gen_enter_exit_end (fr_lang fr)) a3 = Inr b"
    using assms(1) by (auto simp: act_enter_exit_action_def)
  have 2: "inner decl a a1" "fr_stack a1 = Sem_str (Some (enex_prefix (fst ea))) # Sem_sym (Some s) # S"
    using act_enter_or_exit_inner [OF 1(1)] assms(2) by simp_all
  have 3: "inner decl a1 a2" "fr_stack a2 = Sem_sym (Some s) # S"
    using act_upon_inner [OF 1(2) 2(2)] by simp_all
  show ?thesis
    using 2(1) 3 neutralD [OF act_code_neutral 1(3)] neutralD [OF neutral_emit 1(4)] inner_trans assms(2) by metis
qed

text \<open>A list of actions that need the symbol of the state on top of the stack.\<close>

lemma run_all_on_state:
  assumes "run_all fs a = Inr b" "fr_stack a = Sem_sym (Some s) # S"
    "\<And>f a b. f \<in> set fs \<Longrightarrow> f a = Inr b \<Longrightarrow> fr_stack a = Sem_sym (Some s) # S \<Longrightarrow> inner decl a b \<and> fr_stack b = fr_stack a"
  shows "inner decl a b \<and> fr_stack b = fr_stack a"
  using assms
proof (induction fs arbitrary: a)
  case (Cons f fs)
  then obtain a1 where 1: "f a = Inr a1" "run_all fs a1 = Inr b" by auto
  have 2: "inner decl a a1" "fr_stack a1 = fr_stack a"
    using Cons.prems(3) [of f a a1] 1(1) Cons.prems(2) by simp_all
  have "inner decl a1 b \<and> fr_stack b = fr_stack a1"
    by (rule Cons.IH [OF 1(2)]) (use Cons.prems 2 in auto)
  then show ?case using 2 inner_trans by metis
qed auto

lemma act_transition_spec_opt_inner:
  assumes "act_transition_spec_opt spec a = Inr b" "fr_stack a = Sem_sym (Some s) # S" "s \<in> set decl"
  shows "inner decl a b \<and> fr_stack b = fr_stack a"
proof (cases spec)
  case None
  then show ?thesis using assms by (simp add: act_transition_spec_opt_def act_Inr)
next
  case (Some sp)
  obtain as ts where sp: "sp = Transition_spec as ts" by (cases sp)
  show ?thesis
  proof (rule run_all_on_state [OF _ assms(2)])
    show "run_all (map act_enter_exit_action as @ map act_transition ts) a = Inr b"
      using assms(1) by (simp add: act_transition_spec_opt_def Some sp)
  qed (use act_enter_exit_action_inner act_transition_neutral assms(3) in auto)
qed

end
