(* ===== verification/Chsmc_Declare.thy ===== *)
theory Chsmc_Declare
  imports Chsmc_Inner
begin

text \<open>
  Descriptions keep the invariant: a state is enrolled, its children are noted, it gets its
  info and its serial number, its transitions are read and its body is translated with it as
  the parent.  Between descriptions the symbol table holds the children's infos it held before.
\<close>

section \<open>Between descriptions\<close>

definition name_ok :: "string \<Rightarrow> bool" where
  "name_ok n \<longleftrightarrow> n = [] \<or> hd n \<noteq> CHR ''<''"

definition settled :: "sym \<Rightarrow> front \<Rightarrow> bool" where
  "settled p a \<longleftrightarrow> kid_scopes (fr_cc a) p = [] \<and> kids_bounded (scope_of (fr_cc a)) (fr_cc a) \<and>
     1 \<le> scope_of (fr_cc a) \<and> name_ok p \<and> fr_parent a = Some p"

definition same_scopes :: "front \<Rightarrow> front \<Rightarrow> bool" where
  "same_scopes a b \<longleftrightarrow> kid_scopes (fr_cc b) = kid_scopes (fr_cc a) \<and> scope_of (fr_cc b) = scope_of (fr_cc a) \<and>
     fr_parent b = fr_parent a \<and> (\<forall>n. kids_of (glob (fr_cc a)) n \<noteq> None \<longrightarrow> kids_of (glob (fr_cc b)) n \<noteq> None)"

definition description_ok :: "act \<Rightarrow> bool" where
  "description_ok f \<longleftrightarrow> (\<forall>a b. f a = Inr b \<longrightarrow>
     errors (fr_cc a) \<le> errors (fr_cc b) \<and> fr_stack b = fr_stack a \<and>
     (errors (fr_cc b) = 0 \<longrightarrow> (\<forall>decl M p c. ginv decl [] M p c a \<longrightarrow> settled p a \<longrightarrow>
        (\<exists>decl' c'. ginv decl' [] M p c' b) \<and> same_scopes a b)))"

lemma same_scopes_refl [simp]: "same_scopes a a"
  by (simp add: same_scopes_def)

lemma same_scopes_trans: "same_scopes a b \<Longrightarrow> same_scopes b c \<Longrightarrow> same_scopes a c"
  by (simp add: same_scopes_def)

lemma settled_same: "same_scopes a b \<Longrightarrow> settled p a \<Longrightarrow> settled p b"
  by (simp add: settled_def same_scopes_def kids_bounded_def)

lemma description_run_all:
  assumes "\<And>f. f \<in> set fs \<Longrightarrow> description_ok f"
  shows "description_ok (run_all fs)"
  using assms
proof (induction fs)
  case Nil
  then show ?case by (auto simp: description_ok_def)
next
  case (Cons f fs)
  have f: "description_ok f" and fs: "description_ok (run_all fs)" using Cons by simp_all
  show ?case
    unfolding description_ok_def
  proof (intro allI impI)
    fix a b assume "run_all (f # fs) a = Inr b"
    then obtain a1 where 1: "f a = Inr a1" "run_all fs a1 = Inr b" by auto
    have x: "errors (fr_cc a) \<le> errors (fr_cc a1)" "fr_stack a1 = fr_stack a"
        "\<And>decl M p c. errors (fr_cc a1) = 0 \<Longrightarrow> ginv decl [] M p c a \<Longrightarrow> settled p a \<Longrightarrow>
          (\<exists>decl' c'. ginv decl' [] M p c' a1) \<and> same_scopes a a1"
      using f 1(1) unfolding description_ok_def by blast+
    have y: "errors (fr_cc a1) \<le> errors (fr_cc b)" "fr_stack b = fr_stack a1"
        "\<And>decl M p c. errors (fr_cc b) = 0 \<Longrightarrow> ginv decl [] M p c a1 \<Longrightarrow> settled p a1 \<Longrightarrow>
          (\<exists>decl' c'. ginv decl' [] M p c' b) \<and> same_scopes a1 b"
      using fs 1(2) unfolding description_ok_def by blast+
    have "(\<exists>decl' c'. ginv decl' [] M p c' b) \<and> same_scopes a b"
      if e: "errors (fr_cc b) = 0" and g: "ginv decl [] M p c a" and s: "settled p a" for decl M p c
    proof -
      have "errors (fr_cc a1) = 0" using y(1) e by simp
      from x(3) [OF this g s] obtain decl' c' where 2: "ginv decl' [] M p c' a1" "same_scopes a a1" by blast
      show ?thesis
        using y(3) [OF e 2(1) settled_same [OF 2(2) s]] same_scopes_trans [OF 2(2)] by blast
    qed
    then show "errors (fr_cc a) \<le> errors (fr_cc b) \<and> fr_stack b = fr_stack a \<and>
      (errors (fr_cc b) = 0 \<longrightarrow> (\<forall>decl M p c. ginv decl [] M p c a \<longrightarrow> settled p a \<longrightarrow>
        (\<exists>decl' c'. ginv decl' [] M p c' b) \<and> same_scopes a b))"
      using x(1,2) y(1,2) by simp
  qed
qed

lemma inner_description:
  assumes "\<And>a b decl. f a = Inr b \<Longrightarrow> inner decl a b \<and> fr_stack b = fr_stack a"
  shows "description_ok f"
  using assms unfolding description_ok_def inner_def frame_def same_scopes_def by (metis (no_types, lifting))

section \<open>Types of symbols\<close>

lemma info_type_nonzero: "info_type i \<noteq> T_NONE"
  by (cases i) (simp_all add: type_defs)

lemma type_none_info: "type_of cc n 0 = T_NONE \<longleftrightarrow> info_of (deref cc n) = None"
  using info_type_nonzero by (auto simp: type_of_def sym_type_def info_of_def simp del: info_of_simps split: option.split)

lemma type_bits [simp]:
  "T_NONE AND w = T_NONE" "T_CHILD AND T_GLOBAL = T_NONE" "T_CHILD AND T_PARENT = T_NONE" "T_CHILD AND T_USER_EVENT = T_NONE"
  by (simp_all add: type_defs)

lemma type_global: "info_type i AND T_GLOBAL \<noteq> T_NONE \<longleftrightarrow> i = Global_info"
  by (cases i) (simp_all add: type_defs)

lemma type_parent: "info_type i AND T_PARENT \<noteq> T_NONE \<longleftrightarrow> as_kids i \<noteq> None"
  by (cases i) (simp_all add: type_defs)

lemma type_user_event: "info_type i AND T_USER_EVENT \<noteq> T_NONE \<longleftrightarrow> (\<exists>e u. i = User_event_info e u)"
  by (cases i) (simp_all add: type_defs)

section \<open>Events\<close>

lemma act_base_event_inner:
  assumes "act_base_event_spec_opt base a = Inr b"
  shows "inner decl a b \<and> (\<exists>bs. fr_stack b = Sem_sym bs # fr_stack a \<and> (\<forall>x. bs = Some x \<longrightarrow> errors (fr_cc b) = 0 \<longrightarrow>
    type_of (fr_cc b) x 0 AND T_USER_EVENT \<noteq> T_NONE))"
proof (cases base)
  case None
  then show ?thesis using assms by (auto simp: act_base_event_spec_opt_def act_Inr)
next
  case (Some token)
  then obtain a1 where 1: "act_identifier token a = Inr a1"
      "TOP_SYMBOL (the_sym (\<lambda>s. check_cc (type_check s T_USER_EVENT MUST_EXIST ''in base event specification'' 0) (\<lambda>_. skip))) a1 = Inr b"
    using assms by (auto simp: act_base_event_spec_opt_def)
  have i: "inner decl a a1" "fr_stack a1 = Sem_sym (Some token) # fr_stack a"
    using act_identifier_inner [OF 1(1)] by simp_all
  obtain ok cc where t: "type_check token T_USER_EVENT MUST_EXIST ''in base event specification'' 0 (fr_cc a1) = (ok, cc)"
      and b: "b = a1 \<lparr> fr_cc := cc \<rparr>"
    using 1(2) i(2) by (auto simp: act_Inr)
  have "inner decl a1 b"
    using type_check_keeps [OF t] by (auto simp: b intro!: inner_same_table)
  moreover have "type_of cc token 0 AND T_USER_EVENT \<noteq> T_NONE" if "errors cc = 0"
    using t that by (auto simp: type_check_def Let_def split: if_splits)
  ultimately show ?thesis
    using i inner_trans b by auto
qed

lemma act_event_declare_inner:
  assumes "act_event_declare a = Inr b" "fr_stack a = Sem_sym (Some ev) # Sem_sym bs # S" "known (fr_cc a) ev"
    "\<forall>x. bs = Some x \<longrightarrow> errors (fr_cc a) = 0 \<longrightarrow> type_of (fr_cc a) x 0 AND T_USER_EVENT \<noteq> T_NONE"
  shows "inner decl a b \<and> (\<exists>pd. fr_stack b = Sem_params pd # Sem_sym (Some ev) # S)"
proof -
  obtain ok cc a2 where t: "not_exists ev T_NONE (fr_cc a) = (ok, cc)"
      and r: "(if ok then declare_event_sym ev (\<lambda>line. global_info_ctor line (user_event_info_ctor bs)) else skip)
        (a \<lparr> fr_stack := S, fr_cc := cc \<rparr>) = Inr a2"
      and b: "run_all [PUSH_SYMBOL (Some ev), (\<lambda>fr. PUSH_PARAMS (if INFO as_user_event (fr_cc fr) (Some ev) = None then None else Some ev) fr),
        push_state STATE_MAYBE_CPARAMS] a2 = Inr b"
    using assms(1,2) by (auto simp: act_event_declare_def stack_pop_Inr as_value_Inr the_sym_Inr check_cc_Inr)
  let ?a = "a \<lparr> fr_stack := S, fr_cc := cc \<rparr>"
  note k = not_exists_keeps [OF t]
  have i1: "inner decl a ?a"
    using inner_same_table [where a = "a \<lparr> fr_stack := S \<rparr>" and b = ?a and decl = decl] k by simp
  have "inner decl ?a a2 \<and> fr_stack a2 = fr_stack ?a"
  proof (cases ok)
    case True
    then have cc: "cc = fr_cc a" "type_of (fr_cc a) ev 0 = T_NONE"
      using t by (auto simp: not_exists_def Let_def split: if_splits)
    show ?thesis
    proof (rule inner_declare_event [where i = "user_event_info_ctor bs"])
      show "base_declared (fr_cc ?a) (user_event_info_ctor bs)" if "errors (fr_cc a2) = 0" "shape (fr_cc ?a)"
        unfolding base_declared_def
      proof (intro allI impI)
        fix e x assume "as_any_event (user_event_info_ctor bs) = Some (e, Some (Some x))"
        then have x: "bs = Some x" by (simp add: user_event_info_ctor_def)
        have "errors (fr_cc a) = 0"
        proof -
          obtain M where "a2 = ?a \<lparr> fr_cc := set_info M (map_chsm (\<lambda>c. c \<lparr> ch_events := ch_events c @ [ev] \<rparr>))
              (insert_new ev (\<lambda>line. global_info_ctor line (user_event_info_ctor bs)) cc) \<rparr>"
            using r True by (auto simp: declare_event_sym_def on_cc_def elim!: update_CHSM_Inr)
          then show ?thesis using that(1) by (simp add: cc)
        qed
        then have "type_of (fr_cc a) x 0 AND T_USER_EVENT \<noteq> T_NONE" using assms(4) x by blast
        moreover have sh: "shape (fr_cc a)" using that(2) by (simp add: cc)
        ultimately obtain i where "glob (fr_cc a) x = Some i" "info_type i AND T_USER_EVENT \<noteq> T_NONE"
          unfolding front_type [OF sh] glob_type_def by (auto split: if_splits option.splits)
        then show "\<exists>e' b'. event_at (glob (fr_cc ?a)) x = Some (e', Some b')"
          unfolding type_user_event by (auto simp: cc event_at_def)
      qed
    qed (use r True assms(3) cc type_none_info in
      \<open>auto simp: user_event_info_ctor_def event_info_ctor_def event_ok_def simp del: info_of_simps\<close>)
  next
    case False
    then show ?thesis using r by (simp add: act_Inr)
  qed
  then have i2: "inner decl ?a a2" "fr_stack a2 = S" by simp_all
  have i3: "inner decl a2 b \<and> (\<exists>pd. fr_stack b = Sem_params pd # Sem_sym (Some ev) # fr_stack a2)"
    using b by (auto simp: act_Inr dest!: lexer_states)
  then show ?thesis
    using inner_trans [OF inner_trans [OF i1 i2(1)]] i2(2) by simp
qed

lemma act_parameter_list_opt_neutral: "neutral decl (act_parameter_list_opt token)"
proof (cases token)
  case None
  then show ?thesis by (simp add: act_parameter_list_opt_def neutral_skip)
next
  case (Some t)
  have push: "neutral decl (push_params pd params)" for pd params
    unfolding push_params_def
  proof (rule neutral_run_all)
    fix f assume "f \<in> set (map (\<lambda>p. the_sym (\<lambda>n. on_cc (set_info n (add_param p))) pd) params)"
    then show "neutral decl f"
      using neutral_harmless [OF harmless_all(2)] by (auto simp: neutral_def the_sym_Inr)
  qed
  have err: "neutral decl (on_cc (error_text what))" for what
    by (rule neutral_message) simp_all
  have "inner decl a b \<and> fr_stack b = fr_stack a" if run: "act_parameter_list t a = Inr b" for a b
  proof -
    obtain pd ps where r: "(case parse_param_list (fr_lang a) ps of Inr params \<Rightarrow> push_params pd params a
        | Inl (Throw what) \<Rightarrow> on_cc (error_text what) a | Inl _ \<Rightarrow> Inl Crash) = Inr b"
      using run by (auto simp: act_parameter_list_def stack_peek_Inr as_value_Inr split: option.splits)
    have "(\<exists>params. push_params pd params a = Inr b) \<or> (\<exists>what. on_cc (error_text what) a = Inr b)"
    proof (cases "parse_param_list (fr_lang a) ps")
      case (Inl e)
      with r show ?thesis by (cases e) auto
    next
      case (Inr params)
      with r show ?thesis by auto
    qed
    then show ?thesis using push err unfolding neutral_def by blast
  qed
  then show ?thesis
    by (simp add: neutral_def act_parameter_list_opt_def Some)
qed

lemma precondition_neutral: "neutral decl (act_event_precondition_opt p)"
proof -
  have set: "neutral decl (set_precondition pr ev)" for pr ev
    using neutral_harmless [OF harmless_all(4)] by (auto simp: neutral_def set_precondition_def split: if_splits)
  have "neutral decl (run_all [set_precondition pr ev, emit_user g])" for pr ev g
    by (rule neutral_run_all) (auto simp: set neutral_emit)
  then have peek: "neutral decl (PEEK_SYMBOL 1 (the_sym (\<lambda>ev. run_all [set_precondition pr ev, emit_user (g ev)])))" for pr g
    unfolding neutral_def stack_peek_Inr as_value_Inr the_sym_Inr by blast
  have peek2: "neutral decl (PEEK_SYMBOL 1 (the_sym (\<lambda>ev. emit_user (g ev))))" for g
    using neutral_emit unfolding neutral_def stack_peek_Inr as_value_Inr the_sym_Inr by blast
  show ?thesis
  proof (cases p)
    case No_precondition
    then show ?thesis by (simp add: neutral_skip)
  next
    case (Precondition_expr body)
    show ?thesis
      unfolding Precondition_expr act_event_precondition_opt.simps
      by (rule neutral_run_all) (use peek act_code_neutral neutral_emit in auto)
  next
    case (Precondition_func body)
    show ?thesis
      unfolding Precondition_func act_event_precondition_opt.simps
      by (rule neutral_run_all) (use peek peek2 act_code_neutral in auto)
  qed
qed

lemma event_description_ok: "description_ok (act_description (Event_description base token params pre))"
proof (rule inner_description)
  fix a b decl assume run: "act_description (Event_description base token params pre) a = Inr b"
  obtain a1 a2 a3 a4 a5 where 1: "act_base_event_spec_opt base a = Inr a1" "act_identifier token a1 = Inr a2"
      "act_event_declare a2 = Inr a3" "act_parameter_list_opt params a3 = Inr a4" "act_event_precondition_opt pre a4 = Inr a5"
      "act_event_end a5 = Inr b"
    using run by auto
  obtain bs where 2: "inner decl a a1" "fr_stack a1 = Sem_sym bs # fr_stack a"
      "\<forall>x. bs = Some x \<longrightarrow> errors (fr_cc a1) = 0 \<longrightarrow> type_of (fr_cc a1) x 0 AND T_USER_EVENT \<noteq> T_NONE"
    using act_base_event_inner [OF 1(1)] by blast
  have 3: "inner decl a1 a2" "fr_stack a2 = Sem_sym (Some token) # Sem_sym bs # fr_stack a" "known (fr_cc a2) token"
    using act_identifier_inner [OF 1(2)] 2(2) by simp_all
  have "type_of (fr_cc a2) x 0 = type_of (fr_cc a1) x 0" "errors (fr_cc a2) = errors (fr_cc a1)" for x
    using 1(2) by (auto simp: act_identifier_def act_Inr)
  with 2(3) have base: "\<forall>x. bs = Some x \<longrightarrow> errors (fr_cc a2) = 0 \<longrightarrow> type_of (fr_cc a2) x 0 AND T_USER_EVENT \<noteq> T_NONE"
    by simp
  obtain pd where 4: "inner decl a2 a3" "fr_stack a3 = Sem_params pd # Sem_sym (Some token) # fr_stack a"
    using act_event_declare_inner [OF 1(3) 3(2,3) base] by blast
  note 5 = neutralD [OF act_parameter_list_opt_neutral 1(4)]
  note 6 = neutralD [OF precondition_neutral 1(5)]
  have "inner decl a5 b \<and> fr_stack a5 = Sem_params pd # Sem_sym (Some token) # fr_stack b"
    using 1(6) 4(2) 5(2) 6(2) by (auto simp: act_event_end_def pop_junk_def act_Inr dest!: lexer_states)
  then show "inner decl a b \<and> fr_stack b = fr_stack a"
    using 2(1) 3(1) 4 5 6 inner_trans by (metis list.inject)
qed

section \<open>The tree of states\<close>

lemma states_okD:
  assumes "states_ok S K decl pend p k"
  shows "distinct (''root'' # decl @ pend)" "S ''root'' = Some (None, 0, False)" "\<exists>cs. K ''root'' = Some (False, cs)"
    "i < length decl \<Longrightarrow> \<exists>q. S (decl ! i) = Some (Some q, i + 1, False) \<and> q \<in> set (''root'' # take i decl) \<and> K q \<noteq> None"
    "K n = Some (b, cs) \<Longrightarrow> cs = filter (\<lambda>m. parent_at S m = Some n) decl @ (if n = p then pend else [])"
    "S n \<noteq> None \<Longrightarrow> n = ''root'' \<or> n \<in> set decl" "K n \<noteq> None \<Longrightarrow> S n \<noteq> None" "k = length decl + 1" "K p \<noteq> None"
proof -
  have d: "distinct (''root'' # decl @ pend)" "S ''root'' = Some (None, 0, False)" "\<exists>cs. K ''root'' = Some (False, cs)"
    "\<forall>i < length decl. \<exists>q. S (decl ! i) = Some (Some q, i + 1, False) \<and> q \<in> set (''root'' # take i decl) \<and> K q \<noteq> None"
    "\<forall>n b cs. K n = Some (b, cs) \<longrightarrow> cs = filter (\<lambda>m. parent_at S m = Some n) decl @ (if n = p then pend else [])"
    "\<forall>n. S n \<noteq> None \<longrightarrow> n \<in> set (''root'' # decl)" "\<forall>n. K n \<noteq> None \<longrightarrow> S n \<noteq> None"
    "k = length decl + 1" "K p \<noteq> None"
    using assms unfolding states_ok_def by argo+
  show "distinct (''root'' # decl @ pend)" "S ''root'' = Some (None, 0, False)" "\<exists>cs. K ''root'' = Some (False, cs)"
    "k = length decl + 1" "K p \<noteq> None" by (rule d)+
  show "\<exists>q. S (decl ! i) = Some (Some q, i + 1, False) \<and> q \<in> set (''root'' # take i decl) \<and> K q \<noteq> None" if "i < length decl"
    by (rule d(4) [THEN spec, THEN mp, OF that])
  show "cs = filter (\<lambda>m. parent_at S m = Some n) decl @ (if n = p then pend else [])" if "K n = Some (b, cs)"
    by (rule d(5) [THEN spec, THEN spec, THEN spec, THEN mp, OF that])
  show "n = ''root'' \<or> n \<in> set decl" if "S n \<noteq> None"
    using d(6) [THEN spec, THEN mp, OF that] by simp
  show "S n \<noteq> None" if "K n \<noteq> None"
    by (rule d(7) [THEN spec, THEN mp, OF that])
qed

lemma states_okI:
  assumes "distinct (''root'' # decl @ pend)" "S ''root'' = Some (None, 0, False)" "\<exists>cs. K ''root'' = Some (False, cs)"
    "\<And>i. i < length decl \<Longrightarrow> \<exists>q. S (decl ! i) = Some (Some q, i + 1, False) \<and> q \<in> set (''root'' # take i decl) \<and> K q \<noteq> None"
    "\<And>n b cs. K n = Some (b, cs) \<Longrightarrow> cs = filter (\<lambda>m. parent_at S m = Some n) decl @ (if n = p then pend else [])"
    "\<And>n. S n \<noteq> None \<Longrightarrow> n = ''root'' \<or> n \<in> set decl" "\<And>n. K n \<noteq> None \<Longrightarrow> S n \<noteq> None" "k = length decl + 1" "K p \<noteq> None"
  shows "states_ok S K decl pend p k"
proof -
  have "\<forall>n b cs. K n = Some (b, cs) \<longrightarrow> cs = filter (\<lambda>m. parent_at S m = Some n) decl @ (if n = p then pend else [])"
    by (intro allI impI, rule assms(5))
  moreover have "\<forall>n. S n \<noteq> None \<longrightarrow> n \<in> set (''root'' # decl)" using assms(6) by auto
  moreover have "\<forall>i < length decl. \<exists>q. S (decl ! i) = Some (Some q, i + 1, False) \<and> q \<in> set (''root'' # take i decl) \<and> K q \<noteq> None"
    by (intro allI impI, rule assms(4))
  ultimately show ?thesis
    unfolding states_ok_def using assms(1-3,7-9) by blast
qed

lemma states_ok_parent: "states_ok S K decl [] p k \<Longrightarrow> K p' \<noteq> None \<Longrightarrow> states_ok S K decl [] p' k"
  by (simp add: states_ok_def)

text \<open>A state joins the machine and its parent's children, then gets its info.\<close>

lemma states_ok_pend:
  assumes "states_ok S K decl [] p k" "S name = None" "K p = Some (b, cs)"
  shows "states_ok S (K(p := Some (b, cs @ [name]))) decl [name] p k"
proof -
  note D = states_okD [OF assms(1)]
  have name: "name \<noteq> ''root''" "name \<notin> set decl"
    using D(2) states_ok_mono_next [OF assms(1), of name] assms(2) by (metis option.distinct(1))+
  show ?thesis
  proof (rule states_okI)
    fix i assume i: "i < length decl"
    obtain q where q: "S (decl ! i) = Some (Some q, i + 1, False)" "q \<in> set (''root'' # take i decl)" "K q \<noteq> None"
      using D(4) [OF i] by (elim exE conjE)
    show "\<exists>q. S (decl ! i) = Some (Some q, i + 1, False) \<and> q \<in> set (''root'' # take i decl) \<and>
        (K(p := Some (b, cs @ [name]))) q \<noteq> None" by (intro exI [of _ q] conjI q(1,2)) (use q(3) in simp)
  next
    fix n b' cs' assume "(K(p := Some (b, cs @ [name]))) n = Some (b', cs')"
    then show "cs' = filter (\<lambda>m. parent_at S m = Some n) decl @ (if n = p then [name] else [])"
      using D(5) [of n b' cs'] D(5) [OF assms(3)] by (auto split: if_splits)
  qed (use D(1-3,6-9) name assms(3) in \<open>auto split: if_splits\<close>)
qed

lemma states_ok_done:
  assumes "states_ok S K decl [name] p k" "S name = None" "K name = None" "kk = None \<or> (\<exists>b. kk = Some (b, []))"
  shows "states_ok (S(name := Some (Some p, k, False))) (K(name := kk)) (decl @ [name]) [] p (k + 1)"
proof -
  note D = states_okD [OF assms(1)]
  let ?S = "S(name := Some (Some p, k, False))"
  have name: "name \<noteq> ''root''" "name \<notin> set decl" "p \<noteq> name"
    using D(1,9) assms(3) by auto
  have k: "k = length decl + 1" by (rule D(8))
  have par: "parent_at ?S m = parent_at S m" if "m \<in> set decl" for m
    using that name by (auto simp: parent_at_def)
  have nokids: "parent_at S m \<noteq> Some name" if m: "m \<in> set decl" for m
  proof -
    obtain i where i: "i < length decl" "m = decl ! i" using m by (auto simp: in_set_conv_nth)
    from D(4) [OF i(1)] obtain q where "S m = Some (Some q, i + 1, False)" "K q \<noteq> None" unfolding i(2) by blast
    then show ?thesis using assms(3) by (auto simp: parent_at_def)
  qed
  have p: "p = ''root'' \<or> p \<in> set decl" using D(6,7,9) by blast
  show ?thesis
  proof (rule states_okI)
    fix i assume i: "i < length (decl @ [name])"
    show "\<exists>q. ?S ((decl @ [name]) ! i) = Some (Some q, i + 1, False) \<and> q \<in> set (''root'' # take i (decl @ [name])) \<and>
        (K(name := kk)) q \<noteq> None"
    proof (cases "i < length decl")
      case True
      then have n: "decl ! i \<noteq> name" using name(2) nth_mem by blast
      obtain q where q: "S (decl ! i) = Some (Some q, i + 1, False)" "q \<in> set (''root'' # take i decl)" "K q \<noteq> None"
        using D(4) [OF True] by (elim exE conjE)
      then have "q \<noteq> name" using assms(3) by blast
      then show ?thesis
        using q n True by (intro exI [of _ q]) (simp add: nth_append)
    next
      case False
      then have "i = length decl" using i by simp
      then show ?thesis using p name(3) D(9) k by (auto simp: nth_append)
    qed
  next
    fix n b cs assume n: "(K(name := kk)) n = Some (b, cs)"
    have f: "filter (\<lambda>m. parent_at ?S m = Some n) decl = filter (\<lambda>m. parent_at S m = Some n) decl"
      by (rule filter_cong) (simp_all add: par)
    show "cs = filter (\<lambda>m. parent_at ?S m = Some n) (decl @ [name]) @ (if n = p then [] else [])"
    proof (cases "n = name")
      case True
      then show ?thesis
        using n assms(4) nokids name(3) f by (auto simp: parent_at_def [of ?S name] filter_empty_conv)
    next
      case False
      then show ?thesis
        using n D(5) [of n b cs] f by (auto simp: parent_at_def [of ?S name])
    qed
  next
    fix n show "?S n \<noteq> None \<Longrightarrow> n = ''root'' \<or> n \<in> set (decl @ [name])" using D(6) by (auto split: if_splits)
    show "(K(name := kk)) n \<noteq> None \<Longrightarrow> ?S n \<noteq> None" using D(7) by (auto split: if_splits)
  qed (use D(1-3,8,9) name in auto)
qed

end
