(* ===== verification/Chsmc_Tree.thy ===== *)
theory Chsmc_Tree
  imports Chsmc_Declare
begin

text \<open>
  States, clusters and sets: a state joins the machine when its name is read, its children are
  noted in a scope of their own, it gets its info and its serial number, and its body is
  translated with it as the parent.  Every description keeps the invariant.
\<close>

section \<open>The name of a state\<close>

lemma act_derived_inner:
  assumes "act_derived_class_spec_opt derived a = Inr b"
  shows "inner decl a b \<and> (\<exists>d. fr_stack b = Sem_str d # fr_stack a)"
  using assms by (auto simp: act_derived_class_spec_opt_def act_Inr dest!: lexer_states)

lemma check_child_neutral: "neutral decl (check_child_of parent ident)"
  unfolding check_child_of_def
proof (rule neutral_check)
  show "\<And>cc ok cc'. type_check ident T_CHILD MUST_EXIST ''in state declaration'' 0 cc = (ok, cc') \<Longrightarrow>
      cc_table cc' = cc_table cc \<and> cc_chsm cc' = cc_chsm cc \<and> errors cc \<le> errors cc'"
    by (rule type_check_keeps)
  show "neutral decl (\<lambda>fr. if ok then (case INFO as_child (fr_cc fr) (Some ident) of None \<Rightarrow> Inl Crash
      | Some (p, _) \<Rightarrow> (if p = parent then on_cc (set_info ident define_child) fr
            else on_cc (error_text (type_text (type_of (fr_cc fr) ident 0) @ '' '' @ in_quotes ident
                   @ '' is not a child of '' @ in_quotes parent)) fr))
     else Inr fr)" for ok
  proof -
    have "neutral decl (on_cc (error_text t))" for t by (rule neutral_message) simp_all
    then show ?thesis
      using neutral_harmless [OF harmless_all(1), of decl ident]
      by (auto simp: neutral_def split: option.splits if_splits)
  qed
qed

lemma scoped_name_inner:
  assumes "scoped_name ident k a = Inr b"
  obtains name a1 where "k name a1 = Inr b" "\<forall>decl. inner decl a a1" "fr_stack a1 = fr_stack a"
    "name = ident \<or> (\<exists>p. fr_parent a = Some p \<and> name = p @ ''.'' @ ident)"
proof -
  obtain c where c: "CHSM (fr_cc a) = Some c" using assms by (auto simp: scoped_name_def split: option.splits)
  show ?thesis
  proof (cases "fr_parent a = Some (ch_root c)")
    case True
    then have "k ident a = Inr b" using assms c by (simp add: scoped_name_def)
    then show ?thesis by (rule that) simp_all
  next
    case False
    then obtain p a1 where p: "fr_parent a = Some p" "check_child_of p ident a = Inr a1" "k (p @ ''.'' @ ident) a1 = Inr b"
      using assms c by (auto simp: scoped_name_def split: option.splits)
    show ?thesis
    proof (rule that [OF p(3)])
      show "\<forall>decl. inner decl a a1" by (rule allI, rule neutralD(1) [OF check_child_neutral p(2)])
      show "fr_stack a1 = fr_stack a" by (rule neutralD(2) [OF check_child_neutral p(2)])
    qed (use p(1) in simp)
  qed
qed

lemma name_ok_scoped: "name_ok p \<Longrightarrow> name_ok (p @ CHR ''.'' # ident)"
  by (cases p) (simp_all add: name_ok_def)

section \<open>Forgetting a dummy\<close>

lemma glob_forget:
  assumes "G n = Some Global_info"
  shows "skel_of (G(n := None)) = skel_of G" "kids_of (G(n := None)) = kids_of G" "event_at (G(n := None)) = event_at G"
  using assms by (auto simp: skel_of_def kids_of_def event_at_def fun_eq_iff)

lemma forget_dummy_neutral: "neutral decl (forget_dummy name)"
  unfolding neutral_def
proof (intro allI impI)
  fix a b assume run: "forget_dummy name a = Inr b"
  show "inner decl a b \<and> fr_stack b = fr_stack a"
  proof (cases "type_of (fr_cc a) name 0 AND T_GLOBAL \<noteq> T_NONE")
    case False
    then show ?thesis using run by (simp add: forget_dummy_def)
  next
    case True
    let ?cc = "fr_cc a \<lparr> cc_table := update_sym name delete_info (cc_table (fr_cc a)) \<rparr>"
    have b: "b = a \<lparr> fr_cc := ?cc \<rparr>"
      using run True by (simp add: forget_dummy_def delete_first_info_def act_Inr)
    have "inner decl a b"
    proof (rule innerI)
      fix M c assume ok: "base_ok decl (fr_cc a) M c"
      then have g: "shape (fr_cc a)" by (simp add: base_ok_def)
      have k: "kid_scopes (fr_cc a) name = []" "glob (fr_cc a) name = Some Global_info"
        using True by (auto simp: front_type [OF g] glob_type_def type_global split: if_splits option.splits)
      note v = delete_view [OF g k(1) refl]
      have "name \<noteq> M" using ok k(2) by (auto simp: base_ok_def)
      then show "inner_ok decl (fr_cc a) (fr_cc b) M c"
        using v ok glob_forget [of "glob (fr_cc a)", OF k(2)] by (auto simp: inner_ok_def base_ok_def b)
    qed (simp_all add: b update_sym_def)
    then show ?thesis by (simp add: b)
  qed
qed

section \<open>Enrolling a state\<close>

lemma keeps_map_chsm: "keeps_class (map_chsm f)"
  unfolding keeps_class_def by (rule allI, case_tac i) simp_all

lemma keeps_add_child: "keeps_class (add_child n)"
  unfolding keeps_class_def by (rule allI, case_tac i) simp_all

lemma add_child_infos:
  "as_state (add_child n i) = as_state i" "as_any_event (add_child n i) = as_any_event i"
  "as_kids (add_child n i) = map_option (\<lambda>(b, cs). (b, cs @ [n])) (as_kids i)"
  by (cases i; simp)+

lemma enrol_state_result:
  assumes run: "enrol_state name a = Inr b"
  shows "errors (fr_cc b) = errors (fr_cc a) \<and> fr_stack b = fr_stack a \<and> fr_next_no b = fr_next_no a \<and>
    (\<forall>decl M p c. ginv decl [] M p c a \<longrightarrow> settled p a \<longrightarrow> known (fr_cc a) name \<longrightarrow>
      same_scopes a b \<and> (b = a \<and> info_of (deref (fr_cc a) name) \<noteq> None \<or> (\<exists>c'. ginv decl [name] M p c' b)))"
proof (cases "info_of (deref (fr_cc a) name) = None")
  case False
  have "b = a" using run unfolding enrol_state_def if_not_P [OF False] by simp
  with False same_scopes_refl show ?thesis by blast
next
  case True
  let ?f = "\<lambda>c. c \<lparr> ch_states := ch_states c @ [name] \<rparr>"
  obtain a1 where 1: "update_CHSM ?f a = Inr a1" "add_to_parent name a1 = Inr b"
    using run True by (auto simp: enrol_state_def simp del: info_of_simps)
  obtain M1 c1 where M1: "cc_chsm (fr_cc a) = Some M1" "CHSM (fr_cc a) = Some c1"
      and a1: "a1 = a \<lparr> fr_cc := set_info M1 (map_chsm ?f) (fr_cc a) \<rparr>"
    using 1(1) by (rule update_CHSM_Inr)
  have plain: "errors (fr_cc b) = errors (fr_cc a) \<and> fr_stack b = fr_stack a \<and> fr_next_no b = fr_next_no a \<and> fr_parent b = fr_parent a \<and>
      cc_chsm (fr_cc b) = cc_chsm (fr_cc a) \<and> scope_of (fr_cc b) = scope_of (fr_cc a)"
    using 1(2) by (auto simp: add_to_parent_def act_Inr a1 split: option.splits if_splits)
  have "same_scopes a b \<and> (\<exists>c'. ginv decl [name] M p c' b)"
    if gi: "ginv decl [] M p c a" and se: "settled p a" and kn: "known (fr_cc a) name" for decl M p c
  proof -
    let ?G = "glob (fr_cc a)"
    have g: "shape (fr_cc a)" and M: "M1 = M" and GM: "?G M = Some (Chsm_info c)" and fp: "fr_parent a = Some p"
      and st: "states_ok (skel_of ?G) (kids_of ?G) decl [] p (fr_next_no a)"
      using gi M1(1) se by (auto simp: ginv_def Let_def settled_def)
    have n: "kid_scopes (fr_cc a) name = []" "?G name = None"
      using True front_info(1) [OF g] by blast+
    have "kid_scopes (fr_cc a) M = []"
      by (rule CHSM_front [OF g M1(2)]) (use M1(1) M in simp)
    then have v: "shape (fr_cc a1)" "kid_scopes (fr_cc a1) = kid_scopes (fr_cc a)" "known (fr_cc a1) = known (fr_cc a)"
        "glob (fr_cc a1) = ?G(M := Some (Chsm_info (?f c)))"
      using set_info_view [OF g keeps_map_chsm, of M ?f] GM by (simp_all add: a1 M)
    obtain bb cs where K: "kids_of ?G p = Some (bb, cs)" using states_okD(9) [OF st] by auto
    then obtain i where i: "?G p = Some i" "as_kids i = Some (bb, cs)" by (auto simp: kids_of_def bind_eq_Some_conv)
    have pM: "p \<noteq> M" using i GM by auto
    have kp: "kid_scopes (fr_cc a) p = []" using se by (simp add: settled_def)
    have ty: "type_of (fr_cc a1) p 0 AND T_PARENT \<noteq> T_NONE"
      unfolding front_type [OF v(1)] using v kp pM i type_parent by (simp add: glob_type_def)
    have b: "b = a1 \<lparr> fr_cc := set_info p (add_child name) (fr_cc a1) \<rparr>"
      using 1(2) fp ty by (simp add: add_to_parent_def act_Inr a1)
    note w = set_info_view [OF v(1) keeps_add_child, of p name]
    have G: "glob (fr_cc b) = ?G(M := Some (Chsm_info (?f c)), p := Some (add_child name i))"
      using w(3) kp v i pM by (simp add: b)
    have sk: "skel_of (glob (fr_cc b)) = skel_of ?G" "event_at (glob (fr_cc b)) = event_at ?G"
      "kids_of (glob (fr_cc b)) = (kids_of ?G)(p := Some (bb, cs @ [name]))"
      using GM i pM by (auto simp: G skel_of_def event_at_def kids_of_def fun_eq_iff add_child_infos)
    have "skel_of ?G name = None" using n(2) by (simp add: skel_of_def)
    note st' = states_ok_pend [OF st this K]
    have "name \<noteq> M" "name \<noteq> p" using n(2) GM i by auto
    then have "ginv decl [name] M p (?f c) b"
      using gi w v sk st' G plain n kn pM unfolding ginv_def Let_def by (simp add: b)
    moreover have "same_scopes a b"
      using w(2) v(2) plain sk(3) by (auto simp: same_scopes_def b)
    ultimately show ?thesis by blast
  qed
  then show ?thesis using plain by blast
qed

section \<open>The declaration of a state\<close>

lemma act_state_declaration_result:
  assumes run: "act_state_declaration derived token a = Inr b"
  obtains name d where "errors (fr_cc a) \<le> errors (fr_cc b)" "fr_stack b = Sem_sym (Some name) # Sem_str d # fr_stack a"
    "\<And>decl M p c. \<lbrakk>errors (fr_cc b) = 0; ginv decl [] M p c a; settled p a; name_ok token\<rbrakk> \<Longrightarrow>
      name_ok name \<and> same_scopes a b \<and> known (fr_cc b) name \<and>
      ((\<exists>c'. ginv decl [] M p c' b) \<and> info_of (deref (fr_cc b) name) \<noteq> None \<or> (\<exists>c'. ginv decl [name] M p c' b))"
proof -
  obtain a1 a2 where 1: "act_derived_class_spec_opt derived a = Inr a1" "act_identifier token a1 = Inr a2"
      "act_state_declaration_end a2 = Inr b"
    using run by (auto simp: act_state_declaration_def)
  obtain d where i1: "\<And>decl. inner decl a a1" "fr_stack a1 = Sem_str d # fr_stack a"
    using act_derived_inner [OF 1(1)] by blast
  have i2: "\<And>decl. inner decl a1 a2" "fr_stack a2 = Sem_sym (Some token) # fr_stack a1"
    using act_identifier_inner [OF 1(2)] by simp_all
  let ?a2 = "a2 \<lparr> fr_stack := fr_stack a1 \<rparr>"
  have "scoped_name token (\<lambda>name. run_all [on_cc (compiler_emplace name), forget_dummy name, enrol_state name,
      PUSH_SYMBOL (Some name)]) ?a2 = Inr b"
    using 1(3) i2(2) by (auto simp: act_state_declaration_end_def stack_pop_Inr as_value_Inr the_sym_Inr)
  then obtain name a3 where 3: "run_all [on_cc (compiler_emplace name), forget_dummy name, enrol_state name,
      PUSH_SYMBOL (Some name)] a3 = Inr b" "\<forall>decl. inner decl ?a2 a3" "fr_stack a3 = fr_stack ?a2"
      "name = token \<or> (\<exists>p. fr_parent ?a2 = Some p \<and> name = p @ ''.'' @ token)"
    by (rule scoped_name_inner)
  have i3: "inner decl ?a2 a3" for decl using 3(2) by blast
  define a4 where "a4 = a3 \<lparr> fr_cc := compiler_emplace name (fr_cc a3) \<rparr>"
  have i4: "\<And>decl. inner decl a3 a4" "known (fr_cc a4) name" "fr_stack a4 = fr_stack a3"
    by (simp_all add: a4_def inner_emplace emplace_view)
  obtain a5 a6 where 5: "forget_dummy name a4 = Inr a5" "enrol_state name a5 = Inr a6"
      and b: "b = a6 \<lparr> fr_stack := Sem_sym (Some name) # fr_stack a6 \<rparr>"
    using 3(1) by (auto simp: a4_def act_Inr)
  note i5 = neutralD [OF forget_dummy_neutral 5(1)]
  note r6 = enrol_state_result [OF 5(2)]
  have in15: "inner decl a a5" for decl
    using inner_trans [OF inner_trans [OF inner_trans [OF inner_trans [OF i1(1) i2(1)]]]] i3 i4(1) i5(1) inner_trans
    by (metis inner_upd(2))
  have stack: "fr_stack a5 = Sem_str d # fr_stack a"
    using i5(2) i4(3) 3(3) i1(2) by simp
  show ?thesis
  proof (rule that)
    show "errors (fr_cc a) \<le> errors (fr_cc b)"
      using in15 r6 by (simp add: inner_def b)
    show "fr_stack b = Sem_sym (Some name) # Sem_str d # fr_stack a"
      using r6 stack by (simp add: b)
    fix decl M p c
    assume e: "errors (fr_cc b) = 0" and g: "ginv decl [] M p c a" and s: "settled p a" and t: "name_ok token"
    have e5: "errors (fr_cc a5) = 0" using e r6 by (simp add: b)
    obtain c5 where g5: "ginv decl [] M p c5 a5" and f5: "frame a a5"
      using in15 [of decl] e5 g unfolding inner_def by blast
    have ss: "same_scopes a a5" using f5 by (simp add: frame_def same_scopes_def)
    have s5: "settled p a5" by (rule settled_same [OF ss s])
    have k5: "known (fr_cc a5) name"
    proof -
      have "errors (fr_cc a4) = 0" using i5(1) [of decl] e5 by (simp add: inner_def)
      moreover obtain c4 where "ginv decl [] M p c4 a4"
      proof -
        have "inner decl a a4"
          using inner_trans [OF inner_trans [OF inner_trans [OF i1(1) i2(1)]]] i3 i4(1) by (metis inner_upd(2))
        then show ?thesis using that g calculation unfolding inner_def by blast
      qed
      ultimately have "frame a4 a5" using i5(1) [of decl] e5 unfolding inner_def by blast
      then show ?thesis using i4(2) by (simp add: frame_def)
    qed
    have par: "fr_parent ?a2 = Some p"
    proof -
      have "inner decl a a2" by (rule inner_trans [OF i1(1) i2(1)])
      moreover have "errors (fr_cc a2) = 0"
        using e5 i3 [of decl] i4(1) [of decl] i5(1) [of decl] by (simp add: inner_def)
      ultimately have "frame a a2" using g unfolding inner_def by blast
      then show ?thesis using s by (simp add: frame_def settled_def)
    qed
    have "name_ok name"
      using 3(4) par t s name_ok_scoped by (auto simp: settled_def)
    moreover have r: "same_scopes a5 a6 \<and> (a6 = a5 \<and> info_of (deref (fr_cc a5) name) \<noteq> None \<or> (\<exists>c'. ginv decl [name] M p c' a6))"
      using r6 g5 s5 k5 by blast
    moreover have "known (fr_cc a6) name"
      using r k5 by (auto simp: ginv_def Let_def)
    moreover have "same_scopes a b"
      using same_scopes_trans [OF ss conjunct1 [OF r]] by (simp add: b same_scopes_def)
    moreover have "(\<exists>c'. ginv decl [] M p c' b) \<and> info_of (deref (fr_cc b) name) \<noteq> None \<or> (\<exists>c'. ginv decl [name] M p c' b)"
      using conjunct2 [OF r]
    proof
      assume "a6 = a5 \<and> info_of (deref (fr_cc a5) name) \<noteq> None"
      then have "ginv decl [] M p c5 b" "info_of (deref (fr_cc b) name) \<noteq> None"
        using g5 by (simp_all add: b del: info_of_simps)
      then show ?thesis by blast
    next
      assume "\<exists>c'. ginv decl [name] M p c' a6"
      then obtain c' where "ginv decl [name] M p c' b" by (auto simp: b)
      then show ?thesis by blast
    qed
    moreover have "known (fr_cc b) name \<longleftrightarrow> known (fr_cc a6) name" by (simp add: b)
    ultimately show "name_ok name \<and> same_scopes a b \<and> known (fr_cc b) name \<and>
      ((\<exists>c'. ginv decl [] M p c' b) \<and> info_of (deref (fr_cc b) name) \<noteq> None \<or> (\<exists>c'. ginv decl [name] M p c' b))"
      by blast
  qed
qed

section \<open>Children\<close>

text \<open>Noting children adds infos in the scope about to be opened and changes nothing else.\<close>

definition noted :: "front \<Rightarrow> front \<Rightarrow> bool" where
  "noted a b \<longleftrightarrow> errors (fr_cc a) \<le> errors (fr_cc b) \<and> fr_parent b = fr_parent a \<and> fr_next_no b = fr_next_no a \<and>
     cc_chsm (fr_cc b) = cc_chsm (fr_cc a) \<and> scope_of (fr_cc b) = scope_of (fr_cc a) \<and>
     (shape (fr_cc a) \<longrightarrow> kids_bounded (scope_of (fr_cc a) + 1) (fr_cc a) \<longrightarrow> 1 \<le> scope_of (fr_cc a) \<longrightarrow>
        shape (fr_cc b) \<and> kids_bounded (scope_of (fr_cc a) + 1) (fr_cc b) \<and> glob (fr_cc b) = glob (fr_cc a) \<and>
        (\<forall>n. filter (\<lambda>t. t \<le> scope_of (fr_cc a)) (kid_scopes (fr_cc b) n)
            = filter (\<lambda>t. t \<le> scope_of (fr_cc a)) (kid_scopes (fr_cc a) n)) \<and>
        (\<forall>n. known (fr_cc a) n \<longrightarrow> known (fr_cc b) n))"

lemma noted_refl [simp]: "noted a a"
  by (simp add: noted_def)

lemma noted_trans: "noted a b \<Longrightarrow> noted b c \<Longrightarrow> noted a c"
  unfolding noted_def by (metis order_trans)

lemma noted_upd [simp]:
  "noted a (b \<lparr> fr_stack := s \<rparr>) = noted a b" "noted (a \<lparr> fr_stack := s \<rparr>) b = noted a b"
  "noted a (b \<lparr> fr_outer_deep := d \<rparr>) = noted a b"
  by (simp_all add: noted_def)

lemma noted_same_table:
  assumes "cc_table (fr_cc b) = cc_table (fr_cc a)" "cc_chsm (fr_cc b) = cc_chsm (fr_cc a)"
    "fr_parent b = fr_parent a" "fr_next_no b = fr_next_no a" "errors (fr_cc a) \<le> errors (fr_cc b)"
  shows "noted a b"
  using assms same_table [OF assms(1)] by (simp add: noted_def kids_bounded_def)

lemma noted_ginv:
  assumes "noted a b" "ginv decl pend M p c a" "kids_bounded (scope_of (fr_cc a) + 1) (fr_cc a)" "1 \<le> scope_of (fr_cc a)"
  shows "ginv decl pend M p c b"
proof -
  have "shape (fr_cc a)" using assms(2) by (simp add: ginv_def Let_def)
  then show ?thesis
    using assms unfolding noted_def ginv_def Let_def by auto
qed

lemma noted_identifier:
  assumes "act_identifier token a = Inr b"
  shows "noted a b \<and> fr_stack b = Sem_sym (Some token) # fr_stack a \<and> known (fr_cc b) token"
  using assms by (auto simp: act_identifier_def act_Inr noted_def emplace_view kids_bounded_def)

lemma noted_insert_child:
  assumes "insert_child parent child a = Inr b" "known (fr_cc a) child"
  shows "noted a b \<and> fr_stack b = fr_stack a"
proof -
  let ?s = "scope_of (fr_cc a)"
  have b: "b = a \<lparr> fr_cc := insert_new child (\<lambda>line. child_info_ctor line ?s parent) (fr_cc a) \<rparr>"
    using assms(1) by (simp add: insert_child_def act_Inr)
  have ci: "si_info (child_info_ctor l ?s parent) = Child_info parent False" "si_scope (child_info_ctor l ?s parent) = ?s + 1" for l
    by (simp_all add: child_info_ctor_def base_info_ctor_def)
  have "shape (fr_cc b) \<and> kids_bounded (?s + 1) (fr_cc b) \<and> glob (fr_cc b) = glob (fr_cc a) \<and>
      (\<forall>n. filter (\<lambda>t. t \<le> ?s) (kid_scopes (fr_cc b) n) = filter (\<lambda>t. t \<le> ?s) (kid_scopes (fr_cc a) n))"
    if g: "shape (fr_cc a)" "kids_bounded (?s + 1) (fr_cc a)" "1 \<le> ?s"
  proof -
    have cb: "fr_cc b = insert_new child (\<lambda>line. child_info_ctor line ?s parent) (fr_cc a)" by (simp add: b)
    have "shape (fr_cc b) \<and> glob (fr_cc b) = glob (fr_cc a) \<and>
        kid_scopes (fr_cc b) = (kid_scopes (fr_cc a))(child := (?s + 1) # kid_scopes (fr_cc a) child)"
      unfolding cb
      by (rule insert_new_view(2) [OF g(1) assms(2), where i = "Child_info parent False"])
        (use g in \<open>simp_all add: ci kids_bounded_def\<close>)
    then show ?thesis using g(2) by (auto simp: kids_bounded_def)
  qed
  moreover have "known (fr_cc b) = known (fr_cc a)"
    by (auto simp: b known_def insert_new_def find_sym_update fun_eq_iff)
  ultimately show ?thesis by (simp add: noted_def b)
qed

lemma act_child_noted:
  assumes "act_child token a = Inr b" "fr_stack a = Sem_sym (Some s) # S"
  shows "noted a b \<and> fr_stack b = fr_stack a"
proof -
  obtain a1 where 1: "act_identifier token a = Inr a1" "act_child_end a1 = Inr b"
    using assms(1) by (auto simp: act_child_def)
  have i1: "noted a a1" "fr_stack a1 = Sem_sym (Some token) # Sem_sym (Some s) # S" "known (fr_cc a1) token"
    using noted_identifier [OF 1(1)] assms(2) by simp_all
  obtain ok cc where t: "not_exists token T_EVENT (fr_cc a1) = (ok, cc)"
    and r: "(\<exists>txt. on_cc (error_text txt) (a1 \<lparr> fr_stack := fr_stack a, fr_cc := cc \<rparr>) = Inr b) \<or>
      insert_child s token (a1 \<lparr> fr_stack := fr_stack a, fr_cc := cc \<rparr>) = Inr b"
    using 1(2) i1(2) assms(2)
    by (auto simp: act_child_end_def stack_pop_Inr stack_peek_Inr as_value_Inr the_sym_Inr check_cc_Inr split: if_splits)
  note k = not_exists_keeps [OF t]
  let ?a = "a1 \<lparr> fr_stack := fr_stack a, fr_cc := cc \<rparr>"
  have i2: "noted a1 ?a"
    using noted_same_table [of ?a a1] k by simp
  have "known cc token" using i1(3) same_table(5) [of cc "fr_cc a1"] k by simp
  then have "noted ?a b \<and> fr_stack b = fr_stack ?a"
    using r
  proof (elim disjE)
    assume "\<exists>txt. on_cc (error_text txt) ?a = Inr b"
    then show ?thesis by (auto simp: act_Inr intro!: noted_same_table)
  next
    assume "insert_child s token ?a = Inr b" "known cc token"
    then show ?thesis using noted_insert_child [of s token ?a b] by simp
  qed
  then show ?thesis
    using noted_trans [OF noted_trans [OF i1(1) i2]] by simp
qed

lemma act_children_noted:
  assumes "run_all (map act_child child_names) a = Inr b" "fr_stack a = Sem_sym (Some s) # S"
  shows "noted a b \<and> fr_stack b = fr_stack a"
  using assms
proof (induction child_names arbitrary: a)
  case (Cons t ts)
  obtain a1 where 1: "act_child t a = Inr a1" "run_all (map act_child ts) a1 = Inr b"
    using Cons.prems(1) by auto
  have 2: "noted a a1" "fr_stack a1 = fr_stack a"
    using act_child_noted [OF 1(1) Cons.prems(2)] by simp_all
  then show ?case
    using Cons.IH [OF 1(2)] Cons.prems(2) noted_trans [OF 2(1)] by simp
qed simp

lemma act_history_noted:
  assumes "act_history_opt h a = Inr b"
  shows "noted a b \<and> fr_cc b = fr_cc a \<and> (\<exists>i. fr_stack b = Sem_int i # fr_stack a)"
  using assms by (cases h) (auto simp: act_Inr act_deep_def split: option.splits)

section \<open>The info of a state\<close>

lemma state_info_inserted:
  assumes run: "run_all [check_cc (not_exists s T_NONE) (\<lambda>ok fr.
       if ok then insert_state_info s (fr_parent fr) derived (K fr) fr else Inr fr), PUSH_SYMBOL (Some s)] a = Inr b"
    and K: "\<And>fr i. as_state (K fr i) = Some i" "\<And>fr i. as_any_event (K fr i) = None" "\<And>fr i. \<not> is_child_info (K fr i)"
      "\<And>fr i. as_kids (K fr i) = kk" "kk = None \<or> (\<exists>b. kk = Some (b, []))"
  shows "errors (fr_cc a) \<le> errors (fr_cc b)" "fr_stack b = Sem_sym (Some s) # fr_stack a"
    "errors (fr_cc b) = 0 \<Longrightarrow> name_ok s \<Longrightarrow> info_of (deref (fr_cc a) s) = None"
    "\<lbrakk>errors (fr_cc b) = 0; name_ok s; ginv decl [s] M p c a; fr_parent a = Some p\<rbrakk> \<Longrightarrow>
       ginv (decl @ [s]) [] M p c b \<and> fr_parent b = Some p \<and>
       kid_scopes (fr_cc b) = kid_scopes (fr_cc a) \<and> kid_scopes (fr_cc b) s = [] \<and>
       scope_of (fr_cc b) = scope_of (fr_cc a) \<and>
       kids_of (glob (fr_cc b)) = (kids_of (glob (fr_cc a)))(s := kk)"
proof -
  obtain ok cc a1 where t: "not_exists s T_NONE (fr_cc a) = (ok, cc)"
    and 1: "(if ok then insert_state_info s (fr_parent (a \<lparr> fr_cc := cc \<rparr>)) derived (K (a \<lparr> fr_cc := cc \<rparr>)) (a \<lparr> fr_cc := cc \<rparr>)
        else Inr (a \<lparr> fr_cc := cc \<rparr>)) = Inr a1"
    and b: "b = a1 \<lparr> fr_stack := Sem_sym (Some s) # fr_stack a1 \<rparr>"
    using run by (auto simp: act_Inr)
  note k = not_exists_keeps [OF t] and r = not_exists_result [OF t]
  show "errors (fr_cc a) \<le> errors (fr_cc b)" "fr_stack b = Sem_sym (Some s) # fr_stack a"
    using 1 k by (auto simp: b insert_state_info_def split: if_splits)
  have none: "ok" "type_of (fr_cc a) s 0 = T_NONE" "cc = fr_cc a" if "errors (fr_cc b) = 0" "name_ok s"
  proof -
    show "ok"
    proof (rule ccontr)
      assume "\<not> ok"
      then have "errors cc = errors (fr_cc a) + 1" using r(4) that(2) by (simp add: name_ok_def)
      then show False using 1 that(1) \<open>\<not> ok\<close> by (auto simp: b)
    qed
    then show "type_of (fr_cc a) s 0 = T_NONE" "cc = fr_cc a" using r(1,5) by simp_all
  qed
  show info: "info_of (deref (fr_cc a) s) = None" if "errors (fr_cc b) = 0" "name_ok s"
    using none(2) [OF that] type_none_info by blast
  show "ginv (decl @ [s]) [] M p c b \<and> fr_parent b = Some p \<and> kid_scopes (fr_cc b) = kid_scopes (fr_cc a) \<and> kid_scopes (fr_cc b) s = [] \<and>
       scope_of (fr_cc b) = scope_of (fr_cc a) \<and> kids_of (glob (fr_cc b)) = (kids_of (glob (fr_cc a)))(s := kk)"
    if e: "errors (fr_cc b) = 0" "name_ok s" and gi: "ginv decl [s] M p c a" and fp: "fr_parent a = Some p"
  proof -
    let ?G = "glob (fr_cc a)"
    let ?i = "K a (state_info_ctor (fr_parent a) derived (fr_next_no a))"
    have g: "shape (fr_cc a)" and kn: "known (fr_cc a) s" and GM: "?G M = Some (Chsm_info c)"
      and st: "states_ok (skel_of ?G) (kids_of ?G) decl [s] p (fr_next_no a)"
      using gi by (auto simp: ginv_def Let_def)
    have cc: "a \<lparr> fr_cc := cc \<rparr> = a" using none(3) [OF e] by simp
    have n: "kid_scopes (fr_cc a) s = []" "?G s = None"
      using info [OF e] front_info(1) [OF g] by blast+
    have fb: "fr_cc b = insert_new s (\<lambda>line. global_info_ctor line ?i) (fr_cc a)" "fr_next_no b = fr_next_no a + 1"
      "fr_parent b = fr_parent a"
      using 1 none(1) [OF e] cc by (auto simp: b insert_state_info_def)
    have v: "shape (fr_cc b)" "glob (fr_cc b) = ?G(s := Some ?i)" "kid_scopes (fr_cc b) = kid_scopes (fr_cc a)"
      using insert_new_view(1) [OF g kn, where i = ?i] n(2) K(3) by (simp_all add: fb(1))
    have sk: "skel_of (glob (fr_cc b)) = (skel_of ?G)(s := Some (Some p, fr_next_no a, False))"
      "kids_of (glob (fr_cc b)) = (kids_of ?G)(s := kk)" "event_at (glob (fr_cc b)) = event_at ?G"
      using n(2) by (auto simp: v(2) skel_of_def kids_of_def event_at_def fun_eq_iff K state_skel_def state_info_ctor_def fp)
    have "skel_of ?G s = None" "kids_of ?G s = None" using n(2) by (simp_all add: skel_of_def kids_of_def)
    note st' = states_ok_done [OF st this K(5)]
    have "s \<noteq> M" using n(2) GM by auto
    moreover have "cc_chsm (fr_cc b) = cc_chsm (fr_cc a)" by (simp add: fb)
    ultimately have "ginv (decl @ [s]) [] M p c b"
      using gi v(1) st' sk(3) GM unfolding ginv_def Let_def sk(1,2) fb(2,3) by (auto simp: v(2))
    then show ?thesis using v(3) n(1) sk(2) fp by (simp add: fb(1,3))
  qed
qed

lemma kids_bounded_mono: "kids_bounded s cc \<Longrightarrow> s \<le> s' \<Longrightarrow> kids_bounded s' cc"
  unfolding kids_bounded_def by (meson order_trans)

lemma kids_bounded_filter: "kids_bounded s cc \<Longrightarrow> filter (\<lambda>t. t \<le> s) (kid_scopes cc n) = kid_scopes cc n"
  by (auto simp: kids_bounded_def filter_id_conv)

text \<open>An info that is there before the children are noted is there afterwards.\<close>

lemma noted_info:
  assumes "noted a b" "shape (fr_cc a)" "kids_bounded (scope_of (fr_cc a)) (fr_cc a)" "1 \<le> scope_of (fr_cc a)"
    "info_of (deref (fr_cc a) n) \<noteq> None"
  shows "info_of (deref (fr_cc b) n) \<noteq> None"
proof -
  have bd: "kids_bounded (scope_of (fr_cc a) + 1) (fr_cc a)"
    by (rule kids_bounded_mono [OF assms(3)]) simp
  have b: "shape (fr_cc b)" "glob (fr_cc b) = glob (fr_cc a)"
      "filter (\<lambda>t. t \<le> scope_of (fr_cc a)) (kid_scopes (fr_cc b) n) = kid_scopes (fr_cc a) n"
    using assms(1,2,4) bd kids_bounded_filter [OF assms(3)] unfolding noted_def by auto
  have "kid_scopes (fr_cc a) n \<noteq> [] \<or> glob (fr_cc a) n \<noteq> None"
    using assms(5) front_info(1) [OF assms(2), of n] by argo
  then have "kid_scopes (fr_cc b) n \<noteq> [] \<or> glob (fr_cc b) n \<noteq> None"
    using b(2,3) by auto
  then show ?thesis using front_info(1) [OF b(1), of n] by argo
qed

section \<open>The end of a state's heading\<close>

definition info_ctor_ok :: "(bool \<times> sym list) option \<Rightarrow> (front \<Rightarrow> state_info \<Rightarrow> info) \<Rightarrow> bool" where
  "info_ctor_ok kk K \<longleftrightarrow> (\<forall>fr i. as_state (K fr i) = Some i \<and> as_any_event (K fr i) = None \<and>
     \<not> is_child_info (K fr i) \<and> as_kids (K fr i) = kk)"

definition end_ok :: "(bool \<times> sym list) option \<Rightarrow> act \<Rightarrow> bool" where
  "end_ok kk f \<longleftrightarrow> (\<forall>a b s d S. f a = Inr b \<longrightarrow> fr_stack a = Sem_sym (Some s) # Sem_str d # S \<longrightarrow>
     (\<exists>a1 K. noted a a1 \<and> fr_cc a1 = fr_cc a \<and> fr_stack a1 = S \<and> info_ctor_ok kk K \<and>
       run_all [check_cc (not_exists s T_NONE) (\<lambda>ok fr.
         if ok then insert_state_info s (fr_parent fr) d (K fr) fr else Inr fr), PUSH_SYMBOL (Some s)] a1 = Inr b))"

lemma end_okD:
  assumes "end_ok kk f" "f a = Inr b" "fr_stack a = Sem_sym (Some s) # Sem_str d # S"
  obtains a1 K where "noted a a1" "fr_cc a1 = fr_cc a" "fr_stack a1 = S" "info_ctor_ok kk K"
    "run_all [check_cc (not_exists s T_NONE) (\<lambda>ok fr.
       if ok then insert_state_info s (fr_parent fr) d (K fr) fr else Inr fr), PUSH_SYMBOL (Some s)] a1 = Inr b"
  using assms(1) [unfolded end_ok_def, rule_format, OF assms(2,3)] by blast

lemma state_ends:
  "end_ok None act_state_end"
  "end_ok (Some (True, [])) act_set_end"
  "end_ok (Some (False, [])) (\<lambda>fr. rbind (act_history_opt h fr) act_cluster_end)"
proof -
  show "end_ok None act_state_end"
    unfolding end_ok_def
  proof (intro allI impI)
    fix a b s d S assume "act_state_end a = Inr b" "fr_stack a = Sem_sym (Some s) # Sem_str d # S"
    then show "\<exists>a1 K. noted a a1 \<and> fr_cc a1 = fr_cc a \<and> fr_stack a1 = S \<and> info_ctor_ok None K \<and>
       run_all [check_cc (not_exists s T_NONE) (\<lambda>ok fr.
         if ok then insert_state_info s (fr_parent fr) d (K fr) fr else Inr fr), PUSH_SYMBOL (Some s)] a1 = Inr b"
      by (intro exI [of _ "a \<lparr> fr_stack := S \<rparr>"] exI [of _ "\<lambda>_. State_info"])
        (simp add: act_state_end_def stack_pop_def as_sym_def the_sym_def as_string_def info_ctor_ok_def)
  qed
  show "end_ok (Some (True, [])) act_set_end"
    unfolding end_ok_def
  proof (intro allI impI)
    fix a b s d S assume "act_set_end a = Inr b" "fr_stack a = Sem_sym (Some s) # Sem_str d # S"
    then show "\<exists>a1 K. noted a a1 \<and> fr_cc a1 = fr_cc a \<and> fr_stack a1 = S \<and> info_ctor_ok (Some (True, [])) K \<and>
       run_all [check_cc (not_exists s T_NONE) (\<lambda>ok fr.
         if ok then insert_state_info s (fr_parent fr) d (K fr) fr else Inr fr), PUSH_SYMBOL (Some s)] a1 = Inr b"
      by (intro exI [of _ "a \<lparr> fr_stack := S \<rparr>"] exI [of _ "\<lambda>_ i. Set_info i []"])
        (simp add: act_set_end_def stack_pop_def as_sym_def the_sym_def as_string_def info_ctor_ok_def)
  qed
  show "end_ok (Some (False, [])) (\<lambda>fr. rbind (act_history_opt h fr) act_cluster_end)"
    unfolding end_ok_def
  proof (intro allI impI)
    fix a b s d S
    assume run: "rbind (act_history_opt h a) act_cluster_end = Inr b" and st: "fr_stack a = Sem_sym (Some s) # Sem_str d # S"
    then obtain a1 where 1: "act_history_opt h a = Inr a1" "act_cluster_end a1 = Inr b" by auto
    obtain i where i: "noted a a1" "fr_cc a1 = fr_cc a" "fr_stack a1 = Sem_int i # Sem_sym (Some s) # Sem_str d # S"
      using act_history_noted [OF 1(1)] st by auto
    show "\<exists>a1 K. noted a a1 \<and> fr_cc a1 = fr_cc a \<and> fr_stack a1 = S \<and> info_ctor_ok (Some (False, [])) K \<and>
       run_all [check_cc (not_exists s T_NONE) (\<lambda>ok fr.
         if ok then insert_state_info s (fr_parent fr) d (K fr) fr else Inr fr), PUSH_SYMBOL (Some s)] a1 = Inr b"
      using 1(2) i
      by (intro exI [of _ "a1 \<lparr> fr_stack := S \<rparr>"] exI [of _ "\<lambda>fr i'. Cluster_info i' [] (i \<noteq> 0 \<or> fr_outer_deep fr \<noteq> None)"])
        (simp add: act_cluster_end_def stack_pop_def as_int_def as_sym_def the_sym_def as_string_def info_ctor_ok_def)
  qed
qed

definition headed :: "string \<Rightarrow> (bool \<times> sym list) option \<Rightarrow> string list \<Rightarrow> sym \<Rightarrow> front \<Rightarrow> front \<Rightarrow> bool" where
  "headed token kk child_names s a b \<longleftrightarrow> (\<forall>decl M p c.
     errors (fr_cc b) = 0 \<longrightarrow> ginv decl [] M p c a \<longrightarrow> settled p a \<longrightarrow> name_ok token \<longrightarrow>
      name_ok s \<and> fr_parent b = Some p \<and> (\<exists>c'. ginv (decl @ [s]) [] M p c' b) \<and> kids_of (glob (fr_cc b)) s = kk \<and>
      (\<forall>n. kids_of (glob (fr_cc a)) n \<noteq> None \<longrightarrow> kids_of (glob (fr_cc b)) n \<noteq> None) \<and>
      scope_of (fr_cc b) = scope_of (fr_cc a) \<and> kid_scopes (fr_cc b) s = [] \<and>
      kids_bounded (scope_of (fr_cc a) + 1) (fr_cc b) \<and>
      (\<forall>n. filter (\<lambda>t. t \<le> scope_of (fr_cc a)) (kid_scopes (fr_cc b) n) = kid_scopes (fr_cc a) n) \<and>
      (child_names = [] \<longrightarrow> kid_scopes (fr_cc b) = kid_scopes (fr_cc a)))"

text \<open>From the name of a state to the end of its transitions.\<close>

lemma heading_result:
  assumes run: "run_all ([push_state STATE_MAYBE_CCLASS, act_state_declaration derived token] @ map act_child child_names
      @ [f, act_transition_spec_opt spec]) a = Inr b"
    and f: "end_ok kk f" "kk = None \<or> (\<exists>b. kk = Some (b, []))"
  obtains s where "errors (fr_cc a) \<le> errors (fr_cc b)" "fr_stack b = Sem_sym (Some s) # fr_stack a"
    "headed token kk child_names s a b"
proof -
  obtain a0 a1 a2 a3 where 1: "push_state STATE_MAYBE_CCLASS a = Inr a0" "act_state_declaration derived token a0 = Inr a1"
      "run_all (map act_child child_names) a1 = Inr a2" "f a2 = Inr a3" "act_transition_spec_opt spec a3 = Inr b"
    using run by (auto simp: run_all_append)
  obtain l where a0: "a0 = a \<lparr> fr_lexer := l \<rparr>" using lexer_states(1) [OF 1(1)] by blast
  obtain s d where 2: "errors (fr_cc a0) \<le> errors (fr_cc a1)" "fr_stack a1 = Sem_sym (Some s) # Sem_str d # fr_stack a0"
    "\<And>decl M p c. \<lbrakk>errors (fr_cc a1) = 0; ginv decl [] M p c a0; settled p a0; name_ok token\<rbrakk> \<Longrightarrow>
      name_ok s \<and> same_scopes a0 a1 \<and> known (fr_cc a1) s \<and>
      ((\<exists>c'. ginv decl [] M p c' a1) \<and> info_of (deref (fr_cc a1) s) \<noteq> None \<or> (\<exists>c'. ginv decl [s] M p c' a1))"
    using act_state_declaration_result [OF 1(2)] by metis
  have 3: "noted a1 a2" "fr_stack a2 = fr_stack a1"
    using act_children_noted [OF 1(3) 2(2)] by simp_all
  have st2: "fr_stack a2 = Sem_sym (Some s) # Sem_str d # fr_stack a0" using 3(2) 2(2) by simp
  obtain a2' K where 4: "noted a2 a2'" "fr_cc a2' = fr_cc a2" "fr_stack a2' = fr_stack a0" "info_ctor_ok kk K"
      "run_all [check_cc (not_exists s T_NONE) (\<lambda>ok fr.
         if ok then insert_state_info s (fr_parent fr) d (K fr) fr else Inr fr), PUSH_SYMBOL (Some s)] a2' = Inr a3"
    by (rule end_okD [OF f(1) 1(4) st2])
  have K: "as_state (K fr i) = Some i" "as_any_event (K fr i) = None" "\<not> is_child_info (K fr i)" "as_kids (K fr i) = kk" for fr i
    using 4(4) by (simp_all add: info_ctor_ok_def)
  note 5 = state_info_inserted [OF 4(5) K f(2)]
  have st3: "fr_stack a3 = Sem_sym (Some s) # fr_stack a0" using 5(2) 4(3) by simp
  have 6: "inner decl a3 b \<and> fr_stack b = fr_stack a3" if "s \<in> set decl" for decl
    by (rule act_transition_spec_opt_inner [OF 1(5) st3 that])
  have nn: "noted a1 a2'" by (rule noted_trans [OF 3(1) 4(1)])
  have e32: "errors (fr_cc a1) \<le> errors (fr_cc a3)" using nn 5(1) by (simp add: noted_def)
  have e3: "errors (fr_cc a3) \<le> errors (fr_cc b)" using 6 [of "[s]"] by (simp add: inner_def)
  show ?thesis
  proof (rule that [of s])
    show "errors (fr_cc a) \<le> errors (fr_cc b)" using 2(1) e32 e3 by (simp add: a0)
    show "fr_stack b = Sem_sym (Some s) # fr_stack a" using 6 [of "[s]"] st3 by (simp add: a0)
    show "headed token kk child_names s a b"
      unfolding headed_def
    proof (intro allI impI)
    fix decl M p c assume e: "errors (fr_cc b) = 0" and g: "ginv decl [] M p c a" and se: "settled p a" and t: "name_ok token"
    have z: "errors (fr_cc a3) = 0" "errors (fr_cc a1) = 0" using e e3 e32 by simp_all
    have g0: "ginv decl [] M p c a0" "settled p a0" using g se by (simp_all add: a0 settled_def)
    note r1' = 2(3) [OF z(2) g0 t]
    have r1: "name_ok s" "same_scopes a0 a1"
        "(\<exists>c'. ginv decl [] M p c' a1) \<and> info_of (deref (fr_cc a1) s) \<noteq> None \<or> (\<exists>c'. ginv decl [s] M p c' a1)"
      by (rule conjunct1 [OF r1'], rule conjunct1 [OF conjunct2 [OF r1']],
          rule conjunct2 [OF conjunct2 [OF conjunct2 [OF r1']]])
    have s1: "settled p a1" by (rule settled_same [OF r1(2) g0(2)])
    let ?sc = "scope_of (fr_cc a1)"
    have b1: "kids_bounded ?sc (fr_cc a1)" "1 \<le> ?sc" using s1 by (simp_all add: settled_def)
    have b2: "kids_bounded (?sc + 1) (fr_cc a1)" by (rule kids_bounded_mono [OF b1(1)]) simp
    have none: "info_of (deref (fr_cc a2') s) = None" by (rule 5(3) [OF z(1) r1(1)])
    have "\<not> ((\<exists>c'. ginv decl [] M p c' a1) \<and> info_of (deref (fr_cc a1) s) \<noteq> None)"
    proof
      assume A: "(\<exists>c'. ginv decl [] M p c' a1) \<and> info_of (deref (fr_cc a1) s) \<noteq> None"
      then have "shape (fr_cc a1)" by (auto simp: ginv_def Let_def)
      from noted_info [OF nn this b1 conjunct2 [OF A]] none show False by blast
    qed
    then obtain c1 where g1: "ginv decl [s] M p c1 a1" using r1(3) by blast
    have fp2: "fr_parent a2' = Some p" using nn s1 by (simp add: noted_def settled_def)
    have g2: "ginv decl [s] M p c1 a2'" by (rule noted_ginv [OF nn g1 b2 b1(2)])
    have sh1: "shape (fr_cc a1)" using g1 by (simp add: ginv_def Let_def)
    have n2: "kids_bounded (?sc + 1) (fr_cc a2')" "glob (fr_cc a2') = glob (fr_cc a1)" "scope_of (fr_cc a2') = ?sc"
        "filter (\<lambda>t. t \<le> ?sc) (kid_scopes (fr_cc a2') n) = kid_scopes (fr_cc a1) n" for n
      using nn sh1 b2 b1(2) kids_bounded_filter [OF b1(1)] unfolding noted_def by auto
    have r3: "ginv (decl @ [s]) [] M p c1 a3" "kid_scopes (fr_cc a3) = kid_scopes (fr_cc a2')" "kid_scopes (fr_cc a3) s = []"
        "scope_of (fr_cc a3) = scope_of (fr_cc a2')" "kids_of (glob (fr_cc a3)) = (kids_of (glob (fr_cc a2')))(s := kk)"
        "fr_parent a3 = Some p"
      using 5(4) [OF z(1) r1(1) g2 fp2] by blast+
    have "inner (decl @ [s]) a3 b" using 6 [of "decl @ [s]"] by simp
    then obtain c' where g': "ginv (decl @ [s]) [] M p c' b" and fr: "frame a3 b"
      using e r3(1) unfolding inner_def by blast
    have F: "kid_scopes (fr_cc b) = kid_scopes (fr_cc a3)" "scope_of (fr_cc b) = scope_of (fr_cc a3)"
        "kids_of (glob (fr_cc b)) = kids_of (glob (fr_cc a3))" "fr_parent b = fr_parent a3"
      using fr by (simp_all add: frame_def)
    have sc: "scope_of (fr_cc a1) = scope_of (fr_cc a)" "kid_scopes (fr_cc a1) = kid_scopes (fr_cc a)"
        "\<forall>n. kids_of (glob (fr_cc a)) n \<noteq> None \<longrightarrow> kids_of (glob (fr_cc a1)) n \<noteq> None"
      using r1(2) by (simp_all add: same_scopes_def a0)
    have "kids_of (glob (fr_cc a1)) s = None"
      using g1 by (simp add: ginv_def Let_def kids_of_def)
    then have K': "\<forall>n. kids_of (glob (fr_cc a)) n \<noteq> None \<longrightarrow> kids_of (glob (fr_cc b)) n \<noteq> None"
    proof (intro allI impI)
      fix n assume "kids_of (glob (fr_cc a)) n \<noteq> None"
      then have "kids_of (glob (fr_cc a1)) n \<noteq> None" using sc(3) by blast
      moreover from this have "n \<noteq> s" using \<open>kids_of (glob (fr_cc a1)) s = None\<close> by blast
      ultimately show "kids_of (glob (fr_cc b)) n \<noteq> None" using F(3) r3(5) n2(2) by simp
    qed
    have N: "child_names = [] \<Longrightarrow> kid_scopes (fr_cc a2') = kid_scopes (fr_cc a1)"
      using 1(3) 4(2) by simp
    show "name_ok s \<and> fr_parent b = Some p \<and> (\<exists>c'. ginv (decl @ [s]) [] M p c' b) \<and> kids_of (glob (fr_cc b)) s = kk \<and>
      (\<forall>n. kids_of (glob (fr_cc a)) n \<noteq> None \<longrightarrow> kids_of (glob (fr_cc b)) n \<noteq> None) \<and>
      scope_of (fr_cc b) = scope_of (fr_cc a) \<and> kid_scopes (fr_cc b) s = [] \<and>
      kids_bounded (scope_of (fr_cc a) + 1) (fr_cc b) \<and>
      (\<forall>n. filter (\<lambda>t. t \<le> scope_of (fr_cc a)) (kid_scopes (fr_cc b) n) = kid_scopes (fr_cc a) n) \<and>
      (child_names = [] \<longrightarrow> kid_scopes (fr_cc b) = kid_scopes (fr_cc a))"
    proof (intro conjI)
      show "\<exists>c'. ginv (decl @ [s]) [] M p c' b" using g' by blast
    qed (use r1(1) K' F r3 n2 sc N in \<open>simp_all add: kids_bounded_def\<close>)
    qed
  qed
qed

section \<open>Bodies\<close>

lemma act_body_begin_result:
  assumes "act_body_begin a = Inr b" "fr_stack a = Sem_sym (Some s) # S"
  shows "fr_cc b = open_cc (fr_cc a)" "fr_parent b = Some s" "fr_stack b = Sem_sym (fr_parent a) # S" "fr_next_no b = fr_next_no a"
  using assms by (auto simp: act_body_begin_def act_Inr open_cc_def)

lemma act_body_end_result:
  assumes "act_body_end a = Inr b"
  shows "fr_cc b = close_cc (check_child_states_defined (fr_cc a))" "fr_next_no b = fr_next_no a"
    "\<exists>p. fr_stack a = Sem_sym p # fr_stack b \<and> fr_parent b = p"
  using assms by (auto simp: act_body_end_def act_Inr close_cc_def split: if_splits)

lemma close_errors [simp]: "cc_source (close_cc cc) = cc_source cc" "cc_chsm (close_cc cc) = cc_chsm cc"
  by (simp_all add: close_cc_def)

lemma open_errors [simp]: "cc_source (open_cc cc) = cc_source cc" "cc_chsm (open_cc cc) = cc_chsm cc"
  by (simp_all add: open_cc_def)

lemma check_child_keeps:
  "cc_table (check_child_states_defined cc) = cc_table cc" "errors (check_child_states_defined cc) = errors cc"
  "cc_chsm (check_child_states_defined cc) = cc_chsm cc"
proof -
  have "cc_chsm (fold child_message es c) = cc_chsm c" for es c
    by (induction es arbitrary: c) simp_all
  then show "cc_chsm (check_child_states_defined cc) = cc_chsm cc" by (simp add: check_child_states_defined_def)
qed (rule check_child_result)+

text \<open>The body of a parent, between the braces.\<close>

lemma body_result:
  assumes run: "run_all ([act_body_begin] @ fs @ [act_body_end]) a = Inr b" and st: "fr_stack a = Sem_sym (Some s) # S"
    and fs: "\<forall>f \<in> set fs. description_ok f"
  shows "errors (fr_cc a) \<le> errors (fr_cc b)" "fr_stack b = S \<and> fr_parent b = fr_parent a"
    "\<lbrakk>errors (fr_cc b) = 0; ginv decl [] M p c a; kids_of (glob (fr_cc a)) s \<noteq> None; kid_scopes (fr_cc a) s = [];
      kids_bounded (scope_of (fr_cc a) + 1) (fr_cc a); 1 \<le> scope_of (fr_cc a); name_ok s\<rbrakk> \<Longrightarrow>
     (\<exists>decl' c'. ginv decl' [] M p c' b) \<and> scope_of (fr_cc b) = scope_of (fr_cc a) \<and>
     (\<forall>n. kid_scopes (fr_cc b) n = filter (\<lambda>t. t \<le> scope_of (fr_cc a)) (kid_scopes (fr_cc a) n)) \<and>
     (\<forall>n. kids_of (glob (fr_cc a)) n \<noteq> None \<longrightarrow> kids_of (glob (fr_cc b)) n \<noteq> None)"
proof -
  obtain a1 a2 where 1: "act_body_begin a = Inr a1" "run_all fs a1 = Inr a2" "act_body_end a2 = Inr b"
    using run by (auto simp: run_all_append)
  note 2 = act_body_begin_result [OF 1(1) st] and 4 = act_body_end_result [OF 1(3)]
  have "description_ok (run_all fs)" by (rule description_run_all) (use fs in blast)
  then have d: "errors (fr_cc a1) \<le> errors (fr_cc a2) \<and> fr_stack a2 = fr_stack a1 \<and>
     (errors (fr_cc a2) = 0 \<longrightarrow> (\<forall>decl M p c. ginv decl [] M p c a1 \<longrightarrow> settled p a1 \<longrightarrow>
        (\<exists>decl' c'. ginv decl' [] M p c' a2) \<and> same_scopes a1 a2))"
    unfolding description_ok_def using 1(2) by blast
  have e: "errors (fr_cc a1) = errors (fr_cc a)" "errors (fr_cc b) = errors (fr_cc a2)"
    by (simp_all add: 2(1) 4(1) check_child_keeps)
  show "errors (fr_cc a) \<le> errors (fr_cc b)" using d e by simp
  have pb: "fr_parent b = fr_parent a" "fr_stack b = S" using 4(3) d 2(3) by auto
  show "fr_stack b = S \<and> fr_parent b = fr_parent a" using pb by simp
  show "(\<exists>decl' c'. ginv decl' [] M p c' b) \<and> scope_of (fr_cc b) = scope_of (fr_cc a) \<and>
     (\<forall>n. kid_scopes (fr_cc b) n = filter (\<lambda>t. t \<le> scope_of (fr_cc a)) (kid_scopes (fr_cc a) n)) \<and>
     (\<forall>n. kids_of (glob (fr_cc a)) n \<noteq> None \<longrightarrow> kids_of (glob (fr_cc b)) n \<noteq> None)"
    if z: "errors (fr_cc b) = 0" and g: "ginv decl [] M p c a" and K: "kids_of (glob (fr_cc a)) s \<noteq> None"
      and ks: "kid_scopes (fr_cc a) s = []" and bd: "kids_bounded (scope_of (fr_cc a) + 1) (fr_cc a)"
      and sc: "1 \<le> scope_of (fr_cc a)" and nm: "name_ok s"
  proof -
    have o: "glob (fr_cc a1) = glob (fr_cc a)" "kid_scopes (fr_cc a1) = kid_scopes (fr_cc a)"
        "scope_of (fr_cc a1) = scope_of (fr_cc a) + 1" "shape (fr_cc a) \<Longrightarrow> shape (fr_cc a1)"
      using open_view [of "fr_cc a"] by (simp_all add: 2(1))
    have kn: "states_ok (skel_of (glob (fr_cc a))) (kids_of (glob (fr_cc a))) decl [] p (fr_next_no a)"
      using g by (simp add: ginv_def Let_def)
    have g1: "ginv decl [] M s c a1"
      using g states_ok_parent [OF kn K] o unfolding ginv_def Let_def by (simp add: 2)
    have s1: "settled s a1"
      using ks bd nm sc by (simp add: settled_def o(2,3) kids_bounded_def 2(2))
    obtain decl' c' where g2: "ginv decl' [] M s c' a2" and ss: "same_scopes a1 a2"
      using d e(2) z g1 s1 by metis
    have s2: "settled s a2" by (rule settled_same [OF ss s1])
    let ?cc = "check_child_states_defined (fr_cc a2)"
    note sm = same_table [OF check_child_keeps(1) [of "fr_cc a2"]]
    have scc: "scope_of ?cc = scope_of (fr_cc a) + 1"
      using ss o(3) by (simp add: same_scopes_def check_child_keeps(1))
    have sh: "shape ?cc" using g2 sm(4) by (simp add: ginv_def Let_def)
    have kb: "kids_bounded (scope_of ?cc) ?cc"
      using s2 by (simp add: settled_def kids_bounded_def sm(3) check_child_keeps(1))
    note cl = close_view [OF sh kb]
    have l: "1 < scope_of ?cc" using sc scc by simp
    have b: "shape (fr_cc b)" "glob (fr_cc b) = glob (fr_cc a2)" "scope_of (fr_cc b) = scope_of (fr_cc a)"
        "kid_scopes (fr_cc b) n = filter (\<lambda>t. t < scope_of (fr_cc a) + 1) (kid_scopes (fr_cc a2) n)" for n
      using cl [OF l] sm scc by (simp_all add: 4(1))
    have Kp: "kids_of (glob (fr_cc a)) p \<noteq> None" by (rule states_okD(9) [OF kn])
    have mono: "kids_of (glob (fr_cc b)) n \<noteq> None" if "kids_of (glob (fr_cc a)) n \<noteq> None" for n
      using that ss o(1) by (simp add: same_scopes_def b(2))
    have st2: "states_ok (skel_of (glob (fr_cc a2))) (kids_of (glob (fr_cc a2))) decl' [] s (fr_next_no a2)"
      using g2 by (simp add: ginv_def Let_def)
    have "kids_of (glob (fr_cc a2)) p \<noteq> None" using mono [OF Kp] by (simp add: b(2))
    from states_ok_parent [OF st2 this] have "ginv decl' [] M p c' b"
      using g2 b(1,2) 4(2) unfolding ginv_def Let_def by (simp add: 4(1) check_child_keeps)
    moreover have "kid_scopes (fr_cc b) n = filter (\<lambda>t. t \<le> scope_of (fr_cc a)) (kid_scopes (fr_cc a) n)" for n
      using b(4) [of n] ss o(2) by (simp add: same_scopes_def less_Suc_eq_le)
    ultimately show ?thesis using b(3) mono by blast
  qed
qed

section \<open>Descriptions\<close>

lemma plain_description:
  assumes "name_ok token"
  shows "description_ok (act_description (State_description derived token spec))"
  unfolding description_ok_def
proof (intro allI impI)
  fix a b assume run: "act_description (State_description derived token spec) a = Inr b"
  obtain a1 where 1: "run_all ([push_state STATE_MAYBE_CCLASS, act_state_declaration derived token] @ map act_child []
      @ [act_state_end, act_transition_spec_opt spec]) a = Inr a1" "pop_junk a1 = Inr b"
    using run by (auto simp: run_all_append)
  obtain s where h: "errors (fr_cc a) \<le> errors (fr_cc a1)" "fr_stack a1 = Sem_sym (Some s) # fr_stack a"
      "headed token None [] s a a1"
    by (rule heading_result [OF 1(1) state_ends(1)]) simp
  have b: "b = a1 \<lparr> fr_stack := fr_stack a \<rparr>"
    using 1(2) h(2) by (auto simp: pop_junk_def act_Inr)
  show "errors (fr_cc a) \<le> errors (fr_cc b) \<and> fr_stack b = fr_stack a \<and>
     (errors (fr_cc b) = 0 \<longrightarrow> (\<forall>decl M p c. ginv decl [] M p c a \<longrightarrow> settled p a \<longrightarrow>
        (\<exists>decl' c'. ginv decl' [] M p c' b) \<and> same_scopes a b))"
  proof (intro conjI impI allI)
    fix decl M p c assume "errors (fr_cc b) = 0" "ginv decl [] M p c a" "settled p a"
    then have r: "(\<exists>c'. ginv (decl @ [s]) [] M p c' a1) \<and>
      (\<forall>n. kids_of (glob (fr_cc a)) n \<noteq> None \<longrightarrow> kids_of (glob (fr_cc a1)) n \<noteq> None) \<and>
      scope_of (fr_cc a1) = scope_of (fr_cc a) \<and> fr_parent a1 = fr_parent a \<and> kid_scopes (fr_cc a1) = kid_scopes (fr_cc a)"
      using \<open>settled p a\<close> [unfolded settled_def]
        h(3) [unfolded headed_def, rule_format, of decl M p c] assms by (simp add: b)
    show "\<exists>decl' c'. ginv decl' [] M p c' b" using conjunct1 [OF r] by (auto simp: b)
    show "same_scopes a b" using r by (simp add: same_scopes_def b)
  qed (use h b in simp_all)
qed

lemma parent_description:
  assumes run: "run_all ([push_state STATE_MAYBE_CCLASS, act_state_declaration derived token] @ map act_child child_names
      @ [f, act_transition_spec_opt spec] @ [act_body_begin] @ fs @ [act_body_end]) a = Inr b"
    and f: "end_ok (Some (h, [])) f" and fs: "\<forall>f \<in> set fs. description_ok f" and t: "name_ok token"
  shows "errors (fr_cc a) \<le> errors (fr_cc b) \<and> fr_stack b = fr_stack a \<and>
     (errors (fr_cc b) = 0 \<longrightarrow> (\<forall>decl M p c. ginv decl [] M p c a \<longrightarrow> settled p a \<longrightarrow>
        (\<exists>decl' c'. ginv decl' [] M p c' b) \<and> same_scopes a b))"
proof -
  obtain a1 where 1: "run_all ([push_state STATE_MAYBE_CCLASS, act_state_declaration derived token] @ map act_child child_names
      @ [f, act_transition_spec_opt spec]) a = Inr a1" "run_all ([act_body_begin] @ fs @ [act_body_end]) a1 = Inr b"
    using run by (auto simp: run_all_append)
  obtain s where h: "errors (fr_cc a) \<le> errors (fr_cc a1)" "fr_stack a1 = Sem_sym (Some s) # fr_stack a"
      "headed token (Some (h, [])) child_names s a a1"
    by (rule heading_result [OF 1(1) f]) simp
  note B = body_result [OF 1(2) h(2) fs]
  show ?thesis
  proof (intro conjI impI allI)
    show "errors (fr_cc a) \<le> errors (fr_cc b)" "fr_stack b = fr_stack a" using h(1) B(1,2) by simp_all
    fix decl M p c assume z: "errors (fr_cc b) = 0" and g: "ginv decl [] M p c a" and s: "settled p a"
    have z1: "errors (fr_cc a1) = 0" using z B(1) by simp
    note r = h(3) [unfolded headed_def, rule_format, OF z1 g s t]
    from r obtain c' where g1: "ginv (decl @ [s]) [] M p c' a1" by blast
    have r2: "(\<exists>decl' c'. ginv decl' [] M p c' b) \<and> scope_of (fr_cc b) = scope_of (fr_cc a1) \<and>
       (\<forall>n. kid_scopes (fr_cc b) n = filter (\<lambda>t. t \<le> scope_of (fr_cc a1)) (kid_scopes (fr_cc a1) n)) \<and>
       (\<forall>n. kids_of (glob (fr_cc a1)) n \<noteq> None \<longrightarrow> kids_of (glob (fr_cc b)) n \<noteq> None)"
      by (rule B(3) [OF z g1]) (use r s in \<open>simp_all add: settled_def\<close>)
    show "\<exists>decl' c'. ginv decl' [] M p c' b" by (rule conjunct1 [OF r2])
    show "same_scopes a b"
      unfolding same_scopes_def using r r2 s [unfolded settled_def] B(2) by (auto simp: fun_eq_iff)
  qed
qed

fun names_ok :: "description \<Rightarrow> bool" where
  "names_ok (State_description derived token spec) = name_ok token"
| "names_ok (Cluster_description derived token child_names history spec body) = (name_ok token \<and> list_all names_ok body)"
| "names_ok (Set_description derived token child_names spec body) = (name_ok token \<and> list_all names_ok body)"
| "names_ok (Event_description base token params precondition) = True"

theorem act_description_ok: "names_ok d \<Longrightarrow> description_ok (act_description d)"
proof (induction d rule: act_description.induct)
  case (1 derived token spec)
  then show ?case by (intro plain_description) simp
next
  case (2 derived token child_names history spec body)
  show ?case
    unfolding description_ok_def
  proof (intro allI impI)
    fix a b assume "act_description (Cluster_description derived token child_names history spec body) a = Inr b"
    then have "run_all ([push_state STATE_MAYBE_CCLASS, act_state_declaration derived token] @ map act_child child_names
        @ [\<lambda>fr. rbind (act_history_opt history fr) act_cluster_end, act_transition_spec_opt spec] @ [act_body_begin]
        @ map act_description body @ [act_body_end]) a = Inr b"
      by (auto simp: run_all_append rbind_assoc)
    then show "errors (fr_cc a) \<le> errors (fr_cc b) \<and> fr_stack b = fr_stack a \<and>
       (errors (fr_cc b) = 0 \<longrightarrow> (\<forall>decl M p c. ginv decl [] M p c a \<longrightarrow> settled p a \<longrightarrow>
          (\<exists>decl' c'. ginv decl' [] M p c' b) \<and> same_scopes a b))"
      by (rule parent_description [OF _ state_ends(3)]) (use 2 in \<open>auto simp: list_all_iff\<close>)
  qed
next
  case (3 derived token child_names spec body)
  show ?case
    unfolding description_ok_def
  proof (intro allI impI)
    fix a b assume "act_description (Set_description derived token child_names spec body) a = Inr b"
    then have "run_all ([push_state STATE_MAYBE_CCLASS, act_state_declaration derived token] @ map act_child child_names
        @ [act_set_end, act_transition_spec_opt spec] @ [act_body_begin] @ map act_description body @ [act_body_end]) a = Inr b"
      by (simp add: run_all_append)
    then show "errors (fr_cc a) \<le> errors (fr_cc b) \<and> fr_stack b = fr_stack a \<and>
       (errors (fr_cc b) = 0 \<longrightarrow> (\<forall>decl M p c. ginv decl [] M p c a \<longrightarrow> settled p a \<longrightarrow>
          (\<exists>decl' c'. ginv decl' [] M p c' b) \<and> same_scopes a b))"
      by (rule parent_description [OF _ state_ends(2)]) (use 3 in \<open>auto simp: list_all_iff\<close>)
  qed
next
  case (4 base token params precondition)
  then show ?case by (intro event_description_ok)
qed

end
