(* ===== verification/Chsmc_Machine.thy ===== *)
theory Chsmc_Machine
  imports Chsmc_Tree
begin

text \<open>
  The description of a machine as a whole: its heading declares the machine and its root
  cluster, its body adds states, events and transitions.  A description compiled without an
  error leaves tables that satisfy the invariant, with no info of a child left over.
\<close>

section \<open>The heading\<close>

text \<open>Between the name of the machine and its root the machine is the only symbol with an info.\<close>

definition heading :: "sym \<Rightarrow> chsm_info \<Rightarrow> front \<Rightarrow> bool" where
  "heading M c fr \<longleftrightarrow> shape (fr_cc fr) \<and> cc_chsm (fr_cc fr) = Some M \<and>
     glob (fr_cc fr) = (\<lambda>_. None)(M := Some (Chsm_info c)) \<and> kid_scopes (fr_cc fr) = (\<lambda>_. []) \<and>
     scope_of (fr_cc fr) = 0 \<and> known (fr_cc fr) ''root'' \<and> fr_parent fr = None \<and> fr_next_no fr = 0 \<and>
     ch_root c = ''root'' \<and> ch_states c = [] \<and> ch_events c = [] \<and> ch_transitions c = []"

definition heading_act :: "sym \<Rightarrow> act \<Rightarrow> bool" where
  "heading_act M f \<longleftrightarrow> (\<forall>a b. f a = Inr b \<longrightarrow> errors (fr_cc a) \<le> errors (fr_cc b) \<and> fr_stack b = fr_stack a \<and>
     (\<forall>c. heading M c a \<longrightarrow> (\<exists>c'. heading M c' b)))"

lemma heading_upd [simp]:
  "heading M c (fr \<lparr> fr_stack := s \<rparr>) = heading M c fr"
  "heading M c (fr \<lparr> fr_lexer := l \<rparr>) = heading M c fr"
  "heading M c (fr \<lparr> fr_outer_deep := d \<rparr>) = heading M c fr"
  by (simp_all add: heading_def)

lemma heading_run_all: "(\<And>f. f \<in> set fs \<Longrightarrow> heading_act M f) \<Longrightarrow> heading_act M (run_all fs)"
proof (induction fs)
  case Nil
  then show ?case by (auto simp: heading_act_def)
next
  case (Cons f fs)
  have "heading_act M f" "heading_act M (run_all fs)" using Cons by simp_all
  then show ?case
    unfolding heading_act_def run_all.simps rbind_Inr_iff using order_trans by metis
qed

lemma heading_message:
  assumes "\<And>cc. cc_table (f cc) = cc_table cc" "\<And>cc. cc_chsm (f cc) = cc_chsm cc" "\<And>cc. errors cc \<le> errors (f cc)"
  shows "heading_act M (on_cc f)"
  using assms same_table [OF assms(1)] by (auto simp: heading_act_def act_Inr heading_def)

lemma keeps_add_param: "keeps_class (add_param p)"
  unfolding keeps_class_def by (rule allI, case_tac i) simp_all

lemma heading_add_param: "heading_act M (on_cc (set_info n (add_param p)))"
proof -
  have "\<exists>c'. heading M c' (a \<lparr> fr_cc := set_info n (add_param p) (fr_cc a) \<rparr>)" if h: "heading M c a" for a c
  proof -
    have g: "shape (fr_cc a)" using h by (simp add: heading_def)
    note v = set_info_view [OF g keeps_add_param, of n p]
    show ?thesis
    proof (cases "n = M")
      case True
      have "heading M (c \<lparr> ch_params := ch_params c @ [p] \<rparr>) (a \<lparr> fr_cc := set_info n (add_param p) (fr_cc a) \<rparr>)"
        using h v True by (simp add: heading_def)
      then show ?thesis by blast
    next
      case False
      have "heading M c (a \<lparr> fr_cc := set_info n (add_param p) (fr_cc a) \<rparr>)"
        using h v False by (simp add: heading_def fun_upd_idem)
      then show ?thesis by blast
    qed
  qed
  then show ?thesis by (auto simp: heading_act_def act_Inr)
qed

lemma act_parameter_list_heading: "heading_act M (act_parameter_list_opt token)"
proof (cases token)
  case None
  then show ?thesis by (auto simp: act_parameter_list_opt_def heading_act_def act_Inr)
next
  case (Some t)
  have push: "heading_act M (push_params pd params)" for pd params
    unfolding push_params_def
  proof (rule heading_run_all)
    fix f assume "f \<in> set (map (\<lambda>p. the_sym (\<lambda>n. on_cc (set_info n (add_param p))) pd) params)"
    then obtain p where f: "f = the_sym (\<lambda>n. on_cc (set_info n (add_param p))) pd" by auto
    show "heading_act M f"
    proof (cases pd)
      case None
      then show ?thesis by (simp add: f heading_act_def the_sym_def)
    next
      case (Some n)
      then have "f = on_cc (set_info n (add_param p))" by (simp add: f the_sym_def fun_eq_iff)
      then show ?thesis by (simp only: heading_add_param)
    qed
  qed
  have err: "heading_act M (on_cc (error_text what))" for what
    by (rule heading_message) simp_all
  have "(\<exists>pd params. push_params pd params a = Inr b) \<or> (\<exists>what. on_cc (error_text what) a = Inr b)"
    if run: "act_parameter_list t a = Inr b" for a b
  proof -
    obtain pd ps where r: "(case parse_param_list (fr_lang a) ps of Inr params \<Rightarrow> push_params pd params a
        | Inl (Throw what) \<Rightarrow> on_cc (error_text what) a | Inl _ \<Rightarrow> Inl Crash) = Inr b"
      using run by (auto simp: act_parameter_list_def stack_peek_Inr as_value_Inr split: option.splits)
    then show ?thesis
    proof (cases "parse_param_list (fr_lang a) ps")
      case (Inl e)
      with r show ?thesis by (cases e) auto
    next
      case (Inr params)
      with r show ?thesis by auto
    qed
  qed
  then show ?thesis
    using push err unfolding Some act_parameter_list_opt_def option.case heading_act_def by meson
qed

lemma act_chsm_declare_result:
  assumes run: "act_chsm_declare a = Inr b"
    and a: "fr_stack a = Sem_sym (Some M) # Sem_str d # Sem_int i # S"
      "shape (fr_cc a)" "\<And>n. glob (fr_cc a) n = None" "kid_scopes (fr_cc a) = (\<lambda>_. [])" "scope_of (fr_cc a) = 0"
      "known (fr_cc a) M" "fr_parent a = None" "fr_next_no a = 0"
  shows "errors (fr_cc b) = errors (fr_cc a) \<and> (\<exists>pd. fr_stack b = Sem_params pd # Sem_sym (Some M) # S) \<and> (\<exists>c. heading M c b)"
proof -
  let ?c1 = "compiler_emplace ''root'' (fr_cc a)"
  let ?c = "chsm_info_ctor ''root'' d False"
  let ?c2 = "insert_new M (\<lambda>line. global_info_ctor line (Chsm_info ?c)) ?c1"
  let ?c3 = "?c2 \<lparr> cc_chsm := Some M \<rparr>"
  obtain l pd where b: "b = a \<lparr> fr_cc := ?c3, fr_stack := Sem_params pd # Sem_sym (Some M) # S, fr_lexer := l \<rparr>"
    using run a(1) by (auto simp: act_chsm_declare_def act_Inr dest!: lexer_states)
  have 1: "shape ?c1" "glob ?c1 = glob (fr_cc a)" "kid_scopes ?c1 = kid_scopes (fr_cc a)" "known ?c1 M" "known ?c1 ''root''"
    using emplace_view [where cc = "fr_cc a" and n = "''root''"] a(2,6) by simp_all
  have 2: "shape ?c2 \<and> glob ?c2 = (glob ?c1)(M := Some (Chsm_info ?c)) \<and> kid_scopes ?c2 = kid_scopes ?c1"
    using insert_new_view(1) [OF 1(1,4), where i = "Chsm_info ?c"] 1(2) a(3) by simp
  have k2: "known ?c2 = known ?c1"
    by (rule insert_new_view(3) [OF 1(1,4) refl])
  note 3 = same_table [of ?c3 ?c2, simplified]
  have "heading M ?c b"
    using 1 2 3 k2 a by (auto simp: heading_def b chsm_info_ctor_def fun_eq_iff)
  then show ?thesis by (auto simp: b)
qed

lemma check_chsm_params_heading: "heading_act M (check_chsm_params n)"
proof -
  have err: "heading_act M (on_cc (error_text t))" for t by (rule heading_message) simp_all
  have skip: "heading_act M skip" by (simp add: heading_act_def act_Inr)
  have "(\<exists>t. on_cc (error_text t) a = Inr b) \<or> skip a = Inr b" if "check_chsm_params n a = Inr b" for a b
    using that by (auto simp: check_chsm_params_def with_CHSM_Inr skip_Inr split: option.splits if_splits)
  then show ?thesis
    using err skip unfolding heading_act_def by meson
qed

lemma act_chsm_params_end_result:
  assumes run: "act_chsm_params_end a = Inr b" and a: "fr_stack a = Sem_params pd # Sem_sym (Some M') # S"
  shows "errors (fr_cc a) \<le> errors (fr_cc b) \<and>
    (\<forall>c. heading M c a \<longrightarrow> fr_stack b = Sem_sym (Some ''root'') # S \<and> (\<exists>c'. heading M c' b))"
proof -
  obtain l n a2 c where 1: "check_chsm_params n (a \<lparr> fr_lexer := l, fr_stack := Sem_sym (Some M') # S \<rparr>) = Inr a2"
      and r: "run_all [pop_junk, with_CHSM (\<lambda>c. PUSH_SYMBOL (Some (ch_root c)))] a2 = Inr b"
    using run a by (auto simp: act_chsm_params_end_def stack_pop_Inr as_value_Inr the_sym_Inr dest!: lexer_states)
  have 2: "errors (fr_cc a) \<le> errors (fr_cc a2)" "fr_stack a2 = Sem_sym (Some M') # S"
      "heading M c a \<Longrightarrow> \<exists>c'. heading M c' a2" for c
    using check_chsm_params_heading [of M n] 1 unfolding heading_act_def by fastforce+
  obtain c where 3: "CHSM (fr_cc a2) = Some c" "b = a2 \<lparr> fr_stack := Sem_sym (Some (ch_root c)) # S \<rparr>"
    using r 2(2) by (auto simp: pop_junk_def act_Inr)
  have "ch_root c = ''root''" if h: "heading M c' a2" for c'
  proof (rule CHSM_front [OF _ 3(1)])
    show "shape (fr_cc a2)" using h by (simp add: heading_def)
    fix M1 assume "cc_chsm (fr_cc a2) = Some M1" "glob (fr_cc a2) M1 = Some (Chsm_info c)"
    then show "ch_root c = ''root''" using h by (simp add: heading_def)
  qed
  then show ?thesis using 2 3(2) by (auto simp: 3(2))
qed

text \<open>The root, the first state of the machine.\<close>

lemma root_states_ok:
  "states_ok ((\<lambda>_. None)(''root'' := Some (None, 0, False))) ((\<lambda>_. None)(''root'' := Some (False, []))) [] [] ''root'' 1"
  by (rule states_okI) (auto split: if_splits)

lemma act_root_result:
  assumes run: "act_root a = Inr b" and a: "fr_stack a = Sem_int i # S"
  shows "errors (fr_cc b) = errors (fr_cc a) \<and> fr_stack b = S \<and> (\<forall>c. heading M c a \<longrightarrow> M \<noteq> ''root'' \<longrightarrow>
    (\<exists>c'. ginv [] [] M ''root'' c' b) \<and> kid_scopes (fr_cc b) = (\<lambda>_. []) \<and> scope_of (fr_cc b) = 0 \<and> fr_parent b = None)"
proof -
  obtain c where 1: "CHSM (fr_cc a) = Some c"
    "insert_state_info (ch_root c) None None (\<lambda>k. Cluster_info k [] (i \<noteq> 0)) (a \<lparr> fr_stack := S \<rparr>) = Inr b"
    using run a by (auto simp: act_root_def act_Inr)
  let ?i = "Cluster_info (state_info_ctor None None (fr_next_no a)) [] (i \<noteq> 0)"
  have b: "b = a \<lparr> fr_stack := S, fr_cc := insert_new (ch_root c) (\<lambda>line. global_info_ctor line ?i) (fr_cc a),
      fr_next_no := fr_next_no a + 1 \<rparr>"
    using 1(2) by (simp add: insert_state_info_def)
  have "(\<exists>c'. ginv [] [] M ''root'' c' b) \<and> kid_scopes (fr_cc b) = (\<lambda>_. []) \<and> scope_of (fr_cc b) = 0 \<and> fr_parent b = None"
    if h: "heading M c' a" and M: "M \<noteq> ''root''" for c'
  proof -
    have g: "shape (fr_cc a)" and kn: "known (fr_cc a) ''root''" using h by (simp_all add: heading_def)
    have "c = c'"
    proof (rule CHSM_front [OF g 1(1)])
      fix M1 assume "cc_chsm (fr_cc a) = Some M1" "glob (fr_cc a) M1 = Some (Chsm_info c)"
      then show "c = c'" using h by (simp add: heading_def)
    qed
    then have root: "ch_root c = ''root''" using h by (simp add: heading_def)
    have G: "glob (fr_cc a) = (\<lambda>_. None)(M := Some (Chsm_info c'))" using h by (simp add: heading_def)
    have v: "shape (fr_cc b) \<and> glob (fr_cc b) = (glob (fr_cc a))(''root'' := Some ?i) \<and> kid_scopes (fr_cc b) = kid_scopes (fr_cc a)"
      using insert_new_view(1) [OF g kn, where i = ?i] G M by (simp add: b root)
    have S: "skel_of (glob (fr_cc b)) = (\<lambda>_. None)(''root'' := Some (None, 0, False))"
        "kids_of (glob (fr_cc b)) = (\<lambda>_. None)(''root'' := Some (False, []))" "event_at (glob (fr_cc b)) = (\<lambda>_. None)"
      using v G h by (auto simp: skel_of_def kids_of_def event_at_def fun_eq_iff state_skel_def state_info_ctor_def heading_def)
    have "event_table_ok (\<lambda>_. None) [] 0" by (simp add: event_table_ok_def)
    moreover have "glob (fr_cc b) M = Some (Chsm_info c')" using v G M by simp
    moreover have "cc_chsm (fr_cc b) = Some M" using h by (simp add: b heading_def)
    ultimately have "ginv [] [] M ''root'' c' b"
      using v h root_states_ok unfolding ginv_def Let_def S by (simp add: heading_def b)
    then show ?thesis using v h by (auto simp: b heading_def)
  qed
  then show ?thesis by (auto simp: b)
qed

section \<open>From the first token to the last\<close>

lemma empty_view: "shape cc" "glob cc n = None" "kid_scopes cc n = []" if "cc_table cc = empty_table"
proof -
  have v: "view cc n = []" for n
    using that by (simp add: view_def deref_def find_sym_def empty_table_def symbol_ctor_def)
  show "shape cc" using that by (simp add: shape_def v table_ok_empty infos_ok_def scopes_descend_def others_def)
  show "glob cc n = None" "kid_scopes cc n = []" by (simp_all add: glob_def kid_scopes_def v others_def)
qed

lemma heading_of_machine:
  assumes "run_all [act_public_opt public, push_state STATE_MAYBE_CCLASS, act_derived_class_spec_opt derived,
      act_identifier M, act_chsm_declare, act_parameter_list_opt params, act_chsm_params_end, act_history_opt h, act_root]
      (front_init l cf path) = Inr b"
  shows "M \<noteq> ''root'' \<Longrightarrow> fr_stack b = [Sem_sym (Some ''root'')] \<and> (\<exists>c. ginv [] [] M ''root'' c b) \<and>
    kid_scopes (fr_cc b) = (\<lambda>_. []) \<and> scope_of (fr_cc b) = 0 \<and> fr_parent b = None"
proof -
  let ?f = "front_init l cf path"
  obtain a1 a2 a3 a4 a5 a6 a7 a8 where 1: "act_public_opt public ?f = Inr a1" "push_state STATE_MAYBE_CCLASS a1 = Inr a2"
      "act_derived_class_spec_opt derived a2 = Inr a3" "act_identifier M a3 = Inr a4" "act_chsm_declare a4 = Inr a5"
      "act_parameter_list_opt params a5 = Inr a6" "act_chsm_params_end a6 = Inr a7" "act_history_opt h a7 = Inr a8" "act_root a8 = Inr b"
    using assms by auto
  have "\<exists>i. fr_stack a1 = [Sem_int i] \<and> cc_table (fr_cc a1) = empty_table \<and> fr_parent a1 = None \<and> fr_next_no a1 = 0"
    using 1(1) by (auto simp: act_public_opt_def act_Inr front_init_def split: if_splits)
  then obtain i where 2: "fr_stack a1 = [Sem_int i]" "cc_table (fr_cc a1) = empty_table" "fr_parent a1 = None" "fr_next_no a1 = 0"
    by blast
  obtain d lx where 3: "a3 = a1 \<lparr> fr_lexer := lx, fr_stack := [Sem_str d, Sem_int i] \<rparr>"
    using 1(2,3) 2(1) by (auto simp: act_derived_class_spec_opt_def act_Inr dest!: lexer_states)
  have 4: "fr_stack a4 = [Sem_sym (Some M), Sem_str d, Sem_int i]" "fr_cc a4 = compiler_emplace M (fr_cc a1)"
      "fr_parent a4 = None" "fr_next_no a4 = 0"
    using 1(4) 2(3,4) by (auto simp: act_identifier_def act_Inr 3)
  note e = empty_view [OF 2(2)]
  have 5: "errors (fr_cc a5) = errors (fr_cc a4) \<and> (\<exists>pd. fr_stack a5 = [Sem_params pd, Sem_sym (Some M)]) \<and> (\<exists>c. heading M c a5)"
    by (rule act_chsm_declare_result [OF 1(5) 4(1)])
      (use e 2(2) in \<open>simp_all add: 4 emplace_view fun_eq_iff, simp add: empty_table_def\<close>)
  then obtain pd c5 where 5: "fr_stack a5 = [Sem_params pd, Sem_sym (Some M)]" "heading M c5 a5" by blast
  obtain c6 where 6: "fr_stack a6 = [Sem_params pd, Sem_sym (Some M)]" "heading M c6 a6"
    using act_parameter_list_heading [of M params] 1(6) 5 unfolding heading_act_def by fastforce
  obtain c7 where 7: "fr_stack a7 = [Sem_sym (Some ''root'')]" "heading M c7 a7"
    using act_chsm_params_end_result [OF 1(7) 6(1)] 6(2) by blast
  obtain i' where 8: "fr_stack a8 = [Sem_int i', Sem_sym (Some ''root'')]" "heading M c7 a8"
  proof -
    obtain i' where "fr_stack a8 = Sem_int i' # fr_stack a7" using act_history_noted [OF 1(8)] by blast
    moreover have "heading M c7 a8"
      using 1(8) 7(2) by (cases h) (auto simp: act_Inr act_deep_def split: option.splits)
    ultimately show ?thesis using that 7(1) by simp
  qed
  show "M \<noteq> ''root'' \<Longrightarrow> fr_stack b = [Sem_sym (Some ''root'')] \<and> (\<exists>c. ginv [] [] M ''root'' c b) \<and>
    kid_scopes (fr_cc b) = (\<lambda>_. []) \<and> scope_of (fr_cc b) = 0 \<and> fr_parent b = None"
    using act_root_result [OF 1(9) 8(1)] 8(2) by blast
qed

lemma act_enter_exit_actions_root:
  assumes "run_all (map act_enter_exit_action as) a = Inr b" "fr_stack a = Sem_sym (Some s) # S"
  shows "inner decl a b \<and> fr_stack b = fr_stack a"
  by (rule run_all_on_state [OF assms]) (use act_enter_exit_action_inner in auto)

text \<open>At the root \<^verbatim>\<open>close_scope\<close> does nothing: the scope is the outermost one.\<close>

lemma run_all_append_Inr: "run_all (fs @ gs) a = Inr b \<longleftrightarrow> (\<exists>c. run_all fs a = Inr c \<and> run_all gs c = Inr b)"
  by (simp only: run_all_append rbind_Inr_iff)

theorem machine_tables:
  assumes run: "act_chsm_description d (front_init l cf path) = Inr fr" and e: "errors (fr_cc fr) = 0"
    and M: "cd_name d \<noteq> ''root''" and names: "list_all names_ok (cd_body d)"
  shows "\<exists>decl c. ginv decl [] (cd_name d) ''root'' c fr \<and> kid_scopes (fr_cc fr) = (\<lambda>_. [])"
proof -
  obtain a1 a2 a3 a4 where 1: "run_all [act_public_opt (cd_public d), push_state STATE_MAYBE_CCLASS,
      act_derived_class_spec_opt (cd_derived d), act_identifier (cd_name d), act_chsm_declare,
      act_parameter_list_opt (cd_params d), act_chsm_params_end, act_history_opt (cd_history d), act_root]
      (front_init l cf path) = Inr a1"
    and 2: "run_all (map act_enter_exit_action (cd_actions d)) a1 = Inr a2" "run_all [act_body_begin] a2 = Inr a3"
      "run_all (map act_description (cd_body d)) a3 = Inr a4" "run_all [act_body_end] a4 = Inr fr"
    using run unfolding act_chsm_description_def run_all_append_Inr by blast
  have 2: "run_all (map act_enter_exit_action (cd_actions d)) a1 = Inr a2" "act_body_begin a2 = Inr a3"
      "run_all (map act_description (cd_body d)) a3 = Inr a4" "act_body_end a4 = Inr fr"
    using 2 by simp_all
  obtain c1 where h: "fr_stack a1 = [Sem_sym (Some ''root'')]" "ginv [] [] (cd_name d) ''root'' c1 a1"
      "kid_scopes (fr_cc a1) = (\<lambda>_. [])" "scope_of (fr_cc a1) = 0"
    using heading_of_machine [OF 1 M] by blast
  have i: "inner [] a1 a2" "fr_stack a2 = [Sem_sym (Some ''root'')]"
    using act_enter_exit_actions_root [OF 2(1) h(1)] h(1) by simp_all
  note b = act_body_begin_result [OF 2(2) i(2)] and x = act_body_end_result [OF 2(4)]
  have "description_ok (run_all (map act_description (cd_body d)))"
    by (rule description_run_all) (use names act_description_ok in \<open>auto simp: list_all_iff\<close>)
  then have D: "errors (fr_cc a3) \<le> errors (fr_cc a4) \<and> fr_stack a4 = fr_stack a3 \<and>
     (errors (fr_cc a4) = 0 \<longrightarrow> (\<forall>decl M p c. ginv decl [] M p c a3 \<longrightarrow> settled p a3 \<longrightarrow>
        (\<exists>decl' c'. ginv decl' [] M p c' a4) \<and> same_scopes a3 a4))"
    unfolding description_ok_def using 2(3) by blast
  have e4: "errors (fr_cc a4) = 0" using e by (simp add: x(1) check_child_keeps)
  have e2: "errors (fr_cc a2) = 0" using D e4 by (simp add: b(1))
  obtain c2 where g2: "ginv [] [] (cd_name d) ''root'' c2 a2" and fr2: "frame a1 a2"
    using i(1) e2 h(2) unfolding inner_def by blast
  have k2: "kid_scopes (fr_cc a2) = (\<lambda>_. [])" "scope_of (fr_cc a2) = 0" using fr2 h(3,4) by (simp_all add: frame_def)
  note o = open_view [of "fr_cc a2"]
  have g3: "ginv [] [] (cd_name d) ''root'' c2 a3"
    using g2 o unfolding ginv_def Let_def by (elim conjE) (simp add: b)
  have s3: "settled ''root'' a3"
    by (simp add: settled_def b o(3,4) k2 kids_bounded_def name_ok_def)
  obtain decl c4 where g4: "ginv decl [] (cd_name d) ''root'' c4 a4" and ss: "same_scopes a3 a4"
    using D e4 g3 s3 by metis
  have sc4: "scope_of (fr_cc a4) = 1" "kid_scopes (fr_cc a4) = (\<lambda>_. [])"
    using ss by (simp_all add: same_scopes_def b o(3,4) k2)
  have t: "cc_table (fr_cc fr) = cc_table (fr_cc a4)"
    using sc4(1) by (simp add: x(1) close_cc_def close_scope_def check_child_keeps)
  note sm = same_table [OF t]
  have "ginv decl [] (cd_name d) ''root'' c4 fr"
    using g4 sm unfolding ginv_def Let_def by (simp add: x(1,2) check_child_keeps)
  then show ?thesis using sm(3) sc4(2) by auto
qed

end
