(* ===== verification/Chsmc_Program.thy ===== *)
theory Chsmc_Program
  imports Chsmc_Machine Chsm_Events
begin

text \<open>
  Where the compiler meets the run-time library: the machine that the initializers of
  \<^verbatim>\<open>chsmc/cpp_generator.cpp\<close> build from the compiler's tables, as the record of tables
  the model of the library runs on.  The user's code is a parameter, found under the names and
  numbers the generator gives it.  A description that passes the checks compiles to a machine
  whose tables satisfy everything the library relies on.
\<close>

section \<open>The tables of the generated machine\<close>

record ('u, 'p) user_code =
  uc_enter :: "sym \<Rightarrow> sptr \<Rightarrow> eptr \<Rightarrow> ('u, 'p) mstate \<Rightarrow> ('u, 'p) code"
  uc_exit :: "sym \<Rightarrow> sptr \<Rightarrow> eptr \<Rightarrow> ('u, 'p) mstate \<Rightarrow> ('u, 'p) code"
  uc_condition :: "nat \<Rightarrow> event_id \<Rightarrow> ('u, 'p) mstate \<Rightarrow> bool outcome"
  uc_target :: "nat \<Rightarrow> event_id \<Rightarrow> ('u, 'p) mstate \<Rightarrow> (sptr option) outcome"
  uc_action :: "nat \<Rightarrow> event_id \<Rightarrow> ('u, 'p) mstate \<Rightarrow> ('u, 'p) code"
  uc_precondition :: "sym \<Rightarrow> 'p \<Rightarrow> ('u, 'p) mstate \<Rightarrow> bool outcome"

text \<open>The position of a name: \<^verbatim>\<open>state_[i] = &name\<close>, and the order of the event members.\<close>

definition position :: "sym list \<Rightarrow> sym \<Rightarrow> nat" where
  "position xs x = length (takeWhile (\<lambda>y. y \<noteq> x) xs)"

definition infos :: "compiler \<Rightarrow> sym \<Rightarrow> info option" where
  "infos cc n = map_option si_info (info_of (deref cc n))"

text \<open>\<^verbatim>\<open>&root\<close>, \<^verbatim>\<open>nullptr\<close>, or the object of the enclosing state.\<close>

definition parent_init :: "chsm_info \<Rightarrow> state_info \<Rightarrow> sptr option" where
  "parent_init c s = (case st_parent s of
     None \<Rightarrow> None
   | Some q \<Rightarrow> Some (if q = ch_root c then Root else St (position (ch_states c) q)))"

definition event_pointer :: "chsm_info \<Rightarrow> bool \<Rightarrow> string \<Rightarrow> sym \<Rightarrow> event_id option" where
  "event_pointer c has kind n = (if has then Some (position (ch_events c)
       (kind @ (case mangle n of Some m \<Rightarrow> m | None \<Rightarrow> []))) else None)"

text \<open>The numbers the run-time library reads: up to the sentinel.\<close>

definition number_table :: "stop + int list \<Rightarrow> nat list" where
  "number_table r = (case r of Inr is \<Rightarrow> map nat (takeWhile (\<lambda>i. i \<noteq> -1) is) | Inl _ \<Rightarrow> [])"

definition kind_init :: "compiler \<Rightarrow> info \<Rightarrow> kind" where
  "kind_init cc i = (case i of
     Cluster_info _ cs h \<Rightarrow> Cluster h (number_table (serials cc cs))
   | Set_info _ cs \<Rightarrow> Set (number_table (serials cc cs))
   | _ \<Rightarrow> Plain)"

definition state_object :: "('u, 'p) user_code \<Rightarrow> compiler \<Rightarrow> chsm_info \<Rightarrow> sym \<Rightarrow> ('u, 'p) state_desc" where
  "state_object U cc c n = (case infos cc n of
     Some i \<Rightarrow> (case as_state i of Some s \<Rightarrow> \<lparr>
       sd_name = n, sd_parent = parent_init c s, sd_kind = kind_init cc i,
       sd_enter_action = (if st_action_enter s then Some (uc_enter U n) else None),
       sd_exit_action = (if st_action_exit s then Some (uc_exit U n) else None),
       sd_enter_event = event_pointer c (st_event_enter s) PREFIX_ENTER n,
       sd_exit_event = event_pointer c (st_event_exit s) PREFIX_EXIT n \<rparr>
     | None \<Rightarrow> \<lparr> sd_name = n, sd_parent = None, sd_kind = Plain, sd_enter_action = None,
         sd_exit_action = None, sd_enter_event = None, sd_exit_event = None \<rparr>)
   | None \<Rightarrow> \<lparr> sd_name = n, sd_parent = None, sd_kind = Plain, sd_enter_action = None,
         sd_exit_action = None, sd_enter_event = None, sd_exit_event = None \<rparr>)"

definition state_number :: "compiler \<Rightarrow> sym option \<Rightarrow> state_id option" where
  "state_number cc sy = (case serial cc sy of Inr i \<Rightarrow> if i = -1 then None else Some (nat i) | Inl _ \<Rightarrow> None)"

definition code_member :: "nat \<Rightarrow> (nat \<Rightarrow> 'a) \<Rightarrow> 'a option" where
  "code_member i f = (if i > 0 then Some (f i) else None)"

definition transition_row :: "('u, 'p) user_code \<Rightarrow> compiler \<Rightarrow> transition_info \<Rightarrow> ('u, 'p) transition" where
  "transition_row U cc t = \<lparr>
     tr_condition = code_member (ti_condition_id t) (uc_condition U),
     tr_from = (case state_number cc (Some (ti_from t)) of Some i \<Rightarrow> i | None \<Rightarrow> 0),
     tr_to = state_number cc (ti_to t),
     tr_target = code_member (ti_target_id t) (uc_target U),
     tr_action = code_member (ti_action_id t) (uc_action U) \<rparr>"

text \<open>\<^verbatim>\<open>param_block::precondition\<close> is virtual: an event with a condition of its own asks that of
  its base first, one without inherits it.  The bound is the number of symbols.\<close>

fun precondition_of :: "nat \<Rightarrow> ('u, 'p) user_code \<Rightarrow> compiler \<Rightarrow> sym \<Rightarrow> 'p \<Rightarrow> ('u, 'p) mstate \<Rightarrow> bool outcome" where
  "precondition_of 0 U cc n = (\<lambda>_ _. Returned True)"
| "precondition_of (Suc b) U cc n = (case Option.bind (infos cc n) as_user_event of
     None \<Rightarrow> (\<lambda>_ _. Returned True)
   | Some u \<Rightarrow> (let inherited = (case ue_base u of None \<Rightarrow> (\<lambda>_ _. Returned True) | Some q \<Rightarrow> precondition_of b U cc q)
       in if ue_precondition u = PRECONDITION_NONE then inherited
          else (\<lambda>p m. case inherited p m of Returned True \<Rightarrow> uc_precondition U n p m | r \<Rightarrow> r)))"

definition event_object :: "('u, 'p) user_code \<Rightarrow> compiler \<Rightarrow> chsm_info \<Rightarrow> sym \<Rightarrow> ('u, 'p) event_desc" where
  "event_object U cc c n = (let ue = Option.bind (infos cc n) as_user_event in \<lparr>
     ed_name = n,
     ed_base = (case ue of Some u \<Rightarrow> map_option (position (ch_events c)) (ue_base u) | None \<Rightarrow> None),
     ed_transitions = (case Option.bind (infos cc n) as_event of
         Some e \<Rightarrow> number_table (Inr (ev_transition_ids e)) | None \<Rightarrow> []),
     ed_precondition = precondition_of (depth_bound cc) U cc n \<rparr>)"

definition program_of :: "('u, 'p) user_code \<Rightarrow> compiler \<Rightarrow> chsm_info \<Rightarrow> ('u, 'p) program" where
  "program_of U cc c = \<lparr>
     p_root = state_object U cc c (ch_root c),
     p_states = map (state_object U cc c) (ch_states c),
     p_transitions = map (transition_row U cc) (ch_transitions c),
     p_events = map (event_object U cc c) (ch_events c) \<rparr>"

section \<open>Positions\<close>

lemma position_less_nth: "x \<in> set xs \<Longrightarrow> position xs x < length xs \<and> xs ! position xs x = x"
  by (induction xs) (auto simp: position_def)

lemmas position_less = position_less_nth [THEN conjunct1] and position_nth = position_less_nth [THEN conjunct2]

lemma nth_position: "distinct xs \<Longrightarrow> i < length xs \<Longrightarrow> position xs (xs ! i) = i"
  by (metis nth_eq_iff_index_eq nth_mem position_less position_nth)

lemma position_take: "x \<in> set (take i xs) \<Longrightarrow> position xs x < i"
proof (induction xs arbitrary: i)
  case (Cons y xs)
  then show ?case by (cases i) (auto simp: position_def)
qed (simp add: position_def)

section \<open>What the tables of a checked description satisfy\<close>

definition skel0 :: "globals \<Rightarrow> sym \<Rightarrow> (sym option \<times> nat \<times> bool) option" where
  "skel0 G n = map_option (\<lambda>s. (st_parent s, st_serial s, False)) (Option.bind (G n) as_state)"

definition flags_ok :: "globals \<Rightarrow> sym list \<Rightarrow> bool" where
  "flags_ok G evs \<longleftrightarrow> (\<forall>n s. Option.bind (G n) as_state = Some s \<longrightarrow>
     (st_event_enter s \<longrightarrow> (\<exists>m. mangle n = Some m \<and> PREFIX_ENTER @ m \<in> set evs)) \<and>
     (st_event_exit s \<longrightarrow> (\<exists>m. mangle n = Some m \<and> PREFIX_EXIT @ m \<in> set evs)))"

definition compiled :: "compiler \<Rightarrow> chsm_info \<Rightarrow> sym list \<Rightarrow> bool" where
  "compiled cc c decl \<longleftrightarrow> CHSM cc = Some c \<and> ch_root c = ''root'' \<and> ch_states c = decl \<and>
     states_ok (skel0 (infos cc)) (kids_of (infos cc)) decl [] ''root'' (length decl + 1) \<and>
     event_table_ok (event_at (infos cc)) (ch_events c) (length (ch_transitions c)) \<and>
     (\<forall>t \<in> set (ch_transitions c). ti_from t \<in> set decl) \<and> flags_ok (infos cc) (ch_events c)"

lemma INFO_infos: "INFO as_type cc (Some n) = Option.bind (infos cc n) as_type"
  by (cases "info_of (deref cc n)") (simp_all add: INFO_def info_helper_def infos_def del: info_of_simps)

lemma CHSM_infos: "CHSM cc = Option.bind (cc_chsm cc) (\<lambda>M. Option.bind (infos cc M) as_chsm)"
  by (cases "cc_chsm cc") (simp_all add: CHSM_def INFO_infos, simp add: INFO_def info_helper_def)

lemma skel_unflagged:
  assumes "states_ok (skel_of G) K decl [] p k"
  shows "skel0 G = skel_of G" "Option.bind (G n) as_state = Some s \<Longrightarrow> \<not> st_event_enter s \<and> \<not> st_event_exit s"
proof -
  note D = states_okD [OF assms]
  have "\<exists>q i. skel_of G n = Some (q, i, False)" if n: "skel_of G n \<noteq> None" for n
  proof (cases "n = ''root''")
    case True
    then show ?thesis using D(2) by simp
  next
    case False
    then have "n \<in> set decl" using D(6) [OF n] by simp
    then obtain i where i: "i < length decl" "decl ! i = n" by (auto simp: in_set_conv_nth)
    then show ?thesis using D(4) [OF i(1)] by blast
  qed
  then have f: "\<not> st_event_enter s \<and> \<not> st_event_exit s" if "Option.bind (G n) as_state = Some s" for n s
    using that by (fastforce simp: skel_of_def state_skel_def)
  show "skel0 G = skel_of G"
  proof
    fix n show "skel0 G n = skel_of G n"
      using f [of n] by (cases "Option.bind (G n) as_state") (simp_all add: skel0_def skel_of_def state_skel_def)
  qed
  show "Option.bind (G n) as_state = Some s \<Longrightarrow> \<not> st_event_enter s \<and> \<not> st_event_exit s"
    by (rule f)
qed

lemma infos_glob: "shape cc \<Longrightarrow> kid_scopes cc = (\<lambda>_. []) \<Longrightarrow> infos cc = glob cc"
  unfolding infos_def by (rule ext, rule front_info(2)) simp_all

lemma compiled_front:
  assumes g: "ginv decl [] M ''root'' c fr" and k: "kid_scopes (fr_cc fr) = (\<lambda>_. [])"
  shows "compiled (fr_cc fr) c decl"
proof -
  let ?G = "glob (fr_cc fr)"
  have s: "shape (fr_cc fr)" "cc_chsm (fr_cc fr) = Some M" "?G M = Some (Chsm_info c)" "ch_root c = ''root''"
      "ch_states c = decl" "states_ok (skel_of ?G) (kids_of ?G) decl [] ''root'' (fr_next_no fr)"
      "event_table_ok (event_at ?G) (ch_events c) (length (ch_transitions c))" "\<forall>t \<in> set (ch_transitions c). ti_from t \<in> set decl"
    using g unfolding ginv_def Let_def append_Nil2 by blast+
  have n: "fr_next_no fr = length decl + 1" using s(6) by (simp add: states_ok_def)
  have "flags_ok ?G (ch_events c)"
    unfolding flags_ok_def using skel_unflagged(2) [OF s(6)] by blast
  then show ?thesis
    using s n by (simp add: compiled_def infos_glob [OF s(1) k] CHSM_infos skel_unflagged(1) [OF s(6)])
qed

lemma compiled_same:
  assumes "same_infos cc cc'" "compiled cc c decl"
  shows "compiled cc' c decl"
proof -
  have "infos cc' = infos cc" "cc_chsm cc' = cc_chsm cc"
    using assms(1) by (simp_all add: same_infos_def infos_def info_of_def ith_info_nth fun_eq_iff)
  then show ?thesis using assms(2) by (simp add: compiled_def CHSM_infos)
qed

text \<open>The checks leave the infos alone.\<close>

lemma check_transition_infos: "check_transition t cc = Inr cc' \<Longrightarrow> same_infos cc cc'"
  by (auto simp: check_transition_def same_infos_def emplace_infos Let_def split: option.splits if_splits)

lemma same_infos_trans: "same_infos a b \<Longrightarrow> same_infos b c \<Longrightarrow> same_infos a c"
  by (simp add: same_infos_def)

lemma iter_check_infos: "iter_res check_transition ts cc = Inr cc' \<Longrightarrow> same_infos cc cc'"
proof (induction ts arbitrary: cc)
  case (Cons t ts)
  then obtain c1 where "check_transition t cc = Inr c1" "iter_res check_transition ts c1 = Inr cc'" by auto
  then show ?case using Cons.IH check_transition_infos same_infos_trans by blast
qed (simp add: same_infos_def)

lemma event_pass: "cc_table (check_events_used cc) = cc_table cc \<and> cc_chsm (check_events_used cc) = cc_chsm cc"
proof -
  have "cc_table (fold event_message es c) = cc_table c \<and> cc_chsm (fold event_message es c) = cc_chsm c" for es c
    by (induction es arbitrary: c) simp_all
  then show ?thesis by (simp add: check_events_used_def split: option.split)
qed

lemma checked_infos:
  assumes "checked fr = Inr cc"
  shows "same_infos (fr_cc fr) cc"
proof -
  let ?c2 = "check_events_used (check_states_defined (fr_cc fr))"
  have t: "cc_table ?c2 = cc_table (fr_cc fr)" "cc_chsm ?c2 = cc_chsm (fr_cc fr)"
    using event_pass check_states_result by simp_all
  have "same_infos (fr_cc fr) ?c2"
    using deref_cong [OF t(1)] t(2) by (simp add: same_infos_def)
  moreover have "same_infos ?c2 cc"
    using assms iter_check_infos unfolding checked_def check_transitions_def
    by (auto simp: same_infos_def split: option.splits)
  ultimately show ?thesis by (rule same_infos_trans)
qed

text \<open>Back-patching sets a flag only when the event of that name exists.\<close>

lemma infos_set_info: "infos (set_info n f cc) m = (if m = n then map_option f (infos cc n) else infos cc m)"
proof -
  have "sy_infos (deref (set_info n f cc) m) = (if m = n
      then (case sy_infos (deref cc m) of [] \<Rightarrow> [] | i # is \<Rightarrow> si_info_update f i # is) else sy_infos (deref cc m))"
    by (auto simp: deref_def set_info_def find_sym_update set_first_def symbol_ctor_def split: option.splits)
  then show ?thesis by (auto simp: infos_def split: list.splits)
qed

lemma map_state_keeps: "as_kids (map_state f i) = as_kids i" "as_any_event (map_state f i) = as_any_event i"
    "as_chsm (map_state f i) = as_chsm i"
  by (cases i; simp)+

lemma event_name:
  assumes "event_table_ok E evs k" "E ev = Some (e, b)" "ev_state e = Some s"
  shows "\<exists>m. mangle s = Some m \<and> (if ev_kind e = KIND_ENTER then PREFIX_ENTER else PREFIX_EXIT) @ m \<in> set evs"
proof -
  have "event_ok ev (e, b) k" "ev \<in> set evs"
    using event_tableD(2) [OF assms(1), of ev] event_tableD(3) [OF assms(1,2)] assms(2) by auto
  then show ?thesis using assms(3) by (auto simp: event_ok_def split: if_splits)
qed

lemma flag_event_simps [simp]:
  "st_parent (flag_event k s) = st_parent s" "st_serial (flag_event k s) = st_serial s"
  by (simp_all add: flag_event_def)

lemma backpatch_compiled:
  assumes "backpatch_event ev cc = Inr cc'" "compiled cc c decl"
  shows "compiled cc' c decl"
proof -
  obtain e where e: "INFO as_event cc (Some ev) = Some e"
    using assms(1) by (auto simp: backpatch_event_def split: option.splits)
  show ?thesis
  proof (cases "ev_state e")
    case None
    then show ?thesis using assms e by (simp add: backpatch_event_def)
  next
    case (Some s)
    let ?f = "map_state (flag_event (ev_kind e))"
    have cc': "cc' = set_info s ?f cc" and k: "ev_kind e \<noteq> KIND_USER"
      using assms(1) e Some by (auto simp: backpatch_event_def split: if_splits)
    have I: "infos cc' m = (if m = s then map_option ?f (infos cc s) else infos cc m)" for m
      by (simp add: cc' infos_set_info)
    have same: "Option.bind (infos cc' m) as = Option.bind (infos cc m) as" if "\<And>i. as (?f i) = as i" for m and as :: "info \<Rightarrow> 'b option"
      using that by (cases "infos cc s") (auto simp: I)
    have K: "kids_of (infos cc') = kids_of (infos cc)" "event_at (infos cc') = event_at (infos cc)"
      by (simp_all add: kids_of_def event_at_def fun_eq_iff same map_state_keeps)
    have S: "skel0 (infos cc') = skel0 (infos cc)"
    proof
      fix m show "skel0 (infos cc') m = skel0 (infos cc) m"
        by (cases "infos cc m") (auto simp: skel0_def I option.map_comp comp_def)
    qed
    have C: "CHSM cc' = CHSM cc"
      by (simp add: CHSM_infos same map_state_keeps) (simp add: cc')
    obtain b where "event_at (infos cc) ev = Some (e, b)"
      using e as_event_any(2) by (fastforce simp: INFO_infos event_at_def bind_eq_Some_conv)
    then obtain m where m: "mangle s = Some m"
        "(if ev_kind e = KIND_ENTER then PREFIX_ENTER else PREFIX_EXIT) @ m \<in> set (ch_events c)"
      using event_name assms(2) Some unfolding compiled_def by blast
    have "flags_ok (infos cc') (ch_events c)"
      unfolding flags_ok_def
    proof (intro allI impI)
      fix n x assume x: "Option.bind (infos cc' n) as_state = Some x"
      then obtain y where y: "Option.bind (infos cc n) as_state = Some y"
          "x = (if n = s then flag_event (ev_kind e) y else y)"
        by (cases "infos cc n") (auto simp: I split: if_splits)
      have f: "(st_event_enter y \<longrightarrow> (\<exists>m. mangle n = Some m \<and> PREFIX_ENTER @ m \<in> set (ch_events c))) \<and>
          (st_event_exit y \<longrightarrow> (\<exists>m. mangle n = Some m \<and> PREFIX_EXIT @ m \<in> set (ch_events c)))"
        using assms(2) y(1) by (simp add: compiled_def flags_ok_def)
      show "(st_event_enter x \<longrightarrow> (\<exists>m. mangle n = Some m \<and> PREFIX_ENTER @ m \<in> set (ch_events c))) \<and>
          (st_event_exit x \<longrightarrow> (\<exists>m. mangle n = Some m \<and> PREFIX_EXIT @ m \<in> set (ch_events c)))"
        using f m k by (auto simp: y(2) flag_event_def split: if_splits)
    qed
    then show ?thesis
      using assms(2) by (simp add: compiled_def K S C)
  qed
qed

lemma backpatched_compiled:
  assumes "backpatch_enter_exit_events cc = Inr cc'" "compiled cc c decl"
  shows "compiled cc' c decl"
proof -
  have "iter_res backpatch_event evs a = Inr b \<Longrightarrow> compiled a c decl \<Longrightarrow> compiled b c decl" for evs a b
    by (induction evs arbitrary: a) (use backpatch_compiled in auto)
  then show ?thesis
    using assms by (auto simp: backpatch_enter_exit_events_def split: option.splits)
qed

section \<open>The states of the machine\<close>

fun name_at :: "sym list \<Rightarrow> sptr \<Rightarrow> sym" where
  "name_at decl Root = ''root''"
| "name_at decl (St i) = decl ! i"

definition sptr_at :: "sym list \<Rightarrow> sym \<Rightarrow> sptr" where
  "sptr_at decl n = (if n = ''root'' then Root else St (position decl n))"

lemma compiledD:
  assumes "compiled cc c decl"
  shows "CHSM cc = Some c" "ch_root c = ''root''" "ch_states c = decl"
    "states_ok (skel0 (infos cc)) (kids_of (infos cc)) decl [] ''root'' (length decl + 1)"
    "event_table_ok (event_at (infos cc)) (ch_events c) (length (ch_transitions c))"
    "t \<in> set (ch_transitions c) \<Longrightarrow> ti_from t \<in> set decl" "flags_ok (infos cc) (ch_events c)"
    "distinct decl" "''root'' \<notin> set decl"
proof -
  show s: "states_ok (skel0 (infos cc)) (kids_of (infos cc)) decl [] ''root'' (length decl + 1)"
    using assms by (simp add: compiled_def)
  show "distinct decl" "''root'' \<notin> set decl" using states_okD(1) [OF s] by simp_all
qed (use assms in \<open>auto simp: compiled_def\<close>)

lemma sptr_at_name:
  assumes "compiled cc c decl"
  shows "rank s \<le> length decl \<Longrightarrow> sptr_at decl (name_at decl s) = s"
    "n \<in> set (''root'' # decl) \<Longrightarrow> name_at decl (sptr_at decl n) = n \<and> rank (sptr_at decl n) \<le> length decl"
  using compiledD(8,9) [OF assms] nth_position position_nth position_less
  by (cases s, auto simp: sptr_at_def Suc_le_eq) (metis nth_mem)+

lemma state_of_name:
  assumes "compiled cc c decl" "rank s \<le> length decl"
  shows "state_of (program_of U cc c) s = state_object U cc c (name_at decl s)"
  using compiledD(2,3) [OF assms(1)] assms(2) by (cases s) (simp_all add: program_of_def)

lemma compiled_state:
  assumes "compiled cc c decl"
  shows "\<exists>i s. infos cc ''root'' = Some i \<and> as_state i = Some s \<and> st_parent s = None \<and> st_serial s = 0 \<and> (\<exists>cs. as_kids i = Some (False, cs))"
    "j < length decl \<Longrightarrow> \<exists>i s q. infos cc (decl ! j) = Some i \<and> as_state i = Some s \<and> st_parent s = Some q \<and> st_serial s = j + 1 \<and>
       q \<in> set (''root'' # take j decl) \<and> kids_of (infos cc) q \<noteq> None"
proof -
  note D = states_okD [OF compiledD(4) [OF assms]]
  show "\<exists>i s. infos cc ''root'' = Some i \<and> as_state i = Some s \<and> st_parent s = None \<and> st_serial s = 0 \<and> (\<exists>cs. as_kids i = Some (False, cs))"
    using D(2,3) by (auto simp: skel0_def kids_of_def bind_eq_Some_conv)
  show "\<exists>i s q. infos cc (decl ! j) = Some i \<and> as_state i = Some s \<and> st_parent s = Some q \<and> st_serial s = j + 1 \<and>
       q \<in> set (''root'' # take j decl) \<and> kids_of (infos cc) q \<noteq> None" if "j < length decl"
    using D(4) [OF that] by (auto simp: skel0_def bind_eq_Some_conv)
qed

lemma compiled_serial:
  assumes "compiled cc c decl" "n \<in> set decl"
  shows "serial cc (Some n) = Inr (int (position decl n))"
proof -
  obtain i s q where "infos cc n = Some i" "as_state i = Some s" "st_serial s = position decl n + 1"
    using compiled_state(2) [OF assms(1) position_less [OF assms(2)]] position_nth [OF assms(2)] by auto
  then show ?thesis by (simp add: serial_def INFO_infos)
qed

lemma compiled_serials:
  assumes "compiled cc c decl" "set cs \<subseteq> set decl"
  shows "number_table (serials cc cs) = map (position decl) cs"
proof -
  have "serials cc cs = Inr (map (\<lambda>n. int (position decl n)) cs)"
    using assms(2) by (induction cs) (simp_all add: compiled_serial [OF assms(1)])
  moreover have "takeWhile (\<lambda>i. i \<noteq> -1) (map (\<lambda>n. int (position decl n)) cs) = map (\<lambda>n. int (position decl n)) cs"
    by (rule takeWhile_eq_all_conv [THEN iffD2]) auto
  ultimately show ?thesis
    by (simp only: number_table_def sum.case list.map_comp comp_def nat_int)
qed

text \<open>The children of a state are the states whose parent it is.\<close>

definition kids_in :: "compiler \<Rightarrow> sym list \<Rightarrow> sym \<Rightarrow> sym list" where
  "kids_in cc decl n = filter (\<lambda>m. parent_at (skel0 (infos cc)) m = Some n) decl"

lemma parent_at_state:
  assumes "infos cc n = Some i" "as_state i = Some s"
  shows "parent_at (skel0 (infos cc)) n = st_parent s"
  using assms by (simp add: parent_at_def skel0_def)

lemma compiled_children:
  assumes "compiled cc c decl" "n \<in> set (''root'' # decl)"
  shows "child_list (sd_kind (state_object U cc c n)) = map (position decl) (kids_in cc decl n)"
proof -
  note D = states_okD [OF compiledD(4) [OF assms(1)]]
  obtain i s where i: "infos cc n = Some i" "as_state i = Some s"
    using assms(2) compiled_state(1) [OF assms(1)] compiled_state(2) [OF assms(1)] by (auto simp: in_set_conv_nth) blast+
  have sub: "set (kids_in cc decl n) \<subseteq> set decl" by (auto simp: kids_in_def)
  show ?thesis
  proof (cases "as_kids i")
    case None
    have "parent_at (skel0 (infos cc)) m \<noteq> Some n" if "m \<in> set decl" for m
    proof -
      obtain j where j: "j < length decl" "decl ! j = m" using \<open>m \<in> set decl\<close> by (auto simp: in_set_conv_nth)
      obtain i' s' q where "infos cc m = Some i'" "as_state i' = Some s'" "st_parent s' = Some q" "kids_of (infos cc) q \<noteq> None"
        using compiled_state(2) [OF assms(1) j(1)] j(2) by auto
      then show ?thesis using None i by (auto simp: parent_at_state kids_of_def)
    qed
    then have "kids_in cc decl n = []" by (simp add: kids_in_def filter_empty_conv)
    moreover have "kind_init cc i = Plain" using None by (cases i) (simp_all add: kind_init_def)
    ultimately show ?thesis using i by (simp add: state_object_def)
  next
    case (Some k)
    obtain b cs where k: "k = (b, cs)" by (cases k)
    then have "kids_of (infos cc) n = Some (b, cs)" using i Some by (simp add: kids_of_def)
    then have cs: "cs = kids_in cc decl n" using D(5) [of n b cs] by (simp add: kids_in_def)
    then have "child_list (kind_init cc i) = number_table (serials cc cs)"
      using Some k by (cases i) (simp_all add: kind_init_def)
    then show ?thesis
      using i sub compiled_serials [OF assms(1)] by (simp add: state_object_def cs)
  qed
qed

lemma compiled_parent:
  assumes "compiled cc c decl"
  shows "sd_parent (state_object U cc c ''root'') = None"
    "j < length decl \<Longrightarrow> \<exists>q. sd_parent (state_object U cc c (decl ! j)) = Some (sptr_at decl q) \<and>
       parent_at (skel0 (infos cc)) (decl ! j) = Some q \<and> q \<in> set (''root'' # take j decl)"
  using compiled_state [OF assms] compiledD(2,3) [OF assms]
  by (fastforce simp: state_object_def parent_init_def sptr_at_def parent_at_state)+

lemma position_inj: "m \<in> set xs \<Longrightarrow> n \<in> set xs \<Longrightarrow> position xs m = position xs n \<longleftrightarrow> m = n"
  by (metis position_nth)

lemma kid_position:
  assumes "compiled cc c decl" "x \<in> set (map (position decl) (kids_in cc decl n))"
  shows "x < length decl \<and> parent_at (skel0 (infos cc)) (decl ! x) = Some n"
  using assms position_less position_nth by (auto simp: kids_in_def)

lemma compiled_wf_states:
  assumes c: "compiled cc c decl"
  shows "wf_states (program_of U cc c)"
proof -
  let ?p = "program_of U cc c"
  have len: "length (p_states ?p) = length decl" by (simp add: program_of_def compiledD(3) [OF c])
  have valid: "valid_sptr ?p s \<longleftrightarrow> rank s \<le> length decl" for s by (simp add: rank_less_iff len)
  have named: "name_at decl s \<in> set (''root'' # decl)" if "rank s \<le> length decl" for s
    using that by (cases s) auto
  note sn = sptr_at_name [OF c] and st = state_of_name [OF c, where U = U]
  have kids: "child_list (kind_of ?p s) = map (position decl) (kids_in cc decl (name_at decl s))" if "rank s \<le> length decl" for s
    using that by (simp add: st compiled_children [OF c named])
  have parent: "\<exists>q. parent_of ?p (St j) = Some (sptr_at decl q) \<and> parent_at (skel0 (infos cc)) (decl ! j) = Some q \<and>
      q \<in> set (''root'' # take j decl)" if "j < length decl" for j
    using that compiled_parent(2) [OF c that, of U] st [of "St j"] by simp
  have "is_cluster (kind_of ?p Root)"
  proof -
    obtain i s cs where "infos cc ''root'' = Some i" "as_state i = Some s" "as_kids i = Some (False, cs)"
      using compiled_state(1) [OF c] by blast
    then show ?thesis
      using st [of Root] by (cases i) (simp_all add: state_object_def kind_init_def)
  qed
  moreover have "wf_children ?p s" if s: "rank s \<le> length decl" for s
  proof -
    have "distinct (child_list (kind_of ?p s))"
      using compiledD(8) [OF c] position_inj by (auto simp: kids [OF s] kids_in_def distinct_map inj_on_def)
    moreover have "valid_sptr ?p (St x) \<and> rank s < rank (St x) \<and> parent_of ?p (St x) = Some s"
      if x: "x \<in> set (child_list (kind_of ?p s))" for x
    proof -
      have x: "x < length decl" "parent_at (skel0 (infos cc)) (decl ! x) = Some (name_at decl s)"
        using kid_position [OF c] x by (auto simp: kids [OF s])
      then have p: "parent_of ?p (St x) = Some (sptr_at decl (name_at decl s))" "name_at decl s \<in> set (''root'' # take x decl)"
        using parent [OF x(1)] by auto
      have "rank s < rank (St x)"
      proof (cases s)
        case (St i)
        then have "decl ! i \<in> set (take x decl)" "i < length decl"
          using p(2) s compiledD(9) [OF c] by auto (metis Suc_le_eq nth_mem)
        then show ?thesis
          using position_take [of "decl ! i" x decl] nth_position [OF compiledD(8) [OF c]] by (simp add: St)
      qed simp
      then show ?thesis using p(1) x(1) sn(1) [OF s] by (simp add: len)
    qed
    ultimately show ?thesis by (auto simp: wf_children_def)
  qed
  moreover have "wf_parent ?p s" if s: "rank s \<le> length decl" for s
  proof (cases s)
    case Root
    then show ?thesis using compiled_parent(1) [OF c, of U] st [of Root] by (simp add: wf_parent_def)
  next
    case (St j)
    then have j: "j < length decl" using s by simp
    obtain q where q: "parent_of ?p (St j) = Some (sptr_at decl q)" "parent_at (skel0 (infos cc)) (decl ! j) = Some q"
        "q \<in> set (''root'' # take j decl)"
      using parent [OF j] by blast
    have v: "name_at decl (sptr_at decl q) = q" "rank (sptr_at decl q) \<le> length decl"
      using sn(2) [of q] q(3) by (auto dest: in_set_takeD)
    have "j \<in> set (map (position decl) (kids_in cc decl q))"
      using q(2) j nth_position [OF compiledD(8) [OF c] j] by (force simp: kids_in_def)
    then show ?thesis
      using q(1) v kids [OF v(2)] by (force simp: wf_parent_def St valid)
  qed
  ultimately show ?thesis
    unfolding wf_states_def set_all_states by (simp add: valid)
qed

section \<open>The events and the transitions\<close>

lemma number_table_nonneg: "\<forall>t \<in> set ts. 0 \<le> t \<Longrightarrow> number_table (Inr ts) = map nat ts"
  by (induction ts) (auto simp: number_table_def)

lemma compiled_event:
  assumes c: "compiled cc c decl" and i: "i < length (ch_events c)"
  shows "\<exists>e b. event_at (infos cc) (ch_events c ! i) = Some (e, b) \<and>
    ed_transitions (event_object U cc c (ch_events c ! i)) = map nat (ev_transition_ids e) \<and>
    ed_base (event_object U cc c (ch_events c ! i)) = map_option (position (ch_events c)) (Option.bind b id) \<and>
    distinct (ev_transition_ids e) \<and> (\<forall>t \<in> set (ev_transition_ids e). 0 \<le> t \<and> t < int (length (ch_transitions c)))"
proof -
  let ?n = "ch_events c ! i"
  note E = event_tableD [OF compiledD(5) [OF c]]
  have "event_at (infos cc) ?n \<noteq> None" using E(2) [of ?n] i by simp
  then obtain e b where eb: "event_at (infos cc) ?n = Some (e, b)" by auto
  then obtain x where x: "infos cc ?n = Some x" "as_any_event x = Some (e, b)" by (auto simp: event_at_def bind_eq_Some_conv)
  have ok: "distinct (ev_transition_ids e)" "\<forall>t \<in> set (ev_transition_ids e). 0 \<le> t \<and> t < int (length (ch_transitions c))"
    using E(3) [OF eb] by (auto simp: event_ok_def)
  have "as_event x = Some e" using x(2) by (cases x) auto
  moreover have "map_option ue_base (as_user_event x) = b" using x(2) by (cases x) auto
  ultimately show ?thesis
    using x(1) ok by (intro exI [of _ e] exI [of _ b])
      (auto simp: eb event_object_def Let_def number_table_nonneg split: option.split)
qed

lemma compiled_wf_events:
  assumes c: "compiled cc c decl"
  shows "wf_events (program_of U cc c)"
proof -
  let ?p = "program_of U cc c" and ?n = "length (ch_events c)"
  have len: "length (p_events ?p) = ?n" "length (p_transitions ?p) = length (ch_transitions c)"
    by (simp_all add: program_of_def)
  have ev: "event_of ?p i = event_object U cc c (ch_events c ! i)" if "i < ?n" for i
    using that by (simp add: event_of_def program_of_def)
  note E = event_tableD [OF compiledD(5) [OF c]]
  define ids where "ids i = set (ed_transitions (event_of ?p i))" for i
  have bases: "wf_bases ?p"
    unfolding wf_bases_def len
  proof
    fix i assume "i \<in> {0..<?n}"
    then have i: "i < ?n" by simp
    obtain e b where eb: "event_at (infos cc) (ch_events c ! i) = Some (e, b)"
        "ed_base (event_of ?p i) = map_option (position (ch_events c)) (Option.bind b id)"
      using compiled_event [OF c i, of U] ev [OF i] by auto
    show "case ed_base (event_of ?p i) of None \<Rightarrow> True | Some b \<Rightarrow> b < i"
    proof (cases "Option.bind b id")
      case (Some n)
      then have "b = Some (Some n)" by (cases b) auto
      then have "n \<in> set (take i (ch_events c))" using E(4) [OF i] eb(1) by simp
      then show ?thesis using position_take eb(2) Some by simp
    qed (simp add: eb(2))
  qed
  have own: "distinct (ed_transitions (event_of ?p i)) \<and> ids i \<subseteq> {..<length (ch_transitions c)}" if i: "i < ?n" for i
  proof -
    obtain e :: event_info where e: "ed_transitions (event_of ?p i) = map nat (ev_transition_ids e)" "distinct (ev_transition_ids e)"
        "\<forall>t \<in> set (ev_transition_ids e). 0 \<le> t \<and> t < int (length (ch_transitions c))"
      using compiled_event [OF c i, of U] unfolding ev [OF i] by (elim exE conjE)
    have "inj_on nat (set (ev_transition_ids e))" using e(3) by (metis inj_onI nat_0_le)
    then show ?thesis using e by (auto simp: ids_def distinct_map)
  qed
  have apart: "ids i \<inter> ids j = {}" if ij: "i < ?n" "j < ?n" "i \<noteq> j" for i j
  proof -
    obtain e b where e: "event_at (infos cc) (ch_events c ! i) = Some (e, b)" "ids i = nat ` set (ev_transition_ids e)"
        "\<forall>t \<in> set (ev_transition_ids e). 0 \<le> t"
      using compiled_event [OF c ij(1), of U] ev [OF ij(1)] by (auto simp: ids_def)
    obtain e' b' where e': "event_at (infos cc) (ch_events c ! j) = Some (e', b')" "ids j = nat ` set (ev_transition_ids e')"
        "\<forall>t \<in> set (ev_transition_ids e'). 0 \<le> t"
      using compiled_event [OF c ij(2), of U] ev [OF ij(2)] by (auto simp: ids_def)
    have "ch_events c ! i \<noteq> ch_events c ! j" using E(1) ij nth_eq_iff_index_eq by blast
    then have "set (ev_transition_ids e) \<inter> set (ev_transition_ids e') = {}" by (rule E(5) [OF e(1) e'(1)])
    then show ?thesis using e(2,3) e'(2,3) by (auto simp: nat_eq_iff2)
  qed
  have chain: "distinct (concat (map (\<lambda>x. ed_transitions (event_of ?p x)) xs))" if "distinct xs" "\<forall>x \<in> set xs. x < ?n" for xs
    using that
  proof (induction xs)
    case (Cons x xs)
    have "ids x \<inter> (\<Union>y \<in> set xs. ids y) = {}" using apart Cons.prems by fastforce
    then show ?case using Cons own [of x] by (auto simp: ids_def)
  qed simp
  have "distinct (transition_ids ?p e) \<and> (\<forall>t \<in> set (transition_ids ?p e). t < length (ch_transitions c))" if e: "e < ?n" for e
  proof -
    have e': "e < length (p_events ?p)" using e len by simp
    have b: "\<forall>x \<in> set (event_chain ?p (Some e)). x < ?n"
      using event_chain_bound [OF bases e'] e by fastforce
    have "\<forall>t \<in> set (transition_ids ?p e). t < length (ch_transitions c)"
      using b own by (fastforce simp: transition_ids_def ids_def)
    then show ?thesis
      using chain [OF event_chain_distinct [OF bases e'] b] by (simp add: transition_ids_def)
  qed
  then show ?thesis using bases by (simp add: wf_events_def len)
qed

lemma event_pointer_less:
  "has \<longrightarrow> (\<exists>m. mangle n = Some m \<and> k @ m \<in> set (ch_events c)) \<Longrightarrow>
    (case event_pointer c has k n of None \<Rightarrow> True | Some e \<Rightarrow> e < length (ch_events c))"
  using position_less by (auto simp: event_pointer_def split: if_splits)

lemma compiled_wf_state_events:
  assumes c: "compiled cc c decl"
  shows "wf_state_events (program_of U cc c)"
proof -
  let ?p = "program_of U cc c"
  have len: "length (p_events ?p) = length (ch_events c)" "length (p_states ?p) = length decl"
    by (simp_all add: program_of_def compiledD(3) [OF c])
  have "(case sd_enter_event (state_object U cc c n) of None \<Rightarrow> True | Some e \<Rightarrow> e < length (ch_events c)) \<and>
     (case sd_exit_event (state_object U cc c n) of None \<Rightarrow> True | Some e \<Rightarrow> e < length (ch_events c))" for n
  proof (cases "Option.bind (infos cc n) as_state")
    case None
    then show ?thesis by (cases "infos cc n") (simp_all add: state_object_def)
  next
    case (Some s)
    then obtain i where i: "infos cc n = Some i" "as_state i = Some s" by (auto simp: bind_eq_Some_conv)
    have "(st_event_enter s \<longrightarrow> (\<exists>m. mangle n = Some m \<and> PREFIX_ENTER @ m \<in> set (ch_events c))) \<and>
        (st_event_exit s \<longrightarrow> (\<exists>m. mangle n = Some m \<and> PREFIX_EXIT @ m \<in> set (ch_events c)))"
      using compiledD(7) [OF c] Some unfolding flags_ok_def by blast
    then show ?thesis
      using i by (simp add: state_object_def event_pointer_less)
  qed
  then show ?thesis
    unfolding wf_state_events_def set_all_states len(1)
    by (simp add: rank_less_iff len(2) state_of_name [OF c])
qed

lemma compiled_number:
  assumes c: "compiled cc c decl" and n: "state_number cc sy = Some i"
  shows "i < length decl"
proof -
  obtain n s where n: "sy = Some n" "INFO as_state cc (Some n) = Some s" "int (st_serial s) - 1 \<noteq> -1" "i = nat (int (st_serial s) - 1)"
    using n by (auto simp: state_number_def serial_def split: option.splits sum.splits if_splits)
  then have s: "skel0 (infos cc) n = Some (st_parent s, st_serial s, False)" by (simp add: skel0_def INFO_infos)
  note D = states_okD [OF compiledD(4) [OF c]]
  have "n \<noteq> ''root''" using s n(3) D(2) by auto
  then have "n \<in> set decl" using D(6) [of n] s by simp
  then show ?thesis
    using n(1,4) n(2) compiled_serial [OF c] position_less by (fastforce simp: serial_def)
qed

theorem compiled_wf_program:
  assumes c: "compiled cc c decl"
  shows "wf_program (program_of U cc c)"
proof -
  have "wf_transition (program_of U cc c) (transition_row U cc t)" if "t \<in> set (ch_transitions c)" for t
  proof -
    have f: "ti_from t \<in> set decl" by (rule compiledD(6) [OF c that])
    then have "state_number cc (Some (ti_from t)) = Some (position decl (ti_from t))"
      by (simp add: state_number_def compiled_serial [OF c])
    then show ?thesis
      using compiled_number [OF c] position_less [OF f]
      by (auto simp: wf_transition_def transition_row_def program_of_def compiledD(3) [OF c] split: option.split)
  qed
  then show ?thesis
    using compiled_wf_states [OF c] compiled_wf_events [OF c] compiled_wf_state_events [OF c]
    by (auto simp: wf_program_def program_of_def)
qed

end
