(* ===== verification/Chsm_Liveness.thy ===== *)
theory Chsm_Liveness
  imports Chsm_Machines Chsm_Session
begin

text \<open>
  Broadcasts end.  In a machine whose states have neither events nor actions of their own and
  whose transitions have no actions, entering and exiting states queues no event, so that a
  broadcast to a machine at rest is over after one turn of the loop in
  \<^verbatim>\<open>machine::algorithm\<close>: the call returns, with the machine at rest and in a legal
  configuration again.
\<close>

section \<open>Runs that queue nothing\<close>

definition actionless :: "('u, 'p) program \<Rightarrow> bool" where
  "actionless p \<longleftrightarrow> (\<forall>td \<in> set (p_transitions p). Option.is_none (tr_action td))"

definition keeps_queue :: "('u, 'p) program \<Rightarrow> ('u, 'p) mstate \<Rightarrow> ('u, 'p) mstate \<Rightarrow> bool" where
  "keeps_queue p m m' \<longleftrightarrow> keeps p m m' \<and> event_queue m' = event_queue m"

definition still :: "('u, 'p) program \<Rightarrow> ('u, 'p) mstate \<Rightarrow> err + ('u, 'p) mstate \<Rightarrow> bool" where
  "still p m r \<longleftrightarrow> wlp r (keeps_queue p m)"

definition still2 :: "('u, 'p) program \<Rightarrow> ('u, 'p) mstate \<Rightarrow> err + 'b \<times> ('u, 'p) mstate \<Rightarrow> bool" where
  "still2 p m r \<longleftrightarrow> wlp r (\<lambda>(_, m'). keeps_queue p m m')"

lemma keeps_queue_refl: "sound p m \<Longrightarrow> keeps_queue p m m"
  by (simp add: keeps_queue_def keeps_refl)

lemma keeps_queue_trans: "keeps_queue p m m' \<Longrightarrow> keeps_queue p m' m'' \<Longrightarrow> keeps_queue p m m''"
  unfolding keeps_queue_def using keeps_trans by auto

lemma keeps_queue_sound: "keeps_queue p m m' \<Longrightarrow> sound p m'"
  by (simp add: keeps_queue_def keeps_def)

lemma keeps_queue_again: "keeps_queue p m m' \<Longrightarrow> keeps_queue p m' m'"
  by (rule keeps_queue_refl [OF keeps_queue_sound])

lemma still_simps [simp]:
  "still p m (Inl e)" "still p m (Inr m') = keeps_queue p m m'"
  "still2 p m (Inl e)" "still2 p m (Inr (b, m')) = keeps_queue p m m'"
  by (simp_all add: still_def still2_def)

lemma still_bind [triple_intro]:
  "still p m r \<Longrightarrow> (\<And>m'. keeps_queue p m m' \<Longrightarrow> still p m' (f m')) \<Longrightarrow> still p m (rbind r f)"
  "still2 p m r2 \<Longrightarrow> (\<And>b m'. keeps_queue p m m' \<Longrightarrow> still p m' (f2 (b, m'))) \<Longrightarrow> still p m (rbind r2 f2)"
  "still p m r \<Longrightarrow> (\<And>m'. keeps_queue p m m' \<Longrightarrow> still2 p m' (g m')) \<Longrightarrow> still2 p m (rbind r g)"
  "still2 p m r2 \<Longrightarrow> (\<And>b m'. keeps_queue p m m' \<Longrightarrow> still2 p m' (g2 (b, m'))) \<Longrightarrow> still2 p m (rbind r2 g2)"
  unfolding still_def still2_def wlp_simps
  by (erule wlp_mono, force elim!: wlp_mono intro: keeps_queue_trans)+

lemma still_from:
  "keeps_queue p m m1 \<Longrightarrow> still p m1 r \<Longrightarrow> still p m r"
  "keeps_queue p m m1 \<Longrightarrow> still2 p m1 r2 \<Longrightarrow> still2 p m r2"
  unfolding still_def still2_def by (force elim!: wlp_mono intro: keeps_queue_trans)+

lemma still_iter:
  assumes "\<And>x m. x \<in> set xs \<Longrightarrow> sound p m \<Longrightarrow> still p m (f x m)" and "sound p m"
  shows "still p m (iter_res f xs m)"
  using assms
proof (induction xs arbitrary: m)
  case (Cons x xs)
  show ?case
    unfolding iter_res.simps
  proof (rule still_bind(1))
    show "still p m (f x m)" using Cons.prems by simp
    fix m' assume "keeps_queue p m m'"
    then have "sound p m'" by (rule keeps_queue_sound)
    then show "still p m' (iter_res f xs m')" using Cons by simp
  qed
qed (simp add: keeps_queue_refl)

text \<open>What the operations of a machine without hooks need of the operations they call: beyond
  the laws of the accounts, that nothing is queued.\<close>

locale still_ops = accounted_ops p ops for p :: "('u, 'p) program" and ops :: "('u, 'p) ops" +
  assumes enter_still: "hookless p \<Longrightarrow> sound p m \<Longrightarrow> valid_sptr p s \<Longrightarrow>
      (\<And>c. f = Some c \<Longrightarrow> valid_sptr p c \<and> parent_of p c = Some s) \<Longrightarrow>
      still2 p m (op_enter ops s t f m)"
    and exit_still: "hookless p \<Longrightarrow> sound p m \<Longrightarrow> valid_sptr p s \<Longrightarrow> still2 p m (op_exit ops s t f m)"
begin

lemma no_hooks:
  assumes hooks: "hookless p" and "valid_sptr p s"
  shows "sd_enter_event (state_of p s) = None" "sd_exit_event (state_of p s) = None"
    "sd_enter_action (state_of p s) = None" "sd_exit_action (state_of p s) = None"
proof -
  have "s \<in> set (all_states p)" using assms(2) set_all_states [of p] by blast
  then show "sd_enter_event (state_of p s) = None" "sd_exit_event (state_of p s) = None"
    "sd_enter_action (state_of p s) = None" "sd_exit_action (state_of p s) = None"
    using hooks unfolding hookless_def Option.is_none_def by blast+
qed

lemma of_kept:
  assumes "kept2 p m r" "wlp r (\<lambda>(_, m'). event_queue m' = event_queue m)"
  shows "still2 p m r"
  using assms by (auto simp: kept2_def still2_def keeps_queue_def wlp_iff)

lemma enter_parent_still:
  assumes hooks: "hookless p" and m: "sound p m" and s: "valid_sptr p s"
  shows "still2 p m (enter_parent p ops s t m)"
proof (cases "parent_of p s")
  case None
  then show ?thesis by (simp add: enter_parent_def keeps_queue_refl [OF m])
next
  case (Some q)
  have "still2 p m (op_enter ops q t (Some s) m)"
    by (rule enter_still [OF hooks m wf_parent(1) [OF wf_parts(1) [OF m] s Some]]) (use s Some in auto)
  moreover have "still2 p m (switch_active_child_to p q s m)"
    by (rule of_kept [OF switch_kept [OF m s Some]])
      (auto simp: switch_active_child_to_def split: kind.split option.split)
  ultimately show ?thesis
    by (auto simp: enter_parent_def Some intro!: still_bind intro: keeps_queue_again)
qed

lemma state_enter_still:
  assumes hooks: "hookless p" and m: "sound p m" and s: "valid_sptr p s"
  shows "still2 p m (state_enter p ops s t m)"
proof (rule of_kept [OF state_enter_kept [OF m s]])
  have "wlp (enter_parent p ops s t m) (\<lambda>(_, m'). event_queue m' = event_queue m)"
    using enter_parent_still [OF hooks m s, of t] by (auto simp: still2_def keeps_queue_def wlp_iff)
  then show "wlp (state_enter p ops s t m) (\<lambda>(_, m'). event_queue m' = event_queue m)"
    by (auto simp: state_enter_def no_hooks [OF hooks s] lock_broadcast_def enex_action_def set_state_def elim!: wlp_mono)
qed

lemma cluster_enter_child_still:
  assumes hooks: "hookless p" and m: "sound p m" and s: "valid_sptr p s"
    and f: "\<And>c. f = Some c \<Longrightarrow> valid_sptr p c \<and> parent_of p c = Some s"
  shows "still2 p m (cluster_enter_child p ops s t f m)"
proof (rule of_kept [OF cluster_enter_child_kept [OF m s f]], assumption)
  have go: "wlp (op_enter ops c t None (m1\<lparr>active_child := (active_child m1)(s := Some c)\<rparr>))
      (\<lambda>(_, m'). event_queue m' = event_queue m1)"
    if m1: "sound p m1" "last_child m1 s = Some c" for m1 c
  proof -
    have c: "valid_sptr p c" "parent_of p c = Some s"
      using m1 typed_childD [of p "last_child m1" s c] by (auto simp: sound_def typed_def)
    note k = keeps_set_child(1) [OF m1(1) c]
    show ?thesis
      using enter_still [OF hooks keeps_sound [OF k] c(1), of None t]
      by (auto simp: still2_def keeps_queue_def wlp_iff)
  qed
  have clear: "wlp (cluster_clear p s m) (\<lambda>m1. sound p m1 \<and> event_queue m1 = event_queue m)"
    using cluster_clear_kept [OF m s] keeps_sound
    by (auto simp: kept_def wlp_iff cluster_clear_def)
  show "wlp (cluster_enter_child p ops s t f m) (\<lambda>(_, m'). event_queue m' = event_queue m)"
    unfolding cluster_enter_child_def
    using clear m go by (auto simp: wlp_iff split: option.splits)
qed

lemma enter_body_still:
  assumes hooks: "hookless p" and m: "sound p m" and s: "valid_sptr p s"
    and f: "\<And>c. f = Some c \<Longrightarrow> valid_sptr p c \<and> parent_of p c = Some s"
  shows "still2 p m (enter_body p ops s t f m)"
proof (cases "kind_of p s")
  case Plain
  then show ?thesis using state_enter_still [OF hooks m s] by (simp add: enter_body_def)
next
  case (Cluster h cs)
  then show ?thesis
    using f by (auto simp: enter_body_def cluster_enter_def
        intro!: still_bind(4) [OF state_enter_still [OF hooks m s]] cluster_enter_child_still [OF hooks] s
        intro: keeps_queue_again keeps_queue_sound)
next
  case (Set cs)
  have "valid_sptr p (St c)" if "c \<in> set cs" for c
    using wf_children(1) [OF wf_parts(1) [OF m] s] Set that by simp
  then have "still p m1 (iter_res (\<lambda>c m. rbind (op_enter ops c t None m) (\<lambda>(_, m). Inr m)) (map St cs) m1)"
    if "sound p m1" for m1
    using that by (intro still_iter) (auto intro!: still_bind enter_still [OF hooks] intro: keeps_queue_again simp del: valid_sptr.simps)
  then show ?thesis
    using Set unfolding enter_body_def set_enter_def
    by (auto intro!: still_bind(4) [OF state_enter_still [OF hooks m s]] still_bind(3)) (blast intro: keeps_queue_again keeps_queue_sound)+
qed

lemma exit_parent_still:
  assumes hooks: "hookless p" and m: "sound p m" and s: "valid_sptr p s"
  shows "still p m (exit_parent p ops s t to m)"
proof (cases "to = None \<or> parent_of p s = None")
  case True
  then show ?thesis by (auto simp: exit_parent_def keeps_queue_refl [OF m] split: option.split)
next
  case False
  then obtain a q where aq: "to = Some a" "parent_of p s = Some q" by auto
  have "still p m (rbind (op_exit ops q t to m) (\<lambda>(_, m). Inr m))"
    by (auto intro!: still_bind exit_still [OF hooks] m wf_parent(1) [OF wf_parts(1) [OF m] s aq(2)] intro: keeps_queue_again)
  then show ?thesis
    by (cases "find_ancestor p (Some q) (parent_of p a)")
      (auto simp: exit_parent_def aq keeps_queue_refl [OF m])
qed

lemma state_exit_still:
  assumes hooks: "hookless p" and m: "sound p m" and s: "valid_sptr p s"
  shows "still2 p m (state_exit p ops s t to m)"
proof (rule of_kept [OF state_exit_kept [OF m s]])
  have a: "keeps p m (set_state s STATE_INACTIVE m)" by (rule keeps_set_state [OF m]) simp
  have "wlp (exit_parent p ops s t to (set_state s STATE_INACTIVE m)) (\<lambda>m'. event_queue m' = event_queue m)"
    using exit_parent_still [OF hooks keeps_sound [OF a] s, of t to]
    by (auto simp: still_def keeps_queue_def wlp_iff set_state_def)
  then show "wlp (state_exit p ops s t to m) (\<lambda>(_, m'). event_queue m' = event_queue m)"
    by (auto simp: state_exit_def no_hooks [OF hooks s] lock_broadcast_def enex_action_def elim!: wlp_mono)
qed

lemma exit_body_still:
  assumes hooks: "hookless p" and m: "sound p m" and s: "valid_sptr p s"
  shows "still2 p m (exit_body p ops s t to m)"
proof (cases "kind_of p s")
  case Plain
  then show ?thesis using state_exit_still [OF hooks m s] by (simp add: exit_body_def)
next
  case (Cluster h cs)
  show ?thesis
  proof (cases "active_child m s")
    case (Some c)
    then have c: "valid_sptr p c"
      using m typed_childD [of p "active_child m" s c] by (auto simp: sound_def typed_def)
    show ?thesis
      using Some Cluster by (auto simp: exit_body_def cluster_exit_def keeps_queue_refl [OF m]
          intro!: still_bind(4) [OF exit_still [OF hooks m c]] state_exit_still [OF hooks] s intro: keeps_queue_sound)
  qed (simp add: exit_body_def cluster_exit_def Cluster keeps_queue_refl [OF m])
next
  case (Set cs)
  have cs: "valid_sptr p (St c)" if "c \<in> set cs" for c
    using wf_children(1) [OF wf_parts(1) [OF m] s] Set that by simp
  have "still p m (iter_res (\<lambda>c m. rbind (op_exit ops c t None m) (\<lambda>(_, m). Inr m)) (map St cs) m)"
    by (rule still_iter)
      (auto intro!: still_bind exit_still [OF hooks] cs m simp del: valid_sptr.simps intro: keeps_queue_again)
  then show ?thesis
    using Set by (auto simp: exit_body_def set_exit_def keeps_queue_refl [OF m]
        intro!: still_bind(3) state_exit_still [OF hooks] s intro: keeps_queue_sound)
qed

text \<open>The phases of a turn.\<close>

lemma exit_from_still:
  assumes hooks: "hookless p" "actionless p" and m: "sound p m"
  shows "still p m (exit_from p ops e t m)"
proof (cases "taken m t = Some e \<and> active m (St (tr_from (transition_of p t)))")
  case True
  have "e < length (p_events p) \<and> t \<in> set (transition_ids p e)"
    using m True unfolding sound_def typed_def by blast
  then have "t < length (p_transitions p)" using wf_parts(6) [OF m] by blast
  then have none: "tr_action (transition_of p t) = None"
    using hooks(2) by (auto simp: actionless_def transition_of_def Option.is_none_def)
  have "still2 p m (if is_internal (transition_of p t) then Inr (True, m)
      else op_exit ops (St (tr_from (transition_of p t))) (Ev e) (target m t) m)"
    using exit_still [OF hooks(1) m taken_from [OF m, of t e]] True by (simp add: keeps_queue_refl [OF m])
  then have "still p m (rbind (if is_internal (transition_of p t) then Inr (True, m)
      else op_exit ops (St (tr_from (transition_of p t))) (Ev e) (target m t) m) (\<lambda>(_, m). Inr m))"
    by (rule still_bind(2)) (auto intro: keeps_queue_again)
  then show ?thesis
    using True by (simp add: exit_from_def Let_def none)
next
  case False
  then show ?thesis
    using keeps_untake [OF m] keeps_refl [OF m] by (auto simp: exit_from_def Let_def keeps_queue_def)
qed

lemma enter_to_still:
  assumes hooks: "hookless p" and m: "sound p m"
  shows "still p m (enter_to p ops e t m)"
proof -
  have "wlp (op_enter ops s (Ev e) None m) (\<lambda>(_, m'). event_queue m' = event_queue m)" if "target m t = Some s" for s
    using enter_still [OF hooks m, of s None "Ev e"] m that
    by (auto simp: sound_def typed_def still2_def keeps_queue_def wlp_iff)
  then have "wlp (enter_to p ops e t m) (\<lambda>m'. event_queue m' = event_queue m)"
    by (auto simp: enter_to_def wlp_iff split: option.splits)
  then show ?thesis
    using enter_to_kept [OF m, of e t] by (simp add: still_def kept_def keeps_queue_def [abs_def] wlp_conj)
qed

lemma phases_still:
  assumes hooks: "hookless p" "actionless p" and m: "sound p m"
  shows "still p m (phase_exit p ops evs m)" "still p m (phase_enter p ops evs m)"
proof -
  have share: "keeps_queue p a (share_params p e a)" if "sound p a" for e a
    using share_params_keeps [OF that] share_params_eq [of e a] by (auto simp: keeps_queue_def)
  show "still p m (phase_exit p ops evs m)"
    unfolding phase_exit_def
  proof (rule still_iter [OF _ m])
    fix e a assume a: "sound p a"
    note k = share [OF a, of e]
    show "still p a (iter_res (exit_from p ops e) (transition_ids p e) (share_params p e a))"
      by (rule still_from(1) [OF k], rule still_iter [OF exit_from_still [OF hooks]])
        (assumption, rule keeps_queue_sound [OF k])
  qed
  show "still p m (phase_enter p ops evs m)"
    unfolding phase_enter_def
    by (rule still_iter [OF still_iter [OF enter_to_still [OF hooks(1)]] m])
qed

text \<open>A turn of the loop leaves the queue empty.\<close>

lemma micro_step_empties:
  assumes hooks: "hookless p" "actionless p" and m: "sound p m" "in_progress m"
  shows "wlp (micro_step p ops m) (\<lambda>m'. event_queue m' = [])"
proof -
  have fin: "wlp (phase_dequeue (length (event_queue m)) p m2) (\<lambda>m'. event_queue m' = [])"
    if "keeps_queue p m m1" "keeps_queue p m1 m2" for m1 m2
  proof -
    have k: "keeps_queue p m m2" using that keeps_queue_trans by blast
    then have "sound p m2" "in_progress m2" "event_queue m2 = event_queue m"
      using m(2) by (auto simp: keeps_queue_def keeps_def)
    then show ?thesis
      using wp_wlp [OF phase_dequeue_drains [of m2 "length (event_queue m)"]] by (auto elim!: wlp_mono)
  qed
  have "wlp (phase_exit p ops evs m) (keeps_queue p m)" for evs
    using phases_still(1) [OF hooks m(1)] by (simp add: still_def)
  moreover have "wlp (phase_enter p ops evs m1) (keeps_queue p m1)" if "keeps_queue p m m1" for evs m1
    using phases_still(2) [OF hooks keeps_queue_sound [OF that]] by (simp add: still_def)
  ultimately show ?thesis
    unfolding micro_step_def Let_def wlp_simps by (blast intro: wlp_mono fin)
qed

end

lemma still_ops_at: "still_ops p (ops_at n p)"
proof (induction n)
  case 0
  show ?case by unfold_locales simp_all
next
  case (Suc n)
  then show ?case
    by unfold_locales (simp_all add: still_ops.enter_body_still [OF Suc] still_ops.exit_body_still [OF Suc])
qed

interpretation calm_run: still_ops p "ops_at n p"
  for p :: "('u, 'p) program" and n :: nat
  by (rule still_ops_at)

section \<open>A broadcast to a machine at rest\<close>

text \<open>The machine the algorithm starts from: the event queued and the search's marks set.\<close>

lemma marked_machine:
  assumes m: "sound p m" "event_queue m = []" "legal_config p m" "aimed p m"
    and p: "no_empty_parents p" "static_targets p" "hookless p" "actionless p"
    and e: "e < length (p_events p)" "find_transition p e (armed p e pb m) = Inr (True, m1)"
  shows "marks_only (armed p e pb m) m1" "event_queue (armed p e pb m) = []" "in_progress (armed p e pb m) = in_progress m"
    "ev_in_progress m e = 0" "stepping p (m1\<lparr>event_queue := [e], in_progress := True\<rparr>)"
    "legal_config p (m1\<lparr>event_queue := [e], in_progress := True\<rparr>)"
proof -
  note b = wf_parts(3) [OF m(1)] and wf = sound_wf [OF m(1)]
  let ?a = "armed p e pb m" and ?m2 = "m1\<lparr>event_queue := [e], in_progress := True\<rparr>"
  show ip: "ev_in_progress m e = 0"
    using m(1,2) by (simp add: sound_def accounted_def derived_in_def)
  note mark = mark_in_progress_eq [OF event_chain_distinct [OF b e(1)], of m]
  have a: "typed p ?a" "active ?a = active m" "active_child ?a = active_child m" "event_queue ?a = []"
      "in_progress ?a = in_progress m" "aimed p ?a" "ev_in_progress ?a = ev_in_progress (mark_in_progress p e m)"
    using m by (simp_all add: armed_def mark sound_def active_flag fun_eq_iff aimed_def)
  then show "event_queue ?a = []" "in_progress ?a = in_progress m" by simp_all
  have f: "marks_only ?a m1" "typed p m1"
    using wlpD [OF find_transition_keeps [OF wf e(1) a(1)] e(2)] by simp_all
  then show "marks_only ?a m1" by simp
  have mk: "marks_kept p {e} ?a m1"
    using wpE [OF find_transition_marks [OF wf p(2) e(1), of ?a]] e(2) by (metis (mono_tags, lifting) Inr_inject case_prod_conv)
  have acc: "accounted p ?m2"
    by (rule accounted_enqueue [OF b _ e(1) ip]) (use m(1,2) f(1) a in \<open>simp_all add: sound_def marks_only_def\<close>)
  have "aimed p ?m2" using mk p(2) a(6) by (simp add: marks_kept_def aimed_def)
  moreover have "calm p" using calm_idle p(3,4) by (simp add: actionless_def)
  ultimately show "stepping p ?m2"
    using acc f(2) wf p by (simp add: stepping_def sound_def)
  show "legal_config p ?m2"
    using m(3) f(1) a(2,3) config_cong(3) [of ?m2 m p] by (simp add: marks_only_def active_flag fun_eq_iff)
qed

text \<open>C3: a broadcast comes to an end. The machine has well-formed tables, no cluster or set
  without a child, no computed targets, and no event or action attached to any state or
  transition; it is at rest in a legal configuration, with pointers and counters as the library
  keeps them and marks that hold their own targets. The search for transitions succeeds, and those
  it marks satisfy \<open>step_ready\<close>: the highest states they exit are not below each
  other, their sources are active, each is legal, and on the way from the highest state one enters
  down to its target there is no set but possibly the target's parent. Then the call returns,
  within linear fuel, with nothing queued and the algorithm not running, in a legal configuration,
  and the target of every transition that moved is active.\<close>

theorem broadcast_completes:
  assumes m: "sound p m" "\<not> in_progress m" "legal_config p m" "aimed p m"
    and p: "no_empty_parents p" "static_targets p" "hookless p" "actionless p"
    and e: "e < length (p_events p)" "precondition_true p e pb (armed p e pb m)"
      "find_transition p e (armed p e pb m) = Inr (True, m1)"
    and r: "step_ready p (m1\<lparr>event_queue := [e]\<rparr>)" and n: "2 * length (p_states p) + 5 \<le> n"
  shows "\<exists>m'. broadcast n p e pb m = Inr m' \<and> at_rest m' \<and> legal_config p m' \<and>
    (\<forall>t \<in> set (moving p (m1\<lparr>event_queue := [e]\<rparr>)). active m' (dest p t))"
proof -
  let ?a = "armed p e pb m" and ?m2 = "m1\<lparr>event_queue := [e], in_progress := True\<rparr>"
  have rest: "event_queue m = []" using m(1,2) by (simp add: sound_def at_rest_def)
  note mm = marked_machine [OF m(1) rest m(3,4) p e(1,3)]
  have mv: "moving p ?m2 = moving p (m1\<lparr>event_queue := [e]\<rparr>)"
    by (auto simp: moving_def intro!: filter_cong split: option.split)
  have "step_ready p ?m2"
    using r unfolding step_ready_def mv by (simp add: active_flag)
  moreover obtain k where k: "n = Suc (Suc (Suc k))" "2 * length (p_states p) + 3 \<le> Suc k"
    using n by (intro that [of "n - 3"]) simp_all
  ultimately obtain m3 where m3: "micro_step p (ops_at (Suc k) p) ?m2 = Inr m3" "legal_config p m3" "stepping p m3"
      "\<forall>t \<in> set (moving p (m1\<lparr>event_queue := [e]\<rparr>)). active m3 (dest p t)"
    using micro_step_legal [OF mm(5) _ mm(6) k(2)] unfolding mv wp_iff by blast
  have q: "event_queue m3 = []"
    using wlpD [OF calm_run.micro_step_empties [OF p(3,4), of ?m2 "Suc k"] m3(1)] mm(5) by (simp add: stepping_def)
  have "loop_body p (ops_at (Suc k) p) ?m2 = Inr m3"
    using m3(1) q by (simp add: loop_body_def)
  then have "algorithm (ops_at (Suc (Suc k)) p) (m1\<lparr>event_queue := [e]\<rparr>) = Inr (m3\<lparr>in_progress := False\<rparr>)"
    using mm(1,3) m(2) by (simp add: algorithm_def marks_only_def)
  moreover have "event_queue m1 = []" using mm(1,2) by (simp add: marks_only_def)
  ultimately have "broadcast n p e pb m = Inr (m3\<lparr>in_progress := False\<rparr>)"
    using e(2,3) mm(4) by (simp add: k(1) broadcast_unfold [OF wf_parts(3) [OF m(1)] e(1)] del: rbind_Inr_iff)
  moreover have "active (m3\<lparr>in_progress := False\<rparr>) = active m3" by (simp add: active_flag fun_eq_iff)
  ultimately show ?thesis
    using m3(2,4) q config_cong(3) [of "m3\<lparr>in_progress := False\<rparr>" m3 p] by (simp add: at_rest_def)
qed

lemma demo_swap_search:
  "case find_transition demo 1 (armed demo 1 None demo_on) of Inl _ \<Rightarrow> False
    | Inr (found, m1) \<Rightarrow> found \<and> step_ready demo (m1\<lparr>event_queue := [1]\<rparr>) \<and>
        moving demo (m1\<lparr>event_queue := [1]\<rparr>) = [1, 2]"
  "\<not> in_progress demo_on" "actionless demo" "precondition_true demo 1 None (armed demo 1 None demo_on)"
  "dest demo 1 = St 4" "dest demo 2 = St 7"
  by code_simp+

theorem broadcast_completes_witness:
  "\<exists>m'. broadcast 21 demo 1 None demo_on = Inr m' \<and> event_queue m' = [] \<and> legal_config demo m' \<and>
    active m' (St 4) \<and> active m' (St 7)"
proof -
  obtain m1 where m1: "find_transition demo 1 (armed demo 1 None demo_on) = Inr (True, m1)"
      "step_ready demo (m1\<lparr>event_queue := [1]\<rparr>)" "moving demo (m1\<lparr>event_queue := [1]\<rparr>) = [1, 2]"
    using demo_swap_search(1)
    by (cases "find_transition demo 1 (armed demo 1 None demo_on)") (auto simp del: One_nat_def)
  have "aimed demo demo_on" by (simp add: aimed_def demo_on_def init_mstate_def)
  then show ?thesis
    using broadcast_completes [OF demo_on_sound demo_swap_search(2) demo_on_legal _ demo_parts(1,3,2) demo_swap_search(3) _
        demo_swap_search(4) m1(1,2), of 21]
    by (auto simp: demo_tree m1(3) demo_swap_search(5,6) at_rest_def simp del: One_nat_def)
qed

end
