(* ===== verification/Chsm_Refinement.thy ===== *)
theory Chsm_Refinement
  imports Chsm_Liveness Chsm_Iterators
begin

text \<open>
  The machine as a statechart: a configuration is the set of its active states, and a step of
  the statechart replaces the states below what its transitions leave by complete
  configurations below what they enter.  The turns of \<^verbatim>\<open>machine::algorithm\<close> refine these
  steps: active flags, children pointers, marks, queue and counters are implementation.
\<close>

section \<open>Configurations\<close>

definition conf :: "('u, 'p) program \<Rightarrow> ('u, 'p) mstate \<Rightarrow> sptr set" where
  "conf p m = {s. valid_sptr p s \<and> active m s}"

definition children_in :: "('u, 'p) program \<Rightarrow> sptr set \<Rightarrow> sptr \<Rightarrow> state_id list" where
  "children_in p A s = filter (\<lambda>c. St c \<in> A) (child_list (kind_of p s))"

text \<open>The root is active, the parent of an active state is active, an active cluster has exactly
  one active child and an active set has all.\<close>

definition conf_legal :: "('u, 'p) program \<Rightarrow> sptr set \<Rightarrow> bool" where
  "conf_legal p A \<longleftrightarrow> Root \<in> A \<and> (\<forall>s \<in> A. valid_sptr p s \<and>
     (case parent_of p s of None \<Rightarrow> True | Some q \<Rightarrow> q \<in> A) \<and>
     (case kind_of p s of
        Plain \<Rightarrow> True
      | Cluster _ cs \<Rightarrow> length (children_in p A s) = 1
      | Set cs \<Rightarrow> children_in p A s = cs))"

text \<open>The step of the transitions \<open>ts\<close>.\<close>

definition conf_step :: "('u, 'p) program \<Rightarrow> transition_id list \<Rightarrow> sptr set \<Rightarrow> sptr set \<Rightarrow> bool" where
  "conf_step p ts A B \<longleftrightarrow> conf_legal p A \<and> conf_legal p B \<and>
     (\<forall>t \<in> set ts. source p t \<in> A \<and> dest p t \<in> B) \<and>
     (\<forall>s. untouched p (set ts) s \<longrightarrow> (s \<in> B \<longleftrightarrow> s \<in> A))"

lemma distinct_one:
  assumes "distinct xs" "c \<in> set xs" "P c" "\<forall>x \<in> set xs. P x \<longrightarrow> x = c"
  shows "filter P xs = [c]"
  using assms
proof (induction xs)
  case (Cons x xs)
  have only: "y = c" if "y \<in> set xs" "P y" for y using Cons.prems(4) that by auto
  show ?case
  proof (cases "x = c")
    case True
    have "\<not> P y" if "y \<in> set xs" for y
      using only [OF that] that Cons.prems(1) True by fastforce
    then have "filter P xs = []" by (simp add: filter_empty_conv)
    then show ?thesis using True Cons.prems(3) by simp
  next
    case False
    then have "c \<in> set xs" "\<not> P x" using Cons.prems(2,4) by auto
    moreover have "\<forall>y \<in> set xs. P y \<longrightarrow> y = c" using only by blast
    moreover have "distinct xs" using Cons.prems(1) by simp
    ultimately have "filter P xs = [c]" using Cons.IH Cons.prems(3) by blast
    then show ?thesis using \<open>\<not> P x\<close> by simp
  qed
qed simp

lemma legal_conf:
  assumes p: "wf_states p" and m: "legal_config p m"
  shows "conf_legal p (conf p m)"
  unfolding conf_legal_def
proof (intro conjI ballI)
  show "Root \<in> conf p m" using m by (simp add: conf_def legal_config_def)
  fix s assume "s \<in> conf p m"
  then have s: "valid_sptr p s" "active m s" by (simp_all add: conf_def)
  then show "valid_sptr p s" by simp
  have t: "tidy_at p m s" and k: "node_ok p m s"
    using m s(1) by (auto simp: legal_config_iff tidy_iff)
  show "case parent_of p s of None \<Rightarrow> True | Some q \<Rightarrow> q \<in> conf p m"
  proof (cases "parent_of p s")
    case (Some q)
    then show ?thesis using t s wf_parent(1) [OF p s(1) Some] by (simp add: tidy_at_def conf_def)
  qed simp
  have kids: "St c \<in> conf p m \<longleftrightarrow> active m (St c)" if "c \<in> set (child_list (kind_of p s))" for c
    using wf_children(1) [OF p s(1) that] by (simp add: conf_def)
  show "case kind_of p s of Plain \<Rightarrow> True | Cluster _ cs \<Rightarrow> length (children_in p (conf p m) s) = 1
      | Set cs \<Rightarrow> children_in p (conf p m) s = cs"
  proof (cases "kind_of p s")
    case (Cluster h cs)
    then obtain a where a: "\<forall>c \<in> set cs. active m (St c) \<longrightarrow> St c = a"
      using t s(2) by (auto simp: tidy_at_def split: option.splits)
    obtain c where c: "c \<in> set cs" "active m (St c)" using k s(2) Cluster by (auto simp: node_ok_def)
    have "filter (\<lambda>c. St c \<in> conf p m) cs = [c]"
      by (rule distinct_one [OF _ c(1)])
        (use wf_distinct_children [OF p s(1)] Cluster kids c a in auto)
    then show ?thesis using Cluster by (simp add: children_in_def)
  next
    case (Set cs)
    then have "\<forall>c \<in> set cs. St c \<in> conf p m" using k s(2) kids by (auto simp: node_ok_def)
    then show ?thesis using Set by (simp add: children_in_def)
  qed simp
qed

section \<open>Turns of the algorithm\<close>

lemma iterators_apart:
  assumes "hookless p" "actionless p" and m: "sound p m" "in_progress m"
    and "micro_step p (ops_at n p) m = Inr m'"
  shows "walking_step p (ops_at n p) m = Inr m'"
  using wlpD [OF calm_run.micro_step_empties [OF assms(1-4)] assms(5)] assms(5) walking_step_iff [OF m]
  by simp

text \<open>C2: a turn of the loop in \<^verbatim>\<open>machine::algorithm\<close> that reads the
  queue by position implements a step of the statechart, under the following conditions. Of the
  program: the tables are well-formed, no cluster and no set is without a child, no target is
  computed at run time, and code attached to states and transitions does nothing to the machine
  but broadcast events (\<open>calm\<close>). Of the machine: the algorithm is running, pointers
  and counters are as the library keeps them (\<open>sound\<close>), marked transitions hold their
  own targets (\<open>aimed\<close>), the configuration is legal. Of the marked transitions
  (\<open>step_ready\<close>): the highest state that one exits is not, and is not below, the
  highest state another exits; their sources are active; each is legal for
  \<^verbatim>\<open>is_legal\<close>; and on the way from the highest state one enters down to
  its target there is no set but possibly the target's parent. Then the turn ends within linear
  fuel, without a bad access, in a sound machine with the algorithm still running; seen through
  the set of active states, the marked transitions took a legal configuration to a legal
  configuration that holds their targets, and every state that is neither below what they leave
  nor below what they enter is as it was. Moreover the turn through deque iterators ends in the
  same machine if no event and no action is attached to states and transitions.\<close>

theorem micro_step_refines:
  assumes "stepping p m" "step_ready p m" "legal_config p m" "2 * length (p_states p) + 3 \<le> n"
  shows "\<exists>m'. micro_step p (ops_at n p) m = Inr m' \<and> legal_config p m' \<and>
    sound p m' \<and> in_progress m' \<and> conf_step p (moving p m) (conf p m) (conf p m') \<and>
    (hookless p \<and> actionless p \<longrightarrow> walking_step p (ops_at n p) m = Inr m')"
proof -
  obtain m' where m': "micro_step p (ops_at n p) m = Inr m'" "legal_config p m'" "stepping p m'"
      "\<forall>t \<in> set (moving p m). active m' (dest p t)"
      "\<forall>x. untouched p (set (moving p m)) x \<longrightarrow> active m' x = active m x"
    using micro_step_legal [OF assms] by (auto simp: wp_iff)
  have p: "wf_states p" using assms(1) by (simp add: stepping_def sound_def wf_program_def)
  have "source p t \<in> conf p m \<and> dest p t \<in> conf p m'" if "t \<in> set (moving p m)" for t
    using moving_ends [OF assms(1) that] assms(2) m'(4) that by (simp add: conf_def step_ready_def)
  moreover have "s \<in> conf p m' \<longleftrightarrow> s \<in> conf p m" if "untouched p (set (moving p m)) s" for s
    using m'(5) that by (simp add: conf_def untouched_def)
  ultimately have "conf_step p (moving p m) (conf p m) (conf p m')"
    using legal_conf [OF p assms(3)] legal_conf [OF p m'(2)] by (simp add: conf_step_def)
  moreover have "walking_step p (ops_at n p) m = Inr m'" if "hookless p" "actionless p"
    using iterators_apart [OF that _ _ m'(1)] assms(1) by (simp add: stepping_def)
  ultimately show ?thesis using m'(1,2,3) by (auto simp: stepping_def)
qed

lemma demo_untouched: "untouched demo (set (moving demo demo_swap)) (St 5)" "active demo_swap (St 5)" "valid_sptr demo (St 5)"
  unfolding untouched_def by code_simp+

theorem micro_step_refines_witness:
  "\<exists>m'. micro_step demo (ops_at 19 demo) demo_swap = Inr m' \<and>
    walking_step demo (ops_at 19 demo) demo_swap = Inr m' \<and> legal_config demo m' \<and>
    conf_legal demo (conf demo m') \<and> St 5 \<in> conf demo m'"
proof -
  obtain m' where "micro_step demo (ops_at 19 demo) demo_swap = Inr m'" "legal_config demo m'"
      "conf_step demo (moving demo demo_swap) (conf demo demo_swap) (conf demo m')"
      "walking_step demo (ops_at 19 demo) demo_swap = Inr m'"
    using micro_step_refines [of demo demo_swap 19] demo_swap_search(3) by (auto simp: demo_tree)
  moreover have "St 5 \<in> conf demo demo_swap" using demo_untouched by (simp add: conf_def)
  ultimately show ?thesis using demo_untouched(1) by (auto simp: conf_step_def)
qed

end
