(* ===== verification/Chsm_Compiled.thy ===== *)
theory Chsm_Compiled
  imports Chsmc_Program Chsmc_Example Chsm_Refinement
begin

text \<open>
  The two halves of the system together: what a description without errors compiles to, and
  that the run-time library runs it.
\<close>

section \<open>From a description to well-formed tables\<close>

text \<open>The compiler up to code generation: the grammar's actions, the checks, back-patching.\<close>

lemma description_compiles:
  assumes "act_chsm_description d (front_init l cf path) = Inr fr" "checked fr = Inr cc" "errors cc = 0"
    and "backpatch_enter_exit_events cc = Inr cc2"
    and "cd_name d \<noteq> ''root''" "list_all names_ok (cd_body d)" "errors (fr_cc fr) \<le> errors cc"
  shows "\<exists>c decl. compiled cc2 c decl"
proof -
  obtain decl c where g: "ginv decl [] (cd_name d) ''root'' c fr" "kid_scopes (fr_cc fr) = (\<lambda>_. [])"
    using machine_tables [OF assms(1) _ assms(5,6)] assms(3,7) by auto
  have "compiled cc c decl" by (rule compiled_same [OF checked_infos [OF assms(2)] compiled_front [OF g]])
  from backpatched_compiled [OF assms(4) this] show ?thesis by blast
qed

text \<open>The checks do not take errors back.\<close>

lemma checks_add_errors:
  assumes "checked fr = Inr cc"
  shows "errors (fr_cc fr) \<le> errors cc"
proof -
  have t: "errors a \<le> errors b" if "check_transition x a = Inr b" for x a b
    using that by (auto simp: check_transition_def Let_def split: option.splits if_splits)
  have i: "errors a \<le> errors b" if "iter_res check_transition ts a = Inr b" for ts a b
    using that
  proof (induction ts arbitrary: a)
    case (Cons x ts)
    then obtain c1 where "check_transition x a = Inr c1" "iter_res check_transition ts c1 = Inr b" by auto
    then show ?case using Cons.IH t order_trans by blast
  qed simp
  have e: "errors (check_events_used a) = errors a" for a
  proof -
    have "errors (fold event_message es b) = errors b" for es b by (induction es arbitrary: b) simp_all
    then show ?thesis by (simp add: check_events_used_def split: option.split)
  qed
  let ?c2 = "check_events_used (check_states_defined (fr_cc fr))"
  have "errors ?c2 \<le> errors cc"
  proof (cases "CHSM ?c2")
    case None
    then show ?thesis using assms by (simp add: checked_def check_transitions_def)
  next
    case (Some c)
    then have "iter_res check_transition (ch_transitions c) ?c2 = Inr cc"
      using assms by (simp add: checked_def check_transitions_def)
    then show ?thesis by (rule i)
  qed
  then show ?thesis by (simp add: e check_states_result)
qed

text \<open>C1: a description that passes the compiler's checks compiles to a machine whose tables are
  well-formed: the child lists and the parent pointers describe one tree, a parent comes before
  its children, an event after its base and no transition is twice among those of an event and its
  bases, the enter and exit events of the states exist, and every number of a state or transition
  is within its table.  The user's code may be anything.\<close>

theorem compiled_description_well_formed:
  assumes "act_chsm_description d (front_init l cf path) = Inr fr" "checked fr = Inr cc" "errors cc = 0"
    and "backpatch_enter_exit_events cc = Inr cc2"
    and "cd_name d \<noteq> ''root''" "list_all names_ok (cd_body d)"
  shows "\<exists>c. CHSM cc2 = Some c \<and> wf_program (program_of U cc2 c)"
proof -
  obtain c decl where "compiled cc2 c decl"
    using description_compiles [OF assms checks_add_errors [OF assms(2)]] by blast
  then show ?thesis using compiled_wf_program compiledD(1) by blast
qed

definition demo_code :: "(unit, unit) user_code" where
  "demo_code = \<lparr> uc_enter = (\<lambda>_ _ _ m. UReturn (udata m)), uc_exit = (\<lambda>_ _ _ m. UReturn (udata m)),
     uc_condition = (\<lambda>_ _ _. Returned True), uc_target = (\<lambda>_ _ _. Returned None),
     uc_action = (\<lambda>_ _ m. UReturn (udata m)), uc_precondition = (\<lambda>_ _ _. Returned True) \<rparr>"

definition back_end :: "front \<Rightarrow> stop + compiler" where
  "back_end fr = rbind (checked fr) (\<lambda>cc. if errors cc = 0 then backpatch_enter_exit_events cc else Inl Crash)"

lemma demo_passes:
  "case rbind demo_run back_end of Inl _ \<Rightarrow> False | Inr cc2 \<Rightarrow> (case CHSM cc2 of None \<Rightarrow> False
     | Some c \<Rightarrow> sd_enter_event (state_of (program_of demo_code cc2 c) (St 1)) = Some 3 \<and>
         map tr_to (p_transitions (program_of demo_code cc2 c)) = [Some 1, Some 0, Some 3, Some 3, Some 0])"
  "list_all names_ok (cd_body demo_description)" "cd_name demo_description \<noteq> ''root''"
  by code_simp+

theorem compiled_description_well_formed_witness:
  "case rbind demo_run back_end of Inl _ \<Rightarrow> False | Inr cc2 \<Rightarrow> (case CHSM cc2 of None \<Rightarrow> False
     | Some c \<Rightarrow> wf_program (program_of demo_code cc2 c))"
proof -
  obtain cc2 where r: "rbind demo_run back_end = Inr cc2"
    using demo_passes(1) by (cases "rbind demo_run back_end") auto
  then obtain fr cc where "demo_run = Inr fr" "checked fr = Inr cc" "errors cc = 0" "backpatch_enter_exit_events cc = Inr cc2"
    by (auto simp: back_end_def split: if_splits)
  then obtain c where "CHSM cc2 = Some c" "wf_program (program_of demo_code cc2 c)"
    using compiled_description_well_formed [where d = demo_description, OF _ _ _ _ demo_passes(3,2)] unfolding demo_run_def by blast
  then show ?thesis unfolding r by simp
qed

section \<open>From a description to a running machine\<close>

lemma start_conf:
  assumes "wf_program p" "no_empty_parents p" "hookless p" "length (p_states p) + 2 \<le> n"
  shows "\<exists>m'. machine_enter n p trigger (init_mstate u) = Inr (True, m') \<and> conf_legal p (conf p m') \<and> at_rest m'"
proof -
  let ?m = "init_mstate u :: ('a, 'b) mstate"
  have "quiet p ?m" using assms sound_init by (simp add: quiet_def)
  moreover have "at_rest ?m" by (simp add: at_rest_def init_mstate_def)
  ultimately have "\<exists>m'. machine_enter n p trigger ?m = Inr (True, m') \<and> legal_config p m' \<and> at_rest m'"
    using start_legal [of p ?m n trigger] init_inactive [of p u] assms(4)
    by (auto simp: wp_iff steady_def keeps_def sound_def at_rest_def)
  then show ?thesis using legal_conf wf_programD(1) [OF assms(1)] by blast
qed

text \<open>C4: a description that passes the checks compiles to a machine that starts: when no
  cluster or set is without children and no enter or exit event or action is attached,
  \<^verbatim>\<open>enter\<close> on a machine just constructed returns true, with the active
  states a legal configuration of the statechart described and nothing queued.\<close>

theorem compiled_machine_starts:
  fixes U :: "('u, 'p) user_code"
  assumes "act_chsm_description d (front_init l cf path) = Inr fr" "checked fr = Inr cc" "errors cc = 0"
    and "backpatch_enter_exit_events cc = Inr cc2"
    and "cd_name d \<noteq> ''root''" "list_all names_ok (cd_body d)"
    and "CHSM cc2 = Some c" "no_empty_parents (program_of U cc2 c)" "hookless (program_of U cc2 c)"
    and "length (ch_states c) + 2 \<le> n"
  shows "\<exists>m'. machine_enter n (program_of U cc2 c) trigger (init_mstate u) = Inr (True, m') \<and>
    conf_legal (program_of U cc2 c) (conf (program_of U cc2 c) m') \<and> at_rest m'"
proof -
  obtain c' decl where d: "compiled cc2 c' decl"
    using description_compiles [OF assms(1-6) checks_add_errors [OF assms(2)]] by blast
  then have "c' = c" using compiledD(1) [OF d] assms(7) by simp
  then have "wf_program (program_of U cc2 c)" using compiled_wf_program d by blast
  moreover have "length (p_states (program_of U cc2 c)) = length (ch_states c)" by (simp add: program_of_def)
  ultimately show ?thesis using start_conf assms(8-10) by metis
qed

definition plain_description :: chsm_description where
  "plain_description = \<lparr> cd_public = False, cd_derived = None, cd_name = ''M'', cd_params = None,
     cd_history = No_history, cd_actions = [],
     cd_body = [
       State_description None ''a'' (Some (Transition_spec [] [on_goto (User_event ''e'') ''s'' []])),
       Set_description None ''s'' [''p''] None [State_description None ''p'' None]] \<rparr>"

definition plain_run :: "stop + front" where
  "plain_run = act_chsm_description plain_description (front_init Lang_cpp demo_config ''m.chsmc'')"

lemma plain_passes:
  "case rbind plain_run back_end of Inl _ \<Rightarrow> False | Inr cc2 \<Rightarrow> (case CHSM cc2 of None \<Rightarrow> False
     | Some c \<Rightarrow> no_empty_parents (program_of demo_code cc2 c) \<and> hookless (program_of demo_code cc2 c) \<and>
         length (ch_states c) = 3)"
  "list_all names_ok (cd_body plain_description)" "cd_name plain_description \<noteq> ''root''"
  by code_simp+

theorem compiled_machine_starts_witness:
  "case rbind plain_run back_end of Inl _ \<Rightarrow> False | Inr cc2 \<Rightarrow> (case CHSM cc2 of None \<Rightarrow> False
     | Some c \<Rightarrow> \<exists>m'. machine_enter 5 (program_of demo_code cc2 c) Prime (init_mstate ()) = Inr (True, m') \<and>
         Root \<in> conf (program_of demo_code cc2 c) m')"
proof -
  obtain cc2 where r: "rbind plain_run back_end = Inr cc2"
    using plain_passes(1) by (cases "rbind plain_run back_end") auto
  then obtain fr cc where run: "plain_run = Inr fr" "checked fr = Inr cc" "errors cc = 0" "backpatch_enter_exit_events cc = Inr cc2"
    by (auto simp: back_end_def split: if_splits)
  obtain c where c: "CHSM cc2 = Some c" "no_empty_parents (program_of demo_code cc2 c)"
      "hookless (program_of demo_code cc2 c)" "length (ch_states c) + 2 \<le> 5"
    using plain_passes(1) unfolding r by (cases "CHSM cc2") auto
  have "\<exists>m'. machine_enter 5 (program_of demo_code cc2 c) Prime (init_mstate ()) = Inr (True, m') \<and>
      conf_legal (program_of demo_code cc2 c) (conf (program_of demo_code cc2 c) m') \<and> at_rest m'"
    by (rule compiled_machine_starts [OF run(1) [unfolded plain_run_def] run(2-4) plain_passes(3,2) c])
  then show ?thesis unfolding r using c(1) by (auto simp: conf_legal_def)
qed

end
