(* ===== verification/Spec2Isabelle.thy ===== *)
theory Spec2Isabelle
  imports Chsm_Properties Chsm_Flaws Chsmc_Properties Chsmc_Options Chsmc_Java_Properties Chsm_Compiled
begin

text \<open>
  CHSM is a language of Concurrent Hierarchical State Machines: a compiler (\<^verbatim>\<open>src/c++/chsmc\<close>)
  turns a description into C++ (or Java) that derives from a run-time library
  (\<^verbatim>\<open>src/c++/libchsm\<close>).  This development models the run-time library for C++ and the
  compiler: its command line, what the grammar's actions do to the compiler's state, the checks,
  and the text the two generators write.

  The run-time library.  \<open>Chsm_Prelude\<close>: results of operations that can fail (null or
  out-of-range pointers, failed assertions, the end of the model's fuel), sequencing, loops, the
  predicate transformers \<open>wlp\<close> and \<open>wp\<close>.  \<open>Chsm_Types\<close>: the tables of a generated
  machine and the mutable members of its objects (\<^verbatim>\<open>chsm.h\<close>), user code as trees of library
  calls, the constructors.  \<open>Chsm_Hierarchy\<close>: well-formed tables, ancestors, the parent's
  accessors, \<^verbatim>\<open>transition::is_legal\<close> (\<^verbatim>\<open>transition.cpp\<close>, \<^verbatim>\<open>parent.cpp\<close>).
  \<open>Chsm_Events\<close>: base events, the transition iterator, in-progress counters, the search for
  transitions (\<^verbatim>\<open>event.cpp\<close>).  \<open>Chsm_Run\<close>: entering and exiting states, clusters and sets,
  broadcasting, the three phases of the algorithm (\<^verbatim>\<open>state.cpp\<close>, \<^verbatim>\<open>cluster.cpp\<close>,
  \<^verbatim>\<open>set.cpp\<close>, \<^verbatim>\<open>event.cpp\<close>, \<^verbatim>\<open>machine.cpp\<close>).  These functions call each other
  through user code and virtual functions; a record of operations stands for the calls and
  \<open>ops_at n\<close> bounds how deep they nest.  \<open>Chsm_Fuel\<close> shows that the bound never changes a
  result, and the properties that promise a result name a bound linear in the number of states.
  \<open>Chsm_Accounting\<close>: every operation, with whatever user code, keeps the tables typed and the
  event counters equal to what is queued.  \<open>Chsm_Config\<close>: legal configurations, user code that
  only broadcasts.  \<open>Chsm_Exit\<close>, \<open>Chsm_Entry\<close>: what exiting and entering do to a
  configuration.  \<open>Chsm_Step\<close>: a whole turn of the algorithm.  \<open>Chsm_Session\<close>: the
  machines a program can reach; selection, histories, dominance.  \<open>Chsm_Library\<close>: iterators,
  comparison, debugging output.  \<open>Chsm_Machines\<close>: the machine the witnesses use;
  \<open>Chsm_Flaws\<close>: runs that crash or leave a configuration that is not legal.
  \<open>Chsm_Iterators\<close>: \<open>Chsm_Run\<close> reads the event queue by position, the code with iterators
  into a \<^verbatim>\<open>std::deque\<close> that a broadcast from an action invalidates; here is a turn of the
  algorithm with such iterators, and the proof that the two agree exactly on the turns during
  which nothing is queued.
  \<open>Chsm_Liveness\<close>: a broadcast to a machine at rest returns.  \<open>Chsm_Refinement\<close>: the
  statechart as steps between sets of active states, and that the algorithm refines it.
  \<open>Chsm_Properties\<close> holds the other properties of this part.

  The conditions under which the run-time library keeps its promises are stated with each
  property, for it does not keep them always: no cluster or set without a child; no targets
  computed at run time; user code that only broadcasts, inside the algorithm, or no code and no
  events attached to states; transitions that do not exit the same states and do not enter a
  state through a set other than its parent.  \<open>Chsm_Flaws\<close> shows what happens otherwise.

  The compiler.  \<open>Chsmc_Text\<close> and \<open>Chsmc_Mangle\<close>: strings, paths, numbers, name mangling
  (\<^verbatim>\<open>util.cpp\<close>, \<^verbatim>\<open>mangle.cpp\<close>).  \<open>Chsmc_Symbols\<close>: the symbol table and its scopes, the
  \<^verbatim>\<open>*_info\<close> classes as one datatype (\<^verbatim>\<open>symbol.cpp\<close>).  \<open>Chsmc_Compiler\<close>: types of
  symbols, messages, type checks (\<^verbatim>\<open>compiler_util.cpp\<close>, \<^verbatim>\<open>file.cpp\<close>).
  \<open>Chsmc_Checks\<close>: the passes at the end of a description (\<^verbatim>\<open>chsm_compiler.cpp\<close>).
  \<open>Chsmc_Parser\<close>: the parser of parameter lists (\<^verbatim>\<open>lang_parser.cpp\<close>, \<^verbatim>\<open>cpp_parser.cpp\<close>,
  \<^verbatim>\<open>java_parser.cpp\<close>); its loops have the number of characters left as fuel, which is shown
  to be enough.  \<open>Chsmc_Output\<close>, \<open>Chsmc_Cpp\<close>, \<open>Chsmc_Tables\<close>: indented output, parameter
  lists, the generator of C++ (\<^verbatim>\<open>cpp_generator.cpp\<close>) and the arrays it writes, read back.
  \<open>Chsmc_Java\<close>, \<open>Chsmc_Java_Text\<close>, \<open>Chsmc_Java_Properties\<close>: the generator of Java
  (\<^verbatim>\<open>java_generator.cpp\<close>), whose loop of macro substitution is bounded by the underscores of
  the line, the choice between the generators, and that both write the same tables.
  \<open>Chsmc_Options\<close>: the command line (\<^verbatim>\<open>options.cpp\<close>) and \<^verbatim>\<open>main\<close> up to the
  parser; the results of \<^verbatim>\<open>getopt_long\<close> are a parameter.
  \<open>Chsmc_Actions\<close>, \<open>Chsmc_Descriptions\<close>: the semantic stack and the actions of
  \<^verbatim>\<open>parser.ypp\<close> in the order the parser runs them on a syntax tree; \<open>Chsmc_Example\<close>: a
  description that uses most of the language.

  What a description compiles to.  \<open>Chsmc_View\<close>: the symbol table seen as two functions, the
  global info of a symbol and the scopes of its children's infos.  \<open>Chsmc_Invariant\<close>: the
  invariant of a description compiled so far without an error (declared states numbered in order,
  parents before children, children lists equal to the states with that parent, events before
  those derived from them, transition ids of different events disjoint).  \<open>Chsmc_Inner\<close>,
  \<open>Chsmc_Declare\<close>, \<open>Chsmc_Tree\<close>, \<open>Chsmc_Machine\<close>: its preservation by transitions, by
  declarations, by states with their bodies, and by the machine as a whole.  \<open>Chsmc_Program\<close>:
  the tables the generated initializers build, in the form the model of the run-time library runs
  on, and their well-formedness; \<open>Chsm_Compiled\<close>: the two halves together.
  \<open>Chsmc_Properties\<close> holds the other properties of the compiler.

  The interfaces.  What the run-time functions need of the operations they call are the locales
  \<open>accounted_ops\<close>, \<open>still_ops\<close> (which extends it) and \<open>ops_refine\<close>; the loops over
  containers use \<open>forward_iterator\<close>.  Each is interpreted on the model's own definitions.

  Not modelled: side effects of conditions, target functions and preconditions, which are functions
  of the state; the lexer's rules and the error productions of the grammar, but for tokens after
  the end of the description (the actions are run on
  a syntax tree, so line numbers in messages are those of a file of one line); the run-time
  libraries for Java and Groovy, which port the one for C++; locks of threads; the vendored
  gnulib, with \<^verbatim>\<open>getopt_long\<close>.  What the operating system does with files is left out: text
  that is written is a list of items, and files can be opened, written and read, but for the loop
  that copies user code, which is also run on a device that fails.  The parser generated from the
  grammar is represented by the order of its actions and the value it returns.  User code is a parameter throughout.
\<close>

end
